theory Spec2Isabelle
  imports Complex_Main
begin

section \<open>JavaScript values used by the graph engine\<close>

text \<open>
  The engine of \<^verbatim>\<open>app.js\<close> (functions \<^verbatim>\<open>dfs\<close>, \<^verbatim>\<open>bfs\<close>, \<^verbatim>\<open>pageRank\<close>,
  \<^verbatim>\<open>mergeTransferNodes\<close>, \<^verbatim>\<open>dijkstra\<close>) works on a lower-triangular adjacency matrix whose
  cells are the number \<^verbatim>\<open>0\<close> (no edge), an object \<^verbatim>\<open>{type, weight}\<close>, or, during a merge,
  \<^verbatim>\<open>null\<close>.  Reading an array out of range gives \<^verbatim>\<open>undefined\<close>.  A weight is a finite
  number, the rational that it stands for.
\<close>

datatype edgeType = Route | Transfer

datatype cell = Zero | Null | Undef | Rel edgeType rat

record edge =
  etype :: edgeType
  origin :: nat
  destination :: nat
  weight :: rat

text \<open>
  A boolean array as \<^verbatim>\<open>D\<close> in the traversals: a hole or an index past the end reads as
  \<^verbatim>\<open>undefined\<close>, which \<^verbatim>\<open>!D[i]\<close> treats as false; a write past the end extends the array.
\<close>

definition marked :: "bool list \<Rightarrow> nat \<Rightarrow> bool" where
  "marked D i = (i < length D \<and> D ! i)"

definition mark :: "bool list \<Rightarrow> nat \<Rightarrow> bool list" where
  "mark D i = (if i < length D then D[i := True]
               else D @ replicate (i - length D) False @ [True])"

section \<open>The graph class\<close>

text \<open>
  Modelled from the spec: the class \<^verbatim>\<open>TransitGraph\<close> of \<^verbatim>\<open>graph.js\<close>, which is not among
  the sources.  The spec gives it \<^verbatim>\<open>numNodes\<close> nodes, one stop per node and a symmetric
  relation that holds, for every unordered pair, either no edge or an edge; \<^verbatim>\<open>app.js\<close>
  (lines 461-463 and 476-482) reads the relation as the field \<^verbatim>\<open>G\<close>, an array of rows in which
  row \<^verbatim>\<open>i\<close> holds the cells of the pairs \<^verbatim>\<open>(i, j)\<close> with \<^verbatim>\<open>j < i\<close>.  The type of stops is a
  parameter.
\<close>

record 's graph =
  numNodes :: nat
  stops :: "'s list"
  G :: "cell list list"

text \<open>
  Modelled from the spec: the stored relation of an unordered pair.  A pair of equal indices
  and a pair outside the matrix have no edge.
\<close>

definition relation :: "'s graph \<Rightarrow> nat \<Rightarrow> nat \<Rightarrow> cell" where
  "relation g u v =
     (if u = v then Zero
      else if max u v < length (G g) \<and> min u v < length (G g ! max u v)
           then G g ! max u v ! min u v
           else Zero)"

text \<open>Modelled from the spec: \<^verbatim>\<open>length()\<close>, the node count.\<close>

definition glength :: "'s graph \<Rightarrow> nat" where
  "glength g = numNodes g"

text \<open>Modelled from the spec: \<^verbatim>\<open>edgeExists(u, v)\<close>, a symmetric boolean query.\<close>

definition edgeExists :: "'s graph \<Rightarrow> nat \<Rightarrow> nat \<Rightarrow> bool" where
  "edgeExists g u v = (case relation g u v of Rel t w \<Rightarrow> True | _ \<Rightarrow> False)"

text \<open>
  Modelled from the spec: \<^verbatim>\<open>getWeight(u, v)\<close>; \<open>None\<close> stands for the \<^verbatim>\<open>undefined\<close> of a
  pair that stores no edge.
\<close>

definition getWeight :: "'s graph \<Rightarrow> nat \<Rightarrow> nat \<Rightarrow> rat option" where
  "getWeight g u v = (case relation g u v of Rel t w \<Rightarrow> Some w | _ \<Rightarrow> None)"

text \<open>
  Modelled from the spec: \<^verbatim>\<open>createEdge(u, v)\<close> materialises an edge from the stored relation,
  with origin \<open>u\<close>, destination \<open>v\<close> and the stored type and weight; \<open>None\<close> where nothing is
  stored.
\<close>

definition createEdge :: "'s graph \<Rightarrow> nat \<Rightarrow> nat \<Rightarrow> edge option" where
  "createEdge g u v =
     (case relation g u v of
        Rel t w \<Rightarrow> Some \<lparr>etype = t, origin = u, destination = v, weight = w\<rparr>
      | _ \<Rightarrow> None)"

text \<open>
  Modelled from the spec: \<^verbatim>\<open>getTransferEdges()\<close> returns every stored edge whose type is
  transfer, each pair once; the origin is the row and the destination the column of the cell.
\<close>

definition getTransferEdges :: "'s graph \<Rightarrow> edge list" where
  "getTransferEdges g =
     concat (map (\<lambda>i. concat (map (\<lambda>j.
         (case G g ! i ! j of
            Rel Transfer w \<Rightarrow> [\<lparr>etype = Transfer, origin = i, destination = j, weight = w\<rparr>]
          | _ \<Rightarrow> []))
       [0..<length (G g ! i)])) [0..<length (G g)])"

text \<open>
  Modelled from the spec: the constructor \<^verbatim>\<open>new TransitGraph(edgeList, numNodes, stops)\<close>.  It
  builds the relation of \<^verbatim>\<open>numNodes\<close> nodes with no edge and then stores every edge of the list
  at the cell of its unordered pair; an edge from a node to itself or to a node outside the
  graph stores nothing.
\<close>

definition storeEdge :: "cell list list \<Rightarrow> edge \<Rightarrow> cell list list" where
  "storeEdge M e =
     (let r = max (origin e) (destination e); c = min (origin e) (destination e)
      in if origin e \<noteq> destination e \<and> r < length M
         then M[r := (M ! r)[c := Rel (etype e) (weight e)]]
         else M)"

definition emptyMatrix :: "nat \<Rightarrow> cell list list" where
  "emptyMatrix n = map (\<lambda>i. replicate i Zero) [0..<n]"

definition TransitGraph :: "edge list \<Rightarrow> nat \<Rightarrow> 's list \<Rightarrow> 's graph" where
  "TransitGraph edgeList n st =
     \<lparr>numNodes = n, stops = st, G = foldl storeEdge (emptyMatrix n) edgeList\<rparr>"

section \<open>Double arithmetic\<close>

text \<open>
  A number of JavaScript is an IEEE 754 double.  A finite double is the rational it stands
  for, and the sum of two doubles is their exact sum rounded to the nearest double, a tie
  going to the double whose last bit is 0.  The sign of zero is left out.

  \<open>pow2 e\<close> is the power of two of exponent \<open>e\<close>; \<open>halfEven\<close> rounds to the nearest integer, a
  tie going to the even one; \<open>exponentOf x\<close> is the exponent of the binade of a positive \<open>x\<close>,
  the \<open>e\<close> with \<open>pow2 e \<le> x < pow2 (e + 1)\<close>; \<open>roundPos x\<close> rounds a number that is not
  negative to 53 significant bits, or to a multiple of the least subnormal below the least
  normal binade, with no bound on the exponent.
\<close>

definition pow2 :: "int \<Rightarrow> rat" where
  "pow2 e = 2 powi e"

definition halfEven :: "rat \<Rightarrow> int" where
  "halfEven x =
     (let f = \<lfloor>x\<rfloor>; r = x - of_int f
      in if r < 1 / 2 then f
         else if 1 / 2 < r then f + 1
         else if even f then f else f + 1)"

function log2int :: "int \<Rightarrow> int" where
  "log2int n = (if n < 2 then 0 else log2int (n div 2) + 1)"
  by pat_completeness auto
termination
  by (relation "measure nat") auto

declare log2int.simps [simp del]

definition exponentOf :: "rat \<Rightarrow> int" where
  "exponentOf x =
     (if 1 \<le> x then log2int \<lfloor>x\<rfloor>
      else (let k = log2int \<lfloor>1 / x\<rfloor>
            in if pow2 (- k) \<le> x then - k else - k - 1))"

definition roundPos :: "rat \<Rightarrow> rat" where
  "roundPos x =
     (let u = pow2 (max (exponentOf x) (- 1022) - 52)
      in of_int (halfEven (x / u)) * u)"

section \<open>The traverser\<close>

text \<open>
  Modelled from the spec: the class \<^verbatim>\<open>BasicTraverser\<close> of \<^verbatim>\<open>graphTraverser.js\<close>, which is
  not among the sources.  The traverser is the ordered log of the calls it receives, and
  \<^verbatim>\<open>visitedNodes\<close> is the sequence of the arguments of \<^verbatim>\<open>visitNode\<close>.  The algorithms are
  modelled with a traverser supplied.
\<close>

text \<open>
  A JavaScript number that arithmetic produced: a finite value, taken exactly, or \<open>None\<close> for
  \<^verbatim>\<open>NaN\<close> and the two infinities.
\<close>

type_synonym num = "rat option"

text \<open>
  A distance of \<^verbatim>\<open>dijkstra\<close>: a finite double, the constant \<^verbatim>\<open>Infinity\<close> or its negative, or
  \<open>Undefined\<close> for the \<^verbatim>\<open>undefined\<close> of an array hole and for the \<^verbatim>\<open>NaN\<close> of a sum with it.
\<close>

datatype dist = Fin rat | Infinity | MinusInfinity | Undefined

datatype stats = StationsVisited nat | Ranks "num list" | PathLength dist

datatype event =
    VisitNode nat
  | Visit "edge option"
  | Leave "edge option"
  | RecordRanks "num list"
  | Summary stats

fun visitedNodes :: "event list \<Rightarrow> nat list" where
  "visitedNodes [] = []"
| "visitedNodes (VisitNode n # tr) = n # visitedNodes tr"
| "visitedNodes (_ # tr) = visitedNodes tr"

section \<open>Breadth-first search\<close>

text \<open>
  The \<^verbatim>\<open>for\<close> loop of lines 337-345 for one dequeued node, over the indices still to scan.
  The state is the queue \<^verbatim>\<open>Q\<close>, the array \<^verbatim>\<open>D\<close> and the traverser's log.
\<close>

type_synonym bfs_state = "nat list \<times> bool list \<times> event list"

fun bfsScan :: "'s graph \<Rightarrow> nat \<Rightarrow> nat list \<Rightarrow> bfs_state \<Rightarrow> bfs_state" where
  "bfsScan g node [] st = st"
| "bfsScan g node (i # ixs) (Q, D, tr) =
     (if edgeExists g node i \<and> \<not> marked D i
      then bfsScan g node ixs
             (Q @ [i], mark D i, tr @ [Visit (createEdge g node i), VisitNode node])
      else bfsScan g node ixs (Q, D, tr))"

definition unmarked :: "nat \<Rightarrow> bool list \<Rightarrow> nat" where
  "unmarked n D = card {i. i < n \<and> \<not> marked D i}"

lemma marked_mark: "marked (mark D i) j = (marked D j \<or> j = i)"
  by (auto simp: marked_def mark_def nth_append nth_list_update)

lemma unmarked_mark:
  assumes "i < n" "\<not> marked D i"
  shows "Suc (unmarked n (mark D i)) = unmarked n D"
proof -
  have eq: "{j. j < n \<and> \<not> marked (mark D i) j} = {j. j < n \<and> \<not> marked D j} - {i}"
    by (auto simp: marked_mark)
  have "i \<in> {j. j < n \<and> \<not> marked D j}" using assms by simp
  moreover have "finite {j. j < n \<and> \<not> marked D j}" by simp
  ultimately show ?thesis
    unfolding unmarked_def eq
    by (metis card_Suc_Diff1)
qed

lemma bfsScan_measure:
  assumes "set ixs \<subseteq> {..<n}" "bfsScan g node ixs (Q, D, tr) = (Q', D', tr')"
  shows "2 * unmarked n D' + length Q' \<le> 2 * unmarked n D + length Q"
  using assms
proof (induction ixs arbitrary: Q D tr)
  case Nil
  then show ?case by simp
next
  case (Cons i ixs)
  show ?case
  proof (cases "edgeExists g node i \<and> \<not> marked D i")
    case True
    with Cons.prems have
      "bfsScan g node ixs (Q @ [i], mark D i, tr @ [Visit (createEdge g node i), VisitNode node])
         = (Q', D', tr')" by simp
    moreover have "set ixs \<subseteq> {..<n}" using Cons.prems(1) by simp
    ultimately have
      "2 * unmarked n D' + length Q' \<le> 2 * unmarked n (mark D i) + length (Q @ [i])"
      by (rule Cons.IH[rotated])
    moreover have "Suc (unmarked n (mark D i)) = unmarked n D"
      using True Cons.prems(1) by (intro unmarked_mark) auto
    ultimately show ?thesis by simp
  next
    case False
    with Cons.prems have "bfsScan g node ixs (Q, D, tr) = (Q', D', tr')" by simp
    moreover have "set ixs \<subseteq> {..<n}" using Cons.prems(1) by simp
    ultimately show ?thesis by (rule Cons.IH[rotated])
  qed
qed

text \<open>
  The \<^verbatim>\<open>async.whilst\<close> loop of lines 330-362: each turn dequeues one node and scans it; the
  deferral of a turn to the next tick of the event loop does not change the sequence of turns.
\<close>

function bfsLoop :: "'s graph \<Rightarrow> bfs_state \<Rightarrow> bfs_state" where
  "bfsLoop g ([], D, tr) = ([], D, tr)"
| "bfsLoop g (node # Q, D, tr) = bfsLoop g (bfsScan g node [0..<length (G g)] (Q, D, tr))"
  by pat_completeness auto
termination
proof (relation "measure (\<lambda>(g, Q, D, tr). 2 * unmarked (length (G g)) D + length Q)", goal_cases)
  case 1
  then show ?case by simp
next
  case (2 g node Q D tr)
  obtain Q' D' tr' where r: "bfsScan g node [0..<length (G g)] (Q, D, tr) = (Q', D', tr')"
    by (cases "bfsScan g node [0..<length (G g)] (Q, D, tr)") auto
  have "2 * unmarked (length (G g)) D' + length Q' \<le> 2 * unmarked (length (G g)) D + length Q"
    by (rule bfsScan_measure[OF _ r]) auto
  then show ?case using r by simp
qed

definition bfs :: "'s graph \<Rightarrow> nat \<Rightarrow> event list" where
  "bfs g startingNode =
     (case bfsLoop g ([startingNode], mark (replicate (numNodes g) False) startingNode,
                      [VisitNode startingNode]) of
        (Q, D, tr) \<Rightarrow> tr @ [Summary (StationsVisited (length (visitedNodes tr)))])"

section \<open>Depth-first search\<close>

text \<open>
  The argument \<^verbatim>\<open>parent\<close> of \<^verbatim>\<open>dfsExplore\<close> is \<^verbatim>\<open>undefined\<close> in the first call (\<open>None\<close>) and
  a node index afterwards; the tests \<^verbatim>\<open>traverser && parent\<close> of lines 299 and 308 take it as
  a boolean.
\<close>

definition truthy :: "nat option \<Rightarrow> bool" where
  "truthy parent = (case parent of None \<Rightarrow> False | Some p \<Rightarrow> p \<noteq> 0)"

type_synonym dfs_state = "bool list \<times> event list"

text \<open>
  The recursive \<^verbatim>\<open>dfsExplore\<close> of lines 296-309, with the array \<^verbatim>\<open>D\<close> and the traverser's log
  passed through.  The first argument bounds the depth of the recursion, and \<open>None\<close> is
  returned when it is used up; \<open>dfsNeighbours\<close> is the \<^verbatim>\<open>for\<close> loop of lines 302-306 over the
  indices still to try.
\<close>

fun dfsExplore :: "nat \<Rightarrow> 's graph \<Rightarrow> nat \<Rightarrow> nat option \<Rightarrow> dfs_state \<Rightarrow> dfs_state option"
  and dfsNeighbours :: "nat \<Rightarrow> 's graph \<Rightarrow> nat \<Rightarrow> nat list \<Rightarrow> dfs_state \<Rightarrow> dfs_state option"
where
  "dfsExplore 0 g node parent st = None"
| "dfsExplore (Suc fuel) g node parent (D, tr) =
     (case dfsNeighbours fuel g node [0..<numNodes g]
             (mark D node,
              (if truthy parent then tr @ [Visit (createEdge g (the parent) node)] else tr)
                @ [VisitNode node]) of
        None \<Rightarrow> None
      | Some (D', tr') \<Rightarrow>
          Some (D', if truthy parent then tr' @ [Leave (createEdge g node (the parent))] else tr'))"
| "dfsNeighbours fuel g node [] st = Some st"
| "dfsNeighbours fuel g node (i # ixs) (D, tr) =
     (if edgeExists g node i \<and> \<not> marked D i
      then (case dfsExplore fuel g i (Some node) (D, tr) of
              None \<Rightarrow> None
            | Some st' \<Rightarrow> dfsNeighbours fuel g node ixs st')
      else dfsNeighbours fuel g node ixs (D, tr))"

text \<open>
  \<^verbatim>\<open>dfs\<close>, lines 291-312.  Every nested call marks a node below \<^verbatim>\<open>numNodes\<close> that was not
  marked before, so \<^verbatim>\<open>numNodes + 1\<close> levels are enough (lemma \<open>dfs_returns\<close>).
\<close>

definition dfs :: "'s graph \<Rightarrow> nat \<Rightarrow> event list option" where
  "dfs g node =
     (case dfsExplore (Suc (numNodes g)) g node None (replicate (numNodes g) False, []) of
        None \<Rightarrow> None
      | Some (D, tr) \<Rightarrow> Some (tr @ [Summary (StationsVisited (length (visitedNodes tr)))]))"

section \<open>Page rank\<close>

text \<open>Reading an array of numbers: out of range gives \<^verbatim>\<open>undefined\<close>, which arithmetic turns into \<^verbatim>\<open>NaN\<close>.\<close>

definition rankAt :: "num list \<Rightarrow> nat \<Rightarrow> num" where
  "rankAt ranks i = (if i < length ranks then ranks ! i else None)"

definition countAt :: "nat list \<Rightarrow> nat \<Rightarrow> nat option" where
  "countAt counts i = (if i < length counts then Some (counts ! i) else None)"

definition num_add :: "num \<Rightarrow> num \<Rightarrow> num" where
  "num_add a b = (case (a, b) of (Some x, Some y) \<Rightarrow> Some (x + y) | _ \<Rightarrow> None)"

definition num_mul :: "num \<Rightarrow> num \<Rightarrow> num" where
  "num_mul a b = (case (a, b) of (Some x, Some y) \<Rightarrow> Some (x * y) | _ \<Rightarrow> None)"

text \<open>Division by a count: a zero divisor gives an infinity or \<^verbatim>\<open>NaN\<close>, never an exception.\<close>

definition num_div :: "num \<Rightarrow> nat option \<Rightarrow> num" where
  "num_div a b =
     (case (a, b) of
        (Some x, Some y) \<Rightarrow> if y = 0 then None else Some (x / of_nat y)
      | _ \<Rightarrow> None)"

definition damping :: rat where
  "damping = 1"

definition initialRank :: rat where
  "initialRank = 1"

text \<open>\<^verbatim>\<open>countOutgoingEdges\<close>, lines 380-388.\<close>

fun countRow :: "'s graph \<Rightarrow> nat \<Rightarrow> nat list \<Rightarrow> nat \<Rightarrow> nat" where
  "countRow g i [] edgeCount = edgeCount"
| "countRow g i (j # js) edgeCount =
     countRow g i js (if edgeExists g i j then edgeCount + 1 else edgeCount)"

definition countOutgoingEdges :: "'s graph \<Rightarrow> nat list" where
  "countOutgoingEdges g = map (\<lambda>i. countRow g i [0..<glength g] 0) [0..<glength g]"

text \<open>
  \<^verbatim>\<open>countIncomingEdges\<close>, lines 390-396; \<open>j\<close> is below the length of \<^verbatim>\<open>incomingNodes\<close>, which
  has \<^verbatim>\<open>graph.length()\<close> entries.
\<close>

fun incomingRow :: "'s graph \<Rightarrow> nat \<Rightarrow> nat list \<Rightarrow> nat list list \<Rightarrow> nat list list" where
  "incomingRow g i [] inc = inc"
| "incomingRow g i (j # js) inc =
     incomingRow g i js (if edgeExists g i j then inc[j := inc ! j @ [i]] else inc)"

fun incomingRows :: "'s graph \<Rightarrow> nat list \<Rightarrow> nat list list \<Rightarrow> nat list list" where
  "incomingRows g [] inc = inc"
| "incomingRows g (i # ixs) inc = incomingRows g ixs (incomingRow g i [0..<glength g] inc)"

definition countIncomingEdges :: "'s graph \<Rightarrow> nat list list" where
  "countIncomingEdges g = incomingRows g [0..<glength g] (replicate (glength g) [])"

text \<open>
  \<^verbatim>\<open>updateRank\<close>, lines 398-406, reading the array \<^verbatim>\<open>ranks\<close> as it is at the call;
  \<open>nodeIndex\<close> is below \<^verbatim>\<open>graph.length()\<close>.
\<close>

fun inNodeSum :: "nat list \<Rightarrow> num list \<Rightarrow> nat list \<Rightarrow> num \<Rightarrow> num" where
  "inNodeSum counts ranks [] inNodeSummation = inNodeSummation"
| "inNodeSum counts ranks (incoming # rest) inNodeSummation =
     inNodeSum counts ranks rest
       (num_add inNodeSummation (num_div (rankAt ranks incoming) (countAt counts incoming)))"

definition updateRank :: "'s graph \<Rightarrow> num list \<Rightarrow> nat \<Rightarrow> num" where
  "updateRank g ranks nodeIndex =
     num_add (num_div (Some (1 - damping)) (Some (glength g)))
             (num_mul (Some damping)
                (inNodeSum (countOutgoingEdges g) ranks (countIncomingEdges g ! nodeIndex) (Some 0)))"

text \<open>The \<^verbatim>\<open>for\<close> loop of lines 409-411: one sweep, writing \<^verbatim>\<open>ranks[node]\<close> in place.\<close>

fun sweep :: "'s graph \<Rightarrow> nat list \<Rightarrow> num list \<Rightarrow> num list" where
  "sweep g [] ranks = ranks"
| "sweep g (node # nodes) ranks = sweep g nodes (ranks[node := updateRank g ranks node])"

text \<open>The \<^verbatim>\<open>while (iterations--)\<close> loop of lines 408-412.\<close>

fun rankIterations :: "'s graph \<Rightarrow> nat \<Rightarrow> num list \<Rightarrow> num list" where
  "rankIterations g 0 ranks = ranks"
| "rankIterations g (Suc iterations) ranks =
     rankIterations g iterations (sweep g [0..<glength g] ranks)"

definition finalRanks :: "'s graph \<Rightarrow> num list" where
  "finalRanks g = rankIterations g 10 (replicate (glength g) (Some initialRank))"

text \<open>\<^verbatim>\<open>pageRank\<close>, lines 368-415: what the traverser receives.  The report file is left out.\<close>

definition pageRank :: "'s graph \<Rightarrow> event list" where
  "pageRank g = [RecordRanks (finalRanks g), Summary (Ranks (finalRanks g))]"

section \<open>Dijkstra\<close>

text \<open>
  The double nearest to a number: a rounded value of magnitude \<open>pow2 1024\<close> or more is an
  infinity.
\<close>

definition toDouble :: "rat \<Rightarrow> dist" where
  "toDouble x =
     (if 0 \<le> x
      then (if pow2 1024 \<le> roundPos x then Infinity else Fin (roundPos x))
      else (if pow2 1024 \<le> roundPos (- x) then MinusInfinity else Fin (- roundPos (- x))))"

text \<open>
  Comparisons of distances as JavaScript makes them: \<^verbatim>\<open>undefined\<close> and \<^verbatim>\<open>NaN\<close> compare false
  with everything.
\<close>

fun dist_less :: "dist \<Rightarrow> dist \<Rightarrow> bool" where
  "dist_less (Fin a) (Fin b) = (a < b)"
| "dist_less (Fin a) Infinity = True"
| "dist_less MinusInfinity (Fin b) = True"
| "dist_less MinusInfinity Infinity = True"
| "dist_less _ _ = False"

definition distAt :: "dist list \<Rightarrow> nat \<Rightarrow> dist" where
  "distAt S i = (if i < length S then S ! i else Undefined)"

definition distSet :: "dist list \<Rightarrow> nat \<Rightarrow> dist \<Rightarrow> dist list" where
  "distSet S i d = (if i < length S then S[i := d]
                    else S @ replicate (i - length S) Undefined @ [d])"

text \<open>
  The selection loop of lines 604-610 over the indices still to try; the accumulator is
  \<^verbatim>\<open>minDistance\<close> and \<^verbatim>\<open>minIndex\<close>.
\<close>

fun selectMin :: "dist list \<Rightarrow> bool list \<Rightarrow> nat list \<Rightarrow> dist \<times> nat option \<Rightarrow> dist \<times> nat option" where
  "selectMin S D [] acc = acc"
| "selectMin S D (i # ixs) (minDistance, minIndex) =
     (if dist_less (distAt S i) minDistance \<and> \<not> marked D i
      then selectMin S D ixs (distAt S i, Some i)
      else selectMin S D ixs (minDistance, minIndex))"

text \<open>
  The relaxation loop of lines 614-619.  The sum \<^verbatim>\<open>S[minIndex] + getWeight(minIndex, i)\<close> of
  two numbers is their sum in double arithmetic; a sum with \<^verbatim>\<open>undefined\<close> is \<^verbatim>\<open>NaN\<close>, and the
  comparison is then false.  A weight is finite.
\<close>

definition distPlus :: "dist \<Rightarrow> rat option \<Rightarrow> dist" where
  "distPlus d w =
     (case (d, w) of
        (Fin a, Some b) \<Rightarrow> toDouble (a + b)
      | (Infinity, Some b) \<Rightarrow> Infinity
      | (MinusInfinity, Some b) \<Rightarrow> MinusInfinity
      | _ \<Rightarrow> Undefined)"

fun relax :: "'s graph \<Rightarrow> nat \<Rightarrow> nat list \<Rightarrow> dist list \<times> nat list \<Rightarrow> dist list \<times> nat list" where
  "relax g minIndex [] st = st"
| "relax g minIndex (i # ixs) (S, P) =
     (if edgeExists g minIndex i
         \<and> dist_less (distPlus (distAt S minIndex) (getWeight g minIndex i)) (distAt S i)
      then relax g minIndex ixs
             (S[i := distPlus (distAt S minIndex) (getWeight g minIndex i)], P[i := minIndex])
      else relax g minIndex ixs (S, P))"

text \<open>
  The main loop of lines 603-620, by recursion on \<^verbatim>\<open>iterations\<close>; the state is the three arrays
  \<^verbatim>\<open>S\<close>, \<^verbatim>\<open>D\<close> and \<^verbatim>\<open>P\<close>.
\<close>

type_synonym dijkstra_state = "dist list \<times> bool list \<times> nat list"

fun dijkstraLoop :: "'s graph \<Rightarrow> nat \<Rightarrow> dijkstra_state \<Rightarrow> dijkstra_state" where
  "dijkstraLoop g 0 st = st"
| "dijkstraLoop g (Suc iterations) (S, D, P) =
     (case selectMin S D [0..<glength g] (Infinity, None) of
        (minDistance, Some minIndex) \<Rightarrow>
          (if minDistance = Infinity then (S, D, P)
           else (case relax g minIndex [0..<glength g] (S, P) of
                   (S', P') \<Rightarrow> dijkstraLoop g iterations (S', mark D minIndex, P')))
      | (minDistance, None) \<Rightarrow> (S, D, P))"

definition dijkstraArrays :: "'s graph \<Rightarrow> nat \<Rightarrow> dijkstra_state" where
  "dijkstraArrays g start =
     dijkstraLoop g (glength g)
       (distSet (replicate (glength g) Infinity) start (Fin 0),
        replicate (glength g) False,
        replicate (glength g) 0)"

text \<open>
  The path loop of lines 628-633.  It may run forever, and then the value is \<open>None\<close>.  An index
  outside \<^verbatim>\<open>P\<close> reads \<^verbatim>\<open>undefined\<close>, which differs from \<^verbatim>\<open>0\<close> and is then passed on as a node
  index; the spec gives \<^verbatim>\<open>createEdge\<close> no meaning there and the loop cannot end normally, so
  the value is \<open>None\<close> as well.
\<close>

partial_function (option) pathLoop ::
  "'s graph \<Rightarrow> nat list \<Rightarrow> nat \<Rightarrow> edge option list \<Rightarrow> edge option list option" where
  "pathLoop g P i path =
     (if i < length P
      then (if P ! i \<noteq> 0 then pathLoop g P (P ! i) (path @ [createEdge g (P ! i) i])
            else Some path)
      else None)"

declare pathLoop.simps [code]

text \<open>\<^verbatim>\<open>dijkstra\<close>, lines 593-642: what the traverser receives.  The two log lines are left out.\<close>

definition dijkstra :: "'s graph \<Rightarrow> nat \<Rightarrow> nat \<Rightarrow> event list option" where
  "dijkstra g start endNode =
     (case dijkstraArrays g start of
        (S, D, P) \<Rightarrow>
          (case pathLoop g P endNode [] of
             None \<Rightarrow> None
           | Some path \<Rightarrow> Some (map Visit (rev path) @ [Summary (PathLength (distAt S endNode))])))"

section \<open>Merging transfer nodes\<close>

datatype error = TypeError

definition thenE :: "error + 'a \<Rightarrow> ('a \<Rightarrow> error + 'b) \<Rightarrow> error + 'b" where
  "thenE m f = (case m of Inl e \<Rightarrow> Inl e | Inr x \<Rightarrow> f x)"

text \<open>
  Rows of the working copy \<^verbatim>\<open>newGraph\<close>.  Reading a cell past the end of a row gives
  \<^verbatim>\<open>undefined\<close>, writing one extends the row; indexing a row that does not exist raises a
  \<^verbatim>\<open>TypeError\<close>.
\<close>

definition cellGet :: "cell list \<Rightarrow> nat \<Rightarrow> cell" where
  "cellGet row i = (if i < length row then row ! i else Undef)"

definition cellSet :: "cell list \<Rightarrow> nat \<Rightarrow> cell \<Rightarrow> cell list" where
  "cellSet row i v = (if i < length row then row[i := v]
                      else row @ replicate (i - length row) Undef @ [v])"

definition getCell :: "cell list list \<Rightarrow> nat \<Rightarrow> nat \<Rightarrow> error + cell" where
  "getCell M r c = (if r < length M then Inr (cellGet (M ! r) c) else Inl TypeError)"

definition setCell :: "cell list list \<Rightarrow> nat \<Rightarrow> nat \<Rightarrow> cell \<Rightarrow> error + cell list list" where
  "setCell M r c v = (if r < length M then Inr (M[r := cellSet (M ! r) c v]) else Inl TypeError)"

text \<open>\<^verbatim>\<open>xs.splice(i, 1)\<close>: a negative start counts from the end, a start past the end removes nothing.\<close>

definition splice1 :: "'a list \<Rightarrow> int \<Rightarrow> 'a list" where
  "splice1 xs i =
     (let n = int (length xs);
          s = (if i < 0 then max (n + i) 0 else min i n)
      in take (nat s) xs @ drop (nat s + 1) xs)"

text \<open>
  The property read \<^verbatim>\<open>.type\<close> of a cell: \<^verbatim>\<open>undefined\<close> on the number \<^verbatim>\<open>0\<close>, a \<^verbatim>\<open>TypeError\<close> on
  \<^verbatim>\<open>null\<close> and \<^verbatim>\<open>undefined\<close>.
\<close>

definition typeOf :: "cell \<Rightarrow> error + edgeType option" where
  "typeOf c = (case c of Zero \<Rightarrow> Inr None | Rel t w \<Rightarrow> Inr (Some t) | _ \<Rightarrow> Inl TypeError)"

text \<open>\<^verbatim>\<open>mergeEdges\<close>, lines 501-509; the second operand of \<^verbatim>\<open>||\<close> is read only when the first is false.\<close>

definition mergeEdges :: "cell \<Rightarrow> cell \<Rightarrow> error + cell" where
  "mergeEdges edgeA edgeB =
     (if edgeA = Zero \<and> edgeB = Zero then Inr Zero
      else thenE (typeOf edgeA) (\<lambda>ta.
             if ta = Some Transfer then Inr (Rel Transfer (- 1))
             else thenE (typeOf edgeB) (\<lambda>tb.
                    if tb = Some Transfer then Inr (Rel Transfer (- 1))
                    else Inr (Rel Route (- 1)))))"

text \<open>\<^verbatim>\<open>horizontalOverlap\<close>, lines 549-558: the loop over the indices still to do.\<close>

fun horizontalOverlap :: "nat \<Rightarrow> nat \<Rightarrow> nat \<Rightarrow> nat list \<Rightarrow> cell list list \<Rightarrow> error + cell list list" where
  "horizontalOverlap loIndex hiIndex unionIndex [] M = Inr M"
| "horizontalOverlap loIndex hiIndex unionIndex (i # ixs) M =
     thenE (getCell M loIndex i) (\<lambda>a.
     thenE (getCell M hiIndex i) (\<lambda>b.
     thenE (mergeEdges a b) (\<lambda>m.
     thenE (setCell M unionIndex i m) (\<lambda>M1.
     thenE (setCell M1 loIndex i Null) (\<lambda>M2.
     horizontalOverlap loIndex hiIndex unionIndex ixs M2)))))"

text \<open>\<^verbatim>\<open>horizontalHiOvershoot\<close>, lines 559-569: its two loops.\<close>

fun hiOvershootMerge :: "nat \<Rightarrow> nat \<Rightarrow> nat list \<Rightarrow> cell list list \<Rightarrow> error + cell list list" where
  "hiOvershootMerge hiIndex unionIndex [] M = Inr M"
| "hiOvershootMerge hiIndex unionIndex (i # ixs) M =
     thenE (getCell M hiIndex i) (\<lambda>a.
     thenE (mergeEdges a Zero) (\<lambda>m.
     thenE (setCell M unionIndex i m) (\<lambda>M1.
     hiOvershootMerge hiIndex unionIndex ixs M1)))"

fun hiOvershootClear :: "nat \<Rightarrow> nat list \<Rightarrow> cell list list \<Rightarrow> error + cell list list" where
  "hiOvershootClear hiIndex [] M = Inr M"
| "hiOvershootClear hiIndex (i # ixs) M =
     thenE (setCell M hiIndex i Null) (\<lambda>M1. hiOvershootClear hiIndex ixs M1)"

definition horizontalHiOvershoot :: "nat \<Rightarrow> nat \<Rightarrow> nat \<Rightarrow> cell list list \<Rightarrow> error + cell list list" where
  "horizontalHiOvershoot loIndex hiIndex unionIndex M =
     thenE (hiOvershootMerge hiIndex unionIndex [loIndex + 1..<hiIndex] M) (\<lambda>M1.
     hiOvershootClear hiIndex [0..<hiIndex] M1)"

text \<open>\<^verbatim>\<open>verticalOverlap\<close>, lines 570-580.\<close>

fun verticalOverlap :: "nat \<Rightarrow> nat \<Rightarrow> nat \<Rightarrow> nat list \<Rightarrow> cell list list \<Rightarrow> error + cell list list" where
  "verticalOverlap loIndex hiIndex unionIndex [] M = Inr M"
| "verticalOverlap loIndex hiIndex unionIndex (i # ixs) M =
     thenE (getCell M i loIndex) (\<lambda>a.
     thenE (getCell M i hiIndex) (\<lambda>b.
     thenE (mergeEdges a b) (\<lambda>m.
     thenE (setCell M unionIndex i m) (\<lambda>M1.
     thenE (setCell M1 i loIndex Null) (\<lambda>M2.
     thenE (setCell M2 i hiIndex Null) (\<lambda>M3.
     verticalOverlap loIndex hiIndex unionIndex ixs M3))))))"

text \<open>\<^verbatim>\<open>verticalLoOvershoot\<close>, lines 581-590.\<close>

fun verticalLoOvershoot :: "nat \<Rightarrow> nat \<Rightarrow> nat list \<Rightarrow> cell list list \<Rightarrow> error + cell list list" where
  "verticalLoOvershoot loIndex unionIndex [] M = Inr M"
| "verticalLoOvershoot loIndex unionIndex (i # ixs) M =
     thenE (getCell M i loIndex) (\<lambda>overlap.
     thenE (getCell M unionIndex i) (\<lambda>b.
     thenE (mergeEdges overlap b) (\<lambda>m.
     thenE (setCell M unionIndex i m) (\<lambda>M1.
     thenE (setCell M1 i loIndex Null) (\<lambda>M2.
     verticalLoOvershoot loIndex unionIndex ixs M2)))))"

text \<open>The loop of lines 542-546: every row but the last loses its \<^verbatim>\<open>null\<close> cells.\<close>

definition removeNulls :: "cell list list \<Rightarrow> cell list list" where
  "removeNulls M =
     map (\<lambda>i. if i + 1 < length M then filter (\<lambda>c. c \<noteq> Null) (M ! i) else M ! i) [0..<length M]"

text \<open>
  The four passes and the splices of \<^verbatim>\<open>merge\<close>, lines 517-546, on the working copy
  \<^verbatim>\<open>newGraph\<close>.
\<close>

definition mergeRows :: "nat \<Rightarrow> nat \<Rightarrow> cell list list \<Rightarrow> error + cell list list" where
  "mergeRows loIndex hiIndex newGraph =
     (let M0 = newGraph @ [replicate (length newGraph - 1) Zero];
          unionIndex = length M0 - 1
      in thenE (horizontalOverlap loIndex hiIndex unionIndex [0..<loIndex] M0) (\<lambda>M1.
         thenE (horizontalHiOvershoot loIndex hiIndex unionIndex M1) (\<lambda>M2.
         thenE (verticalOverlap loIndex hiIndex unionIndex [hiIndex + 1..<unionIndex] M2) (\<lambda>M3.
         thenE (verticalLoOvershoot loIndex unionIndex [loIndex + 1..<hiIndex] M3) (\<lambda>M4.
         Inr (removeNulls
                (splice1 (splice1
                   (M4[unionIndex := splice1 (splice1 (M4 ! unionIndex) (int loIndex))
                                        (int hiIndex - 1)])
                   (int loIndex)) (int hiIndex - 1))))))))"

text \<open>
  The stops of \<^verbatim>\<open>merge\<close>, lines 512-515.  The method \<^verbatim>\<open>mergeWith\<close> of a stop is a parameter;
  the spec requires it to be pure.  A missing first stop raises a \<^verbatim>\<open>TypeError\<close>; the spec
  gives \<^verbatim>\<open>mergeWith\<close> no meaning on a missing second stop, which is modelled as the same
  error.
\<close>

definition mergeStops :: "('s \<Rightarrow> 's \<Rightarrow> 's) \<Rightarrow> nat \<Rightarrow> nat \<Rightarrow> 's list \<Rightarrow> error + 's list" where
  "mergeStops mergeWith loIndex hiIndex newStops =
     (if loIndex < length newStops \<and> hiIndex < length newStops
      then Inr (splice1 (splice1
                  (newStops @ [mergeWith (newStops ! loIndex) (newStops ! hiIndex)])
                  (int loIndex)) (int hiIndex - 1))
      else Inl TypeError)"

text \<open>\<^verbatim>\<open>merge\<close>, lines 511-547, and \<^verbatim>\<open>mergeTop\<close>, lines 493-499.\<close>

definition merge ::
  "('s \<Rightarrow> 's \<Rightarrow> 's) \<Rightarrow> nat \<Rightarrow> nat \<Rightarrow> cell list list \<times> 's list \<Rightarrow> error + cell list list \<times> 's list" where
  "merge mergeWith loIndex hiIndex st =
     (case st of (newGraph, newStops) \<Rightarrow>
        thenE (mergeStops mergeWith loIndex hiIndex newStops) (\<lambda>newStops'.
        thenE (mergeRows loIndex hiIndex newGraph) (\<lambda>newGraph'.
        Inr (newGraph', newStops'))))"

definition mergeTop ::
  "('s \<Rightarrow> 's \<Rightarrow> 's) \<Rightarrow> nat \<Rightarrow> nat \<Rightarrow> cell list list \<times> 's list \<Rightarrow> error + cell list list \<times> 's list" where
  "mergeTop mergeWith indexA indexB st =
     (if indexA < indexB then merge mergeWith indexA indexB st
      else merge mergeWith indexB indexA st)"

text \<open>
  The loop of lines 446-453 over the nodes still to try: the state is \<^verbatim>\<open>seenNodes\<close> and
  \<^verbatim>\<open>nodeGroupings\<close>.
\<close>

fun groupNodes ::
  "'s graph \<Rightarrow> nat list \<Rightarrow> nat list \<times> nat list list \<Rightarrow> (nat list \<times> nat list list) option" where
  "groupNodes transferGraph [] acc = Some acc"
| "groupNodes transferGraph (node # nodes) (seenNodes, nodeGroupings) =
     (if node \<notin> set seenNodes
      then (case dfs transferGraph node of
              None \<Rightarrow> None
            | Some tr \<Rightarrow>
                groupNodes transferGraph nodes
                  (seenNodes @ visitedNodes tr, nodeGroupings @ [visitedNodes tr]))
      else groupNodes transferGraph nodes (seenNodes, nodeGroupings))"

text \<open>
  The loops of lines 475-482, which read the merged rows back into an edge list.  A cell that
  is \<^verbatim>\<open>null\<close> or \<^verbatim>\<open>undefined\<close> differs from \<^verbatim>\<open>0\<close>, and reading its type raises a
  \<^verbatim>\<open>TypeError\<close>.
\<close>

fun edgesOfRow :: "nat \<Rightarrow> cell list \<Rightarrow> nat list \<Rightarrow> edge list \<Rightarrow> error + edge list" where
  "edgesOfRow i row [] newEdgeList = Inr newEdgeList"
| "edgesOfRow i row (j # js) newEdgeList =
     (case cellGet row j of
        Zero \<Rightarrow> edgesOfRow i row js newEdgeList
      | Rel t w \<Rightarrow>
          edgesOfRow i row js
            (newEdgeList @ [\<lparr>etype = t, origin = i, destination = j, weight = w\<rparr>])
      | _ \<Rightarrow> Inl TypeError)"

fun edgesOfRows :: "cell list list \<Rightarrow> nat list \<Rightarrow> edge list \<Rightarrow> error + edge list" where
  "edgesOfRows newGraph [] newEdgeList = Inr newEdgeList"
| "edgesOfRows newGraph (i # ixs) newEdgeList =
     thenE (edgesOfRow i (newGraph ! i) [0..<i] newEdgeList) (\<lambda>es.
     edgesOfRows newGraph ixs es)"

text \<open>
  One turn of the \<^verbatim>\<open>while\<close> loop, lines 437-484.  \<open>None\<close> is passed on from \<open>dfs\<close>.  An empty
  \<^verbatim>\<open>nodesToMerge\<close> raises a \<^verbatim>\<open>TypeError\<close> at \<^verbatim>\<open>nodesToMerge[0][0]\<close>; every member of
  \<^verbatim>\<open>nodesToMerge\<close> has two elements at least.  With \<^verbatim>\<open>numNodes = 0\<close> the transfer graph has no
  row and \<^verbatim>\<open>nodesToMerge\<close> is empty, so that \<^verbatim>\<open>numNodes - 1\<close> is never computed at zero.
\<close>

definition mergeStep :: "('s \<Rightarrow> 's \<Rightarrow> 's) \<Rightarrow> 's graph \<Rightarrow> (error + 's graph) option" where
  "mergeStep mergeWith g =
     (let transferGraph = TransitGraph (getTransferEdges g) (numNodes g) (stops g)
      in case groupNodes transferGraph [0..<length (G transferGraph)] ([], []) of
           None \<Rightarrow> None
         | Some (seenNodes, nodeGroupings) \<Rightarrow>
             Some (case filter (\<lambda>e. length e > 1) nodeGroupings of
                     [] \<Rightarrow> Inl TypeError
                   | firstGroup # _ \<Rightarrow>
                       thenE (mergeTop mergeWith (firstGroup ! 0) (firstGroup ! 1) (G g, stops g))
                         (\<lambda>(newGraph, newStops).
                       thenE (edgesOfRows newGraph [0..<length newGraph] []) (\<lambda>newEdgeList.
                       Inr (TransitGraph newEdgeList (numNodes g - 1) newStops)))))"

lemma foldl_storeEdge_Nil: "foldl storeEdge [] es = []"
  by (induction es) (simp_all add: storeEdge_def Let_def)

lemma mergeStep_numNodes:
  assumes "mergeStep mergeWith g = Some (Inr g')"
  shows "numNodes g' < numNodes g"
proof (cases "numNodes g = 0")
  case True
  then have "mergeStep mergeWith g = Some (Inl TypeError)"
    by (simp add: mergeStep_def TransitGraph_def emptyMatrix_def foldl_storeEdge_Nil)
  with assms show ?thesis by simp
next
  case False
  from assms have "numNodes g' = numNodes g - 1"
    by (auto simp: mergeStep_def Let_def thenE_def TransitGraph_def
             split: option.splits list.splits sum.splits prod.splits)
  with False show ?thesis by simp
qed

text \<open>The \<^verbatim>\<open>while\<close> loop of lines 435-485 and the \<^verbatim>\<open>return graph\<close> of line 487.\<close>

function mergeLoop :: "('s \<Rightarrow> 's \<Rightarrow> 's) \<Rightarrow> 's graph \<Rightarrow> (error + 's graph) option" where
  "mergeLoop mergeWith g =
     (if length (getTransferEdges g) > 0
      then (case mergeStep mergeWith g of
              None \<Rightarrow> None
            | Some (Inl e) \<Rightarrow> Some (Inl e)
            | Some (Inr g') \<Rightarrow> mergeLoop mergeWith g')
      else Some (Inr g))"
  by pat_completeness auto
termination
  by (relation "measure (\<lambda>(mergeWith, g). numNodes g)") (auto dest: mergeStep_numNodes)

text \<open>
  \<^verbatim>\<open>mergeTransferNodes\<close>, lines 429-487.  The function returns \<^verbatim>\<open>undefined\<close> or a graph, or
  raises.
\<close>

datatype 's merged = NothingToMerge | Merged "'s graph"

definition mergeTransferNodes :: "('s \<Rightarrow> 's \<Rightarrow> 's) \<Rightarrow> 's graph \<Rightarrow> (error + 's merged) option" where
  "mergeTransferNodes mergeWith g =
     (if length (getTransferEdges g) = 0 then Some (Inr NothingToMerge)
      else (case mergeLoop mergeWith g of
              None \<Rightarrow> None
            | Some (Inl e) \<Rightarrow> Some (Inl e)
            | Some (Inr g') \<Rightarrow> Some (Inr (Merged g'))))"

section \<open>Graphs used as examples\<close>

definition routeEdge :: "nat \<Rightarrow> nat \<Rightarrow> rat \<Rightarrow> edge" where
  "routeEdge a b w = \<lparr>etype = Route, origin = a, destination = b, weight = w\<rparr>"

definition transferEdge :: "nat \<Rightarrow> nat \<Rightarrow> rat \<Rightarrow> edge" where
  "transferEdge a b w = \<lparr>etype = Transfer, origin = a, destination = b, weight = w\<rparr>"

text \<open>The three stops of the spec's scenario: a route edge 0-1 of weight 5 and a transfer edge 1-2 of weight 1.\<close>

definition threeStops :: "string graph" where
  "threeStops = TransitGraph [routeEdge 0 1 5, transferEdge 1 2 1] 3 [''s0'', ''s1'', ''s2'']"

text \<open>Two stops joined by one route edge.\<close>

definition twoStops :: "string graph" where
  "twoStops = TransitGraph [routeEdge 0 1 5] 2 [''s0'', ''s1'']"

text \<open>Three stops, the third without any edge.\<close>

definition lonelyStop :: "string graph" where
  "lonelyStop = TransitGraph [routeEdge 0 1 5] 3 [''s0'', ''s1'', ''s2'']"

section \<open>Properties of breadth-first search\<close>

lemma bfsScan_eq:
  "distinct ixs \<Longrightarrow>
   bfsScan g node ixs (Q, D, tr) =
     (Q @ filter (\<lambda>i. edgeExists g node i \<and> \<not> marked D i) ixs,
      fold (\<lambda>i D. mark D i) (filter (\<lambda>i. edgeExists g node i \<and> \<not> marked D i) ixs) D,
      tr @ concat (map (\<lambda>i. [Visit (createEdge g node i), VisitNode node])
                       (filter (\<lambda>i. edgeExists g node i \<and> \<not> marked D i) ixs)))"
proof (induction ixs arbitrary: Q D tr)
  case Nil
  then show ?case by simp
next
  case (Cons i ixs)
  have f: "filter (\<lambda>j. edgeExists g node j \<and> \<not> marked (mark D i) j) ixs
         = filter (\<lambda>j. edgeExists g node j \<and> \<not> marked D j) ixs"
    using Cons.prems by (intro filter_cong) (auto simp: marked_mark)
  show ?case
    using Cons.prems by (simp add: Cons.IH f)
qed

lemma marked_fold_mark: "marked (fold (\<lambda>i D. mark D i) xs D) j = (marked D j \<or> j \<in> set xs)"
  by (induction xs arbitrary: D) (auto simp: marked_mark)

lemma visitedNodes_append: "visitedNodes (a @ b) = visitedNodes a @ visitedNodes b"
  by (induction a rule: visitedNodes.induct) auto

definition discoveryEvents :: "'s graph \<Rightarrow> (nat \<times> nat) list \<Rightarrow> event list" where
  "discoveryEvents g ds = concat (map (\<lambda>(u, i). [Visit (createEdge g u i), VisitNode u]) ds)"

lemma visitedNodes_discoveryEvents: "visitedNodes (discoveryEvents g ds) = map fst ds"
  by (induction ds) (auto simp: discoveryEvents_def)

lemma bfsLoop_shape:
  "bfsLoop g (Q, D, tr) = (Q', D', tr') \<Longrightarrow>
   \<exists>ds. tr' = tr @ discoveryEvents g ds
        \<and> (\<forall>(u, i) \<in> set ds. edgeExists g u i \<and> \<not> marked D i)
        \<and> distinct (map snd ds)"
proof (induction g "(Q, D, tr)" arbitrary: Q D tr rule: bfsLoop.induct)
  case (1 g D tr)
  then show ?case by (auto simp: discoveryEvents_def intro: exI[of _ "[]"])
next
  case (2 g node Q D tr)
  let ?disc = "filter (\<lambda>i. edgeExists g node i \<and> \<not> marked D i) [0..<length (G g)]"
  let ?D1 = "fold (\<lambda>i D. mark D i) ?disc D"
  let ?tr1 = "tr @ discoveryEvents g (map (Pair node) ?disc)"
  have sc: "bfsScan g node [0..<length (G g)] (Q, D, tr) = (Q @ ?disc, ?D1, ?tr1)"
    using bfsScan_eq[of "[0..<length (G g)]" g node Q D tr]
    by (simp add: discoveryEvents_def comp_def)
  from "2.prems" have "bfsLoop g (Q @ ?disc, ?D1, ?tr1) = (Q', D', tr')"
    by (simp add: sc)
  from "2.hyps"[OF sc this] obtain ds where
    ds: "tr' = ?tr1 @ discoveryEvents g ds"
        "\<forall>(u, i) \<in> set ds. edgeExists g u i \<and> \<not> marked ?D1 i"
        "distinct (map snd ds)" by blast
  let ?all = "map (Pair node) ?disc @ ds"
  have "tr' = tr @ discoveryEvents g ?all"
    using ds(1) by (simp add: discoveryEvents_def)
  moreover have "\<forall>(u, i) \<in> set ?all. edgeExists g u i \<and> \<not> marked D i"
    using ds(2) by (auto simp: marked_fold_mark)
  moreover have "distinct (map snd ?all)"
    using ds(2,3) by (auto simp: marked_fold_mark comp_def distinct_map_filter)
  ultimately show ?case by blast
qed

text \<open>
  C6.  Scanning a dequeued node \<open>node\<close> appends, for each neighbour \<open>i\<close> that is not yet marked
  and in increasing order, the event \<^verbatim>\<open>visit\<close> of the edge from \<open>node\<close> to \<open>i\<close> followed by the
  event \<^verbatim>\<open>visitNode\<close> of \<open>node\<close> itself, not of \<open>i\<close>.  The log of a whole traversal from \<open>s\<close> is
  the \<^verbatim>\<open>visitNode\<close> of \<open>s\<close>, then such pairs for the discoveries \<open>(u, i)\<close>, each neighbour
  discovered once, then the summary.
\<close>

theorem bfs_visitNode_reports_scanned_node:
  "bfsScan g node [0..<length (G g)] (Q, D, tr) =
     (Q @ filter (\<lambda>i. edgeExists g node i \<and> \<not> marked D i) [0..<length (G g)],
      fold (\<lambda>i D. mark D i)
        (filter (\<lambda>i. edgeExists g node i \<and> \<not> marked D i) [0..<length (G g)]) D,
      tr @ concat (map (\<lambda>i. [Visit (createEdge g node i), VisitNode node])
                       (filter (\<lambda>i. edgeExists g node i \<and> \<not> marked D i) [0..<length (G g)])))
   \<and> (\<exists>ds. bfs g s =
              VisitNode s # concat (map (\<lambda>(u, i). [Visit (createEdge g u i), VisitNode u]) ds)
                @ [Summary (StationsVisited (Suc (length ds)))]
           \<and> (\<forall>(u, i) \<in> set ds. edgeExists g u i) \<and> distinct (s # map snd ds))"
proof
  show "bfsScan g node [0..<length (G g)] (Q, D, tr) =
     (Q @ filter (\<lambda>i. edgeExists g node i \<and> \<not> marked D i) [0..<length (G g)],
      fold (\<lambda>i D. mark D i)
        (filter (\<lambda>i. edgeExists g node i \<and> \<not> marked D i) [0..<length (G g)]) D,
      tr @ concat (map (\<lambda>i. [Visit (createEdge g node i), VisitNode node])
                       (filter (\<lambda>i. edgeExists g node i \<and> \<not> marked D i) [0..<length (G g)])))"
    by (rule bfsScan_eq) simp
next
  let ?D0 = "mark (replicate (numNodes g) False) s"
  obtain Q' D' tr' where r: "bfsLoop g ([s], ?D0, [VisitNode s]) = (Q', D', tr')"
    by (cases "bfsLoop g ([s], ?D0, [VisitNode s])") auto
  from bfsLoop_shape[OF r] obtain ds where
    ds: "tr' = [VisitNode s] @ discoveryEvents g ds"
        "\<forall>(u, i) \<in> set ds. edgeExists g u i \<and> \<not> marked ?D0 i"
        "distinct (map snd ds)" by blast
  have "bfs g s = VisitNode s # discoveryEvents g ds @ [Summary (StationsVisited (Suc (length ds)))]"
    unfolding bfs_def r
    by (simp add: ds(1) visitedNodes_append visitedNodes_discoveryEvents)
  moreover have "s \<notin> snd ` set ds"
    using ds(2) by (auto simp: marked_mark)
  ultimately show "\<exists>ds. bfs g s =
              VisitNode s # concat (map (\<lambda>(u, i). [Visit (createEdge g u i), VisitNode u]) ds)
                @ [Summary (StationsVisited (Suc (length ds)))]
           \<and> (\<forall>(u, i) \<in> set ds. edgeExists g u i) \<and> distinct (s # map snd ds)"
    using ds(2,3) unfolding discoveryEvents_def by (intro exI[of _ ds]) auto
qed

theorem bfs_visitNode_reports_scanned_node_witness:
  "bfs threeStops 0 =
     [VisitNode 0,
      Visit (Some \<lparr>etype = Route, origin = 0, destination = 1, weight = 5\<rparr>), VisitNode 0,
      Visit (Some \<lparr>etype = Transfer, origin = 1, destination = 2, weight = 1\<rparr>), VisitNode 1,
      Summary (StationsVisited 3)]
   \<and> (\<exists>ds. bfs threeStops 0 =
              VisitNode 0 # concat (map (\<lambda>(u, i). [Visit (createEdge threeStops u i), VisitNode u]) ds)
                @ [Summary (StationsVisited (Suc (length ds)))]
           \<and> (\<forall>(u, i) \<in> set ds. edgeExists threeStops u i) \<and> distinct (0 # map snd ds))"
proof
  show "bfs threeStops 0 =
     [VisitNode 0,
      Visit (Some \<lparr>etype = Route, origin = 0, destination = 1, weight = 5\<rparr>), VisitNode 0,
      Visit (Some \<lparr>etype = Transfer, origin = 1, destination = 2, weight = 1\<rparr>), VisitNode 1,
      Summary (StationsVisited 3)]"
    by code_simp
next
  show "\<exists>ds. bfs threeStops 0 =
              VisitNode 0 # concat (map (\<lambda>(u, i). [Visit (createEdge threeStops u i), VisitNode u]) ds)
                @ [Summary (StationsVisited (Suc (length ds)))]
           \<and> (\<forall>(u, i) \<in> set ds. edgeExists threeStops u i) \<and> distinct (0 # map snd ds)"
    using bfs_visitNode_reports_scanned_node[of threeStops 0 "[]" "[]" "[]" 0] by blast
qed

section \<open>Properties of depth-first search\<close>

text \<open>
  C7.  On two stops joined by one edge, a connected graph with \<open>N = 2\<close>, the traversal from
  node 0 enters node 1 with \<^verbatim>\<open>parent = 0\<close>, which the tests of lines 299 and 308 take as false:
  the traverser receives no \<^verbatim>\<open>visit\<close> and no \<^verbatim>\<open>leave\<close> event, where the claim has \<open>N - 1 = 1\<close> of
  each.
\<close>

theorem dfs_from_node_0_reports_no_edge:
  "dfs twoStops 0 = Some [VisitNode 0, VisitNode 1, Summary (StationsVisited 2)]"
  by code_simp

text \<open>The depth bound of \<open>dfs\<close> is never used up: the traversal returns on every graph.\<close>

lemma unmarked_mono:
  assumes "\<And>i. marked D i \<Longrightarrow> marked D' i"
  shows "unmarked n D' \<le> unmarked n D"
  unfolding unmarked_def
  by (rule card_mono) (use assms in auto)

lemma dfsNeighbours_enough:
  assumes E: "\<And>node parent D tr. unmarked (numNodes g) (mark D node) < fuel \<Longrightarrow>
                \<exists>D' tr'. dfsExplore fuel g node parent (D, tr) = Some (D', tr')
                         \<and> (\<forall>i. marked (mark D node) i \<longrightarrow> marked D' i)"
  shows "set ixs \<subseteq> {..<numNodes g} \<Longrightarrow> unmarked (numNodes g) D \<le> fuel \<Longrightarrow>
         \<exists>D' tr'. dfsNeighbours fuel g node ixs (D, tr) = Some (D', tr')
                  \<and> (\<forall>i. marked D i \<longrightarrow> marked D' i)"
proof (induction ixs arbitrary: D tr)
  case Nil
  then show ?case by simp
next
  case (Cons i ixs)
  have sub: "set ixs \<subseteq> {..<numNodes g}" and i: "i < numNodes g" using Cons.prems(1) by simp_all
  show ?case
  proof (cases "edgeExists g node i \<and> \<not> marked D i")
    case False
    then show ?thesis using Cons.IH[OF sub Cons.prems(2), of tr] by auto
  next
    case True
    then have "Suc (unmarked (numNodes g) (mark D i)) = unmarked (numNodes g) D"
      using i by (intro unmarked_mark) simp_all
    then have "unmarked (numNodes g) (mark D i) < fuel" using Cons.prems(2) by linarith
    from E[OF this, of "Some node" tr] obtain D1 tr1 where
      e: "dfsExplore fuel g i (Some node) (D, tr) = Some (D1, tr1)"
      and m1: "\<forall>j. marked (mark D i) j \<longrightarrow> marked D1 j" by blast
    have m: "\<And>j. marked D j \<Longrightarrow> marked D1 j" using m1 by (simp add: marked_mark)
    have "unmarked (numNodes g) D1 \<le> fuel"
      using unmarked_mono[of D D1 "numNodes g"] m Cons.prems(2) by simp
    from Cons.IH[OF sub this, of tr1] obtain D' tr' where
      n: "dfsNeighbours fuel g node ixs (D1, tr1) = Some (D', tr')"
      and m2: "\<forall>j. marked D1 j \<longrightarrow> marked D' j" by blast
    have "dfsNeighbours fuel g node (i # ixs) (D, tr) = Some (D', tr')"
      using True e n by simp
    then show ?thesis using m m2 by blast
  qed
qed

lemma dfsExplore_enough:
  "unmarked (numNodes g) (mark D node) < fuel \<Longrightarrow>
   \<exists>D' tr'. dfsExplore fuel g node parent (D, tr) = Some (D', tr')
            \<and> (\<forall>i. marked (mark D node) i \<longrightarrow> marked D' i)"
proof (induction fuel arbitrary: node parent D tr)
  case 0
  then show ?case by simp
next
  case (Suc fuel)
  let ?tr1 = "(if truthy parent then tr @ [Visit (createEdge g (the parent) node)] else tr)
                @ [VisitNode node]"
  have "unmarked (numNodes g) (mark D node) \<le> fuel" using Suc.prems by simp
  moreover have "set [0..<numNodes g] \<subseteq> {..<numNodes g}" by auto
  ultimately obtain D' tr' where
    n: "dfsNeighbours fuel g node [0..<numNodes g] (mark D node, ?tr1) = Some (D', tr')"
    and m: "\<forall>i. marked (mark D node) i \<longrightarrow> marked D' i"
    using dfsNeighbours_enough[of g fuel "[0..<numNodes g]" "mark D node" node ?tr1] Suc.IH
    by blast
  have "dfsExplore (Suc fuel) g node parent (D, tr)
          = Some (D', if truthy parent then tr' @ [Leave (createEdge g node (the parent))] else tr')"
    using n by simp
  then show ?case using m by blast
qed

lemma unmarked_le: "unmarked n D \<le> n"
proof -
  have "card {i. i < n \<and> \<not> marked D i} \<le> card {..<n}"
    by (rule card_mono) auto
  then show ?thesis by (simp add: unmarked_def)
qed

lemma dfs_returns: "\<exists>tr. dfs g node = Some tr"
proof -
  let ?D0 = "replicate (numNodes g) False"
  have "unmarked (numNodes g) (mark ?D0 node) < Suc (numNodes g)"
    using unmarked_le[of "numNodes g" "mark ?D0 node"] by simp
  from dfsExplore_enough[OF this, of None "[]"] obtain D' tr' where
    "dfsExplore (Suc (numNodes g)) g node None (?D0, []) = Some (D', tr')" by blast
  then show ?thesis unfolding dfs_def by simp
qed

section \<open>Properties of page rank\<close>










lemma countRow_eq: "countRow g i js c = c + length (filter (edgeExists g i) js)"
  by (induction js arbitrary: c) auto

lemma length_countOutgoingEdges: "length (countOutgoingEdges g) = glength g"
  by (simp add: countOutgoingEdges_def)

lemma countOutgoingEdges_nth:
  "i < glength g \<Longrightarrow> countOutgoingEdges g ! i = length (filter (edgeExists g i) [0..<glength g])"
  by (simp add: countOutgoingEdges_def countRow_eq)

lemma length_incomingRow: "length (incomingRow g i js inc) = length inc"
  by (induction js arbitrary: inc) auto

lemma incomingRow_nth:
  "distinct js \<Longrightarrow> j < length inc \<Longrightarrow>
   incomingRow g i js inc ! j = inc ! j @ (if j \<in> set js \<and> edgeExists g i j then [i] else [])"
proof (induction js arbitrary: inc)
  case Nil
  then show ?case by simp
next
  case (Cons k js)
  show ?case
  proof (cases "edgeExists g i k")
    case True
    have "incomingRow g i js (inc[k := inc ! k @ [i]]) ! j
            = (inc[k := inc ! k @ [i]]) ! j @ (if j \<in> set js \<and> edgeExists g i j then [i] else [])"
      using Cons.prems by (intro Cons.IH) auto
    then show ?thesis
      using True Cons.prems by (cases "k = j") (auto simp: nth_list_update)
  next
    case False
    then show ?thesis using Cons by auto
  qed
qed

lemma length_incomingRows: "length (incomingRows g ixs inc) = length inc"
  by (induction ixs arbitrary: inc) (auto simp: length_incomingRow)

lemma incomingRows_nth:
  "j < length inc \<Longrightarrow> length inc = glength g \<Longrightarrow>
   incomingRows g ixs inc ! j = inc ! j @ filter (\<lambda>i. edgeExists g i j) ixs"
proof (induction ixs arbitrary: inc)
  case Nil
  then show ?case by simp
next
  case (Cons i ixs)
  then show ?case by (simp add: length_incomingRow incomingRow_nth)
qed

lemma countIncomingEdges_nth:
  "j < glength g \<Longrightarrow> countIncomingEdges g ! j = filter (\<lambda>i. edgeExists g i j) [0..<glength g]"
  by (simp add: countIncomingEdges_def incomingRows_nth)

lemma incoming_has_outgoing:
  assumes "node < glength g" "incoming \<in> set (countIncomingEdges g ! node)"
  shows "incoming < glength g \<and> 1 \<le> countOutgoingEdges g ! incoming"
proof -
  from assms have i: "incoming < glength g" "edgeExists g incoming node"
    by (auto simp: countIncomingEdges_nth)
  then have "node \<in> set (filter (edgeExists g incoming) [0..<glength g])"
    using assms(1) by simp
  then have "0 < length (filter (edgeExists g incoming) [0..<glength g])"
    by (metis length_pos_if_in_set)
  then have "1 \<le> length (filter (edgeExists g incoming) [0..<glength g])"
    by linarith
  with i show ?thesis by (simp only: countOutgoingEdges_nth simp_thms)
qed

definition finite_ranks :: "'s graph \<Rightarrow> num list \<Rightarrow> bool" where
  "finite_ranks g ranks = (length ranks = glength g \<and> None \<notin> set ranks)"

lemma inNodeSum_finite:
  assumes "\<forall>i \<in> set inc. (\<exists>x. rankAt ranks i = Some x) \<and> (\<exists>c. countAt counts i = Some c \<and> c \<noteq> 0)"
  shows "\<exists>y. inNodeSum counts ranks inc (Some s) = Some y"
  using assms
proof (induction inc arbitrary: s)
  case Nil
  then show ?case by simp
next
  case (Cons i inc)
  then obtain x c where "rankAt ranks i = Some x" "countAt counts i = Some c" "c \<noteq> 0" by auto
  then have "num_add (Some s) (num_div (rankAt ranks i) (countAt counts i)) = Some (s + x / of_nat c)"
    by (simp add: num_add_def num_div_def)
  with Cons show ?case by simp
qed

lemma updateRank_finite:
  assumes "finite_ranks g ranks" "node < glength g"
  shows "\<exists>y. updateRank g ranks node = Some y"
proof -
  have "\<forall>i \<in> set (countIncomingEdges g ! node).
          (\<exists>x. rankAt ranks i = Some x) \<and> (\<exists>c. countAt (countOutgoingEdges g) i = Some c \<and> c \<noteq> 0)"
  proof
    fix i assume "i \<in> set (countIncomingEdges g ! node)"
    from incoming_has_outgoing[OF assms(2) this]
    have i: "i < glength g" "1 \<le> countOutgoingEdges g ! i" by auto
    have "ranks ! i \<in> set ranks" using i(1) assms(1) by (simp add: finite_ranks_def)
    moreover have "None \<notin> set ranks" using assms(1) by (simp add: finite_ranks_def)
    ultimately have "ranks ! i \<noteq> None" by metis
    then obtain x where "ranks ! i = Some x" by blast
    then show "(\<exists>x. rankAt ranks i = Some x) \<and> (\<exists>c. countAt (countOutgoingEdges g) i = Some c \<and> c \<noteq> 0)"
      using i assms(1)
      by (auto simp: rankAt_def countAt_def finite_ranks_def length_countOutgoingEdges)
  qed
  from inNodeSum_finite[OF this, of 0] obtain y where
    "inNodeSum (countOutgoingEdges g) ranks (countIncomingEdges g ! node) (Some 0) = Some y" by blast
  then show ?thesis
    using assms(2) by (simp add: updateRank_def num_add_def num_mul_def num_div_def)
qed

lemma sweep_finite:
  "finite_ranks g ranks \<Longrightarrow> set nodes \<subseteq> {..<glength g} \<Longrightarrow> finite_ranks g (sweep g nodes ranks)"
proof (induction nodes arbitrary: ranks)
  case Nil
  then show ?case by simp
next
  case (Cons node nodes)
  then obtain y where y: "updateRank g ranks node = Some y"
    using updateRank_finite[of g ranks node] by auto
  have "finite_ranks g (ranks[node := Some y])"
    using Cons.prems(1) by (auto simp: finite_ranks_def dest: set_update_subset_insert[THEN subsetD])
  with Cons show ?case by (simp add: y)
qed

lemma rankIterations_finite:
  "finite_ranks g ranks \<Longrightarrow> finite_ranks g (rankIterations g k ranks)"
proof (induction k arbitrary: ranks)
  case 0
  then show ?case by simp
next
  case (Suc k)
  have "finite_ranks g (sweep g [0..<glength g] ranks)"
    using Suc.prems by (intro sweep_finite) auto
  then show ?case by (simp add: Suc.IH)
qed

lemma finalRanks_finite: "finite_ranks g (finalRanks g)"
  unfolding finalRanks_def
  by (rule rankIterations_finite) (simp add: finite_ranks_def)

text \<open>
  C10.  A node enters an \<^verbatim>\<open>incomingNodes\<close> list only through an edge that \<^verbatim>\<open>edgeExists\<close>
  reports, and then its entry in \<^verbatim>\<open>outgoingEdgeCounts\<close> is a count of at least 1: no division
  of \<^verbatim>\<open>updateRank\<close> has a zero or missing divisor.  The final ranks are one finite number per
  node, none of them \<^verbatim>\<open>NaN\<close> or infinite.  A node without any edge has an empty incoming list
  and gets the rank 0.
\<close>

theorem pageRank_divides_by_positive_counts:
  "(\<forall>node < glength g. \<forall>incoming \<in> set (countIncomingEdges g ! node).
      edgeExists g incoming node
      \<and> (\<exists>c. countAt (countOutgoingEdges g) incoming = Some c \<and> 1 \<le> c))
   \<and> length (finalRanks g) = glength g \<and> None \<notin> set (finalRanks g)
   \<and> (\<forall>node < glength g. (\<forall>i < glength g. \<not> edgeExists g i node) \<longrightarrow>
        countIncomingEdges g ! node = [] \<and> updateRank g ranks node = Some 0)"
proof (intro conjI allI impI ballI)
  fix node incoming
  assume a: "node < glength g" "incoming \<in> set (countIncomingEdges g ! node)"
  then show "edgeExists g incoming node" by (simp add: countIncomingEdges_nth)
  from incoming_has_outgoing[OF a]
  show "\<exists>c. countAt (countOutgoingEdges g) incoming = Some c \<and> 1 \<le> c"
    by (simp add: countAt_def length_countOutgoingEdges)
next
  show "length (finalRanks g) = glength g" "None \<notin> set (finalRanks g)"
    using finalRanks_finite[of g] by (simp_all add: finite_ranks_def)
next
  fix node
  assume a: "node < glength g" "\<forall>i < glength g. \<not> edgeExists g i node"
  then show e: "countIncomingEdges g ! node = []"
    by (simp add: countIncomingEdges_nth)
  show "updateRank g ranks node = Some 0"
    using a(1) by (simp add: updateRank_def e num_add_def num_mul_def num_div_def damping_def)
qed

theorem pageRank_divides_by_positive_counts_witness:
  "(\<exists>c. countAt (countOutgoingEdges threeStops) 0 = Some c \<and> 1 \<le> c)
   \<and> None \<notin> set (finalRanks threeStops)
   \<and> updateRank lonelyStop [Some 1, Some 1, Some 1] 2 = Some 0"
proof -
  have a: "(1::nat) < glength threeStops" by code_simp
  have b: "0 \<in> set (countIncomingEdges threeStops ! 1)" by code_simp
  have c: "(2::nat) < glength lonelyStop" by code_simp
  have n: "glength lonelyStop = Suc (Suc (Suc 0))" by code_simp
  have e: "\<not> edgeExists lonelyStop 0 2" "\<not> edgeExists lonelyStop 1 2" "\<not> edgeExists lonelyStop 2 2"
    by code_simp+
  have d: "\<forall>i < glength lonelyStop. \<not> edgeExists lonelyStop i 2"
    unfolding n using e by (auto simp: less_Suc_eq numeral_2_eq_2)
  have "\<exists>c. countAt (countOutgoingEdges threeStops) 0 = Some c \<and> 1 \<le> c"
    using pageRank_divides_by_positive_counts[of threeStops "[]"] a b by blast
  moreover have "None \<notin> set (finalRanks threeStops)"
    using pageRank_divides_by_positive_counts[of threeStops "[]"] by blast
  moreover have "updateRank lonelyStop [Some 1, Some 1, Some 1] 2 = Some 0"
    using pageRank_divides_by_positive_counts[of lonelyStop "[Some 1, Some 1, Some 1]"] c d
    by blast
  ultimately show ?thesis by blast
qed

section \<open>Properties of merging\<close>

text \<open>
  On a graph without transfer edges \<^verbatim>\<open>mergeTransferNodes\<close> returns \<^verbatim>\<open>undefined\<close>: it does not
  raise and returns no graph.
\<close>

lemma mergeTransferNodes_nothing_to_merge:
  "getTransferEdges g = [] \<Longrightarrow> mergeTransferNodes mergeWith g = Some (Inr NothingToMerge)"
  by (simp add: mergeTransferNodes_def)

subsection \<open>The matrix surgery of one merge\<close>

text \<open>A cell of a constructed graph: no edge or an edge, never \<^verbatim>\<open>null\<close> or \<^verbatim>\<open>undefined\<close>.\<close>

definition edgeCell :: "cell \<Rightarrow> bool" where
  "edgeCell c = (case c of Zero \<Rightarrow> True | Rel t w \<Rightarrow> True | _ \<Rightarrow> False)"

definition isTransfer :: "cell \<Rightarrow> bool" where
  "isTransfer c = (case c of Rel Transfer w \<Rightarrow> True | _ \<Rightarrow> False)"

text \<open>
  The rule of the spec for the unioned relation: absent and absent give absent; otherwise a
  transfer edge on either side gives a transfer edge of weight \<open>-1\<close>; otherwise a route edge
  of weight \<open>-1\<close>.
\<close>

definition unionedRelation :: "cell \<Rightarrow> cell \<Rightarrow> cell" where
  "unionedRelation a b =
     (if a = Zero \<and> b = Zero then Zero
      else if isTransfer a \<or> isTransfer b then Rel Transfer (- 1)
      else Rel Route (- 1))"

text \<open>The lower-triangular layout: row \<open>r\<close> has \<open>r\<close> cells, each no edge or an edge.\<close>

definition triangular :: "cell list list \<Rightarrow> bool" where
  "triangular M = list_all (\<lambda>r. length (M ! r) = r \<and> list_all edgeCell (M ! r)) [0..<length M]"

lemma triangularD:
  "triangular M \<Longrightarrow> r < length M \<Longrightarrow> length (M ! r) = r"
  "triangular M \<Longrightarrow> r < length M \<Longrightarrow> c < r \<Longrightarrow> edgeCell (M ! r ! c)"
  by (auto simp: triangular_def list_all_iff all_set_conv_all_nth)

lemma thenE_simps [simp]: "thenE (Inr x) f = f x" "thenE (Inl e) f = Inl e"
  by (simp_all add: thenE_def)

lemma mergeEdges_edgeCell:
  "edgeCell a \<Longrightarrow> edgeCell b \<Longrightarrow> mergeEdges a b = Inr (unionedRelation a b)"
  by (auto simp: edgeCell_def mergeEdges_def unionedRelation_def typeOf_def isTransfer_def
           split: cell.splits edgeType.splits)

lemma edgeCell_unioned [simp]: "edgeCell (unionedRelation a b)"
  by (simp add: edgeCell_def unionedRelation_def)

lemma edgeCell_Zero [simp]: "edgeCell Zero"
  by (simp add: edgeCell_def)

lemma edgeCell_not_Null: "edgeCell c \<Longrightarrow> c \<noteq> Null"
  by (auto simp: edgeCell_def)

lemma unioned_twice:
  "edgeCell a \<Longrightarrow> edgeCell b \<Longrightarrow> unionedRelation a (unionedRelation b Zero) = unionedRelation a b"
  by (auto simp: edgeCell_def unionedRelation_def isTransfer_def split: cell.splits edgeType.splits)

definition sameShape :: "cell list list \<Rightarrow> cell list list \<Rightarrow> bool" where
  "sameShape M' M = (length M' = length M \<and> (\<forall>r < length M. length (M' ! r) = length (M ! r)))"

definition upd2 :: "cell list list \<Rightarrow> nat \<Rightarrow> nat \<Rightarrow> cell \<Rightarrow> cell list list" where
  "upd2 M r c v = M[r := (M ! r)[c := v]]"

lemma length_upd2 [simp]: "length (upd2 M r c v) = length M"
  by (simp add: upd2_def)

lemma length_upd2_row [simp]: "length (upd2 M r c v ! r') = length (M ! r')"
proof (cases "r < length M")
  case True
  then show ?thesis by (cases "r' = r") (simp_all add: upd2_def)
next
  case False
  then show ?thesis by (simp add: upd2_def list_update_beyond)
qed

lemma upd2_nth:
  "r' < length M \<Longrightarrow> c' < length (M ! r') \<Longrightarrow>
   upd2 M r c v ! r' ! c' = (if r' = r \<and> c' = c then v else M ! r' ! c')"
  by (cases "r' = r"; cases "c' = c") (simp_all add: upd2_def)

lemma sameShape_refl [simp]: "sameShape M M"
  by (simp add: sameShape_def)

lemma sameShape_upd2 [simp]: "sameShape (upd2 M' r c v) M = sameShape M' M"
  by (simp add: sameShape_def)

lemma sameShapeD:
  "sameShape M' M \<Longrightarrow> length M' = length M"
  "sameShape M' M \<Longrightarrow> r < length M \<Longrightarrow> length (M' ! r) = length (M ! r)"
  by (simp_all add: sameShape_def)

lemma getCell_in [simp]: "r < length M \<Longrightarrow> c < length (M ! r) \<Longrightarrow> getCell M r c = Inr (M ! r ! c)"
  by (simp add: getCell_def cellGet_def)

lemma setCell_in [simp]:
  "r < length M \<Longrightarrow> c < length (M ! r) \<Longrightarrow> setCell M r c v = Inr (upd2 M r c v)"
  by (simp add: setCell_def cellSet_def upd2_def)

lemma setCell_end:
  "r < length M \<Longrightarrow> c = length (M ! r) \<Longrightarrow> setCell M r c v = Inr (M[r := M ! r @ [v]])"
  by (simp add: setCell_def cellSet_def)

lemma horizontalOverlap_append:
  "horizontalOverlap lo hi u (xs @ ys) M =
     thenE (horizontalOverlap lo hi u xs M) (horizontalOverlap lo hi u ys)"
  by (induction xs arbitrary: M) (auto simp: thenE_def split: sum.splits)


lemma horizontalOverlap_prefix:
  assumes len: "length M = Suc N" and rows: "\<forall>r < N. length (M ! r) = r"
    and lastrow: "length (M ! N) = N - 1"
    and lohi: "lo < hi" "hi < N"
    and cells: "\<forall>c < lo. edgeCell (M ! lo ! c) \<and> edgeCell (M ! hi ! c)"
    and k: "k \<le> lo"
  shows "\<exists>M'. horizontalOverlap lo hi N [0..<k] M = Inr M' \<and> sameShape M' M
          \<and> (\<forall>r c. r \<le> N \<longrightarrow> c < length (M ! r) \<longrightarrow>
                M' ! r ! c = (if r = N \<and> c < k then unionedRelation (M ! lo ! c) (M ! hi ! c)
                              else if r = lo \<and> c < k then Null else M ! r ! c))"
  using k
proof (induction k)
  case 0
  then show ?case by simp
next
  case (Suc k)
  then obtain M' where M': "horizontalOverlap lo hi N [0..<k] M = Inr M'" "sameShape M' M"
    "\<forall>r c. r \<le> N \<longrightarrow> c < length (M ! r) \<longrightarrow>
        M' ! r ! c = (if r = N \<and> c < k then unionedRelation (M ! lo ! c) (M ! hi ! c)
                      else if r = lo \<and> c < k then Null else M ! r ! c)"
    by auto
  have k: "k < lo" using Suc.prems by simp
  have shape: "length M' = Suc N" "\<And>r. r \<le> N \<Longrightarrow> length (M' ! r) = length (M ! r)"
    using sameShapeD[OF M'(2)] len by simp_all
  have L: "length (M' ! lo) = lo" "length (M' ! hi) = hi" "length (M' ! N) = N - 1"
    using shape(2) rows lastrow lohi by simp_all
  have a: "M' ! lo ! k = M ! lo ! k" "M' ! hi ! k = M ! hi ! k"
    using M'(3) k lohi rows by auto
  let ?m = "unionedRelation (M ! lo ! k) (M ! hi ! k)"
  let ?M2 = "upd2 M' N k ?m"
  let ?M3 = "upd2 ?M2 lo k Null"
  have step: "horizontalOverlap lo hi N [k] M' = Inr ?M3"
    using k lohi L shape a cells by (simp add: mergeEdges_edgeCell)
  have "horizontalOverlap lo hi N [0..<Suc k] M = Inr ?M3"
    by (simp add: horizontalOverlap_append M'(1) step del: horizontalOverlap.simps)
  moreover have "sameShape ?M3 M"
    using M'(2) by simp
  moreover have "\<forall>r c. r \<le> N \<longrightarrow> c < length (M ! r) \<longrightarrow>
        ?M3 ! r ! c = (if r = N \<and> c < Suc k then unionedRelation (M ! lo ! c) (M ! hi ! c)
                      else if r = lo \<and> c < Suc k then Null else M ! r ! c)"
  proof (intro allI impI)
    fix r c assume rc: "r \<le> N" "c < length (M ! r)"
    then have "?M3 ! r ! c = (if r = lo \<and> c = k then Null
                             else if r = N \<and> c = k then ?m else M' ! r ! c)"
      using k lohi L by (simp add: upd2_nth shape)
    also have "M' ! r ! c = (if r = N \<and> c < k then unionedRelation (M ! lo ! c) (M ! hi ! c)
                      else if r = lo \<and> c < k then Null else M ! r ! c)"
      using M'(3) rc by simp
    finally show "?M3 ! r ! c = (if r = N \<and> c < Suc k then unionedRelation (M ! lo ! c) (M ! hi ! c)
                      else if r = lo \<and> c < Suc k then Null else M ! r ! c)"
      using lohi by (auto simp: less_Suc_eq)
  qed
  ultimately show ?case by blast
qed

lemma hiOvershootMerge_append:
  "hiOvershootMerge hi u (xs @ ys) M = thenE (hiOvershootMerge hi u xs M) (hiOvershootMerge hi u ys)"
  by (induction xs arbitrary: M) (auto simp: thenE_def split: sum.splits)

lemma hiOvershootClear_append:
  "hiOvershootClear hi (xs @ ys) M = thenE (hiOvershootClear hi xs M) (hiOvershootClear hi ys)"
  by (induction xs arbitrary: M) (auto simp: thenE_def split: sum.splits)

lemma verticalOverlap_append:
  "verticalOverlap lo hi u (xs @ ys) M = thenE (verticalOverlap lo hi u xs M) (verticalOverlap lo hi u ys)"
  by (induction xs arbitrary: M) (auto simp: thenE_def split: sum.splits)

lemma verticalLoOvershoot_append:
  "verticalLoOvershoot lo u (xs @ ys) M = thenE (verticalLoOvershoot lo u xs M) (verticalLoOvershoot lo u ys)"
  by (induction xs arbitrary: M) (auto simp: thenE_def split: sum.splits)

lemma hiOvershootMerge_prefix:
  assumes len: "length M = Suc N" and rowhi: "length (M ! hi) = hi"
    and lastrow: "length (M ! N) = N - 1"
    and lohi: "lo < hi" "hi < N"
    and cells: "\<forall>c. lo < c \<and> c < hi \<longrightarrow> edgeCell (M ! hi ! c)"
    and k: "k \<le> hi"
  shows "\<exists>M'. hiOvershootMerge hi N [lo + 1..<k] M = Inr M' \<and> sameShape M' M
          \<and> (\<forall>r c. r \<le> N \<longrightarrow> c < length (M ! r) \<longrightarrow>
                M' ! r ! c = (if r = N \<and> lo < c \<and> c < k then unionedRelation (M ! hi ! c) Zero
                              else M ! r ! c))"
  using k
proof (induction k)
  case 0
  then show ?case by simp
next
  case (Suc k)
  show ?case
  proof (cases "lo < k")
    case False
    then have e: "[lo + 1..<Suc k] = []" by simp
    show ?thesis unfolding e using False by auto
  next
    case True
    from Suc obtain M' where M': "hiOvershootMerge hi N [lo + 1..<k] M = Inr M'" "sameShape M' M"
      "\<forall>r c. r \<le> N \<longrightarrow> c < length (M ! r) \<longrightarrow>
          M' ! r ! c = (if r = N \<and> lo < c \<and> c < k then unionedRelation (M ! hi ! c) Zero
                        else M ! r ! c)"
      by auto
    have k: "k < hi" using Suc.prems by simp
    have shape: "length M' = Suc N" "\<And>r. r \<le> N \<Longrightarrow> length (M' ! r) = length (M ! r)"
      using sameShapeD[OF M'(2)] len by simp_all
    have L: "length (M' ! hi) = hi" "length (M' ! N) = N - 1"
      using shape(2) rowhi lastrow lohi by simp_all
    have a: "M' ! hi ! k = M ! hi ! k"
      using M'(3) k lohi rowhi by auto
    let ?m = "unionedRelation (M ! hi ! k) Zero"
    let ?M2 = "upd2 M' N k ?m"
    have step: "hiOvershootMerge hi N [k] M' = Inr ?M2"
      using k lohi L shape a cells True by (simp add: mergeEdges_edgeCell)
    have sp: "[lo + 1..<Suc k] = [lo + 1..<k] @ [k]" using True by simp
    have "hiOvershootMerge hi N [lo + 1..<Suc k] M = Inr ?M2"
      unfolding sp hiOvershootMerge_append M'(1) by (simp only: thenE_simps step)
    moreover have "sameShape ?M2 M"
      using M'(2) by simp
    moreover have "\<forall>r c. r \<le> N \<longrightarrow> c < length (M ! r) \<longrightarrow>
          ?M2 ! r ! c = (if r = N \<and> lo < c \<and> c < Suc k then unionedRelation (M ! hi ! c) Zero
                        else M ! r ! c)"
    proof (intro allI impI)
      fix r c assume rc: "r \<le> N" "c < length (M ! r)"
      then have "?M2 ! r ! c = (if r = N \<and> c = k then ?m else M' ! r ! c)"
        using k lohi L by (simp add: upd2_nth shape)
      also have "M' ! r ! c = (if r = N \<and> lo < c \<and> c < k then unionedRelation (M ! hi ! c) Zero
                        else M ! r ! c)"
        using M'(3) rc by simp
      finally show "?M2 ! r ! c = (if r = N \<and> lo < c \<and> c < Suc k then unionedRelation (M ! hi ! c) Zero
                        else M ! r ! c)"
        using lohi True by (auto simp: less_Suc_eq)
    qed
    ultimately show ?thesis by blast
  qed
qed

lemma hiOvershootClear_prefix:
  assumes len: "length M = Suc N" and rowhi: "length (M ! hi) = hi"
    and lohi: "hi < N"
    and k: "k \<le> hi"
  shows "\<exists>M'. hiOvershootClear hi [0..<k] M = Inr M' \<and> sameShape M' M
          \<and> (\<forall>r c. r \<le> N \<longrightarrow> c < length (M ! r) \<longrightarrow>
                M' ! r ! c = (if r = hi \<and> c < k then Null else M ! r ! c))"
  using k
proof (induction k)
  case 0
  then show ?case by simp
next
  case (Suc k)
  then obtain M' where M': "hiOvershootClear hi [0..<k] M = Inr M'" "sameShape M' M"
    "\<forall>r c. r \<le> N \<longrightarrow> c < length (M ! r) \<longrightarrow>
        M' ! r ! c = (if r = hi \<and> c < k then Null else M ! r ! c)"
    by auto
  have k: "k < hi" using Suc.prems by simp
  have shape: "length M' = Suc N" "\<And>r. r \<le> N \<Longrightarrow> length (M' ! r) = length (M ! r)"
    using sameShapeD[OF M'(2)] len by simp_all
  have L: "length (M' ! hi) = hi"
    using shape(2) rowhi lohi by simp_all
  let ?M2 = "upd2 M' hi k Null"
  have step: "hiOvershootClear hi [k] M' = Inr ?M2"
    using k lohi L shape by simp
  have "hiOvershootClear hi [0..<Suc k] M = Inr ?M2"
    by (simp add: hiOvershootClear_append M'(1) step del: hiOvershootClear.simps)
  moreover have "sameShape ?M2 M"
    using M'(2) by simp
  moreover have "\<forall>r c. r \<le> N \<longrightarrow> c < length (M ! r) \<longrightarrow>
        ?M2 ! r ! c = (if r = hi \<and> c < Suc k then Null else M ! r ! c)"
  proof (intro allI impI)
    fix r c assume rc: "r \<le> N" "c < length (M ! r)"
    then have "?M2 ! r ! c = (if r = hi \<and> c = k then Null else M' ! r ! c)"
      using k lohi L by (simp add: upd2_nth shape)
    also have "M' ! r ! c = (if r = hi \<and> c < k then Null else M ! r ! c)"
      using M'(3) rc by simp
    finally show "?M2 ! r ! c = (if r = hi \<and> c < Suc k then Null else M ! r ! c)"
      by (auto simp: less_Suc_eq)
  qed
  ultimately show ?case by blast
qed

lemma verticalLoOvershoot_prefix:
  assumes len: "length M = Suc N" and rows: "\<forall>r. lo < r \<and> r < hi \<longrightarrow> length (M ! r) = r"
    and lastrow: "hi \<le> length (M ! N)"
    and lohi: "lo < hi" "hi < N"
    and cells: "\<forall>c. lo < c \<and> c < hi \<longrightarrow> edgeCell (M ! c ! lo) \<and> edgeCell (M ! N ! c)"
    and k: "k \<le> hi"
  shows "\<exists>M'. verticalLoOvershoot lo N [lo + 1..<k] M = Inr M' \<and> sameShape M' M
          \<and> (\<forall>r c. r \<le> N \<longrightarrow> c < length (M ! r) \<longrightarrow>
                M' ! r ! c = (if r = N \<and> lo < c \<and> c < k then unionedRelation (M ! c ! lo) (M ! N ! c)
                              else if lo < r \<and> r < k \<and> c = lo then Null
                              else M ! r ! c))"
  using k
proof (induction k)
  case 0
  then show ?case by simp
next
  case (Suc k)
  show ?case
  proof (cases "lo < k")
    case False
    then have e: "[lo + 1..<Suc k] = []" by simp
    show ?thesis unfolding e using False by auto
  next
    case True
    from Suc obtain M' where M': "verticalLoOvershoot lo N [lo + 1..<k] M = Inr M'" "sameShape M' M"
      "\<forall>r c. r \<le> N \<longrightarrow> c < length (M ! r) \<longrightarrow>
          M' ! r ! c = (if r = N \<and> lo < c \<and> c < k then unionedRelation (M ! c ! lo) (M ! N ! c)
                        else if lo < r \<and> r < k \<and> c = lo then Null
                        else M ! r ! c)"
      by auto
    have k: "k < hi" using Suc.prems by simp
    have shape: "length M' = Suc N" "\<And>r. r \<le> N \<Longrightarrow> length (M' ! r) = length (M ! r)"
      using sameShapeD[OF M'(2)] len by simp_all
    have L: "length (M' ! k) = k" "hi \<le> length (M' ! N)"
      using shape(2) rows lastrow lohi True k by simp_all
    have a: "M' ! k ! lo = M ! k ! lo" "M' ! N ! k = M ! N ! k"
      using M'(3) k lohi rows True lastrow by auto
    let ?m = "unionedRelation (M ! k ! lo) (M ! N ! k)"
    let ?M2 = "upd2 M' N k ?m"
    let ?M3 = "upd2 ?M2 k lo Null"
    have step: "verticalLoOvershoot lo N [k] M' = Inr ?M3"
      using k lohi L shape a cells True by (simp add: mergeEdges_edgeCell)
    have sp: "[lo + 1..<Suc k] = [lo + 1..<k] @ [k]" using True by simp
    have "verticalLoOvershoot lo N [lo + 1..<Suc k] M = Inr ?M3"
      unfolding sp verticalLoOvershoot_append M'(1) by (simp only: thenE_simps step)
    moreover have "sameShape ?M3 M"
      using M'(2) by simp
    moreover have "\<forall>r c. r \<le> N \<longrightarrow> c < length (M ! r) \<longrightarrow>
          ?M3 ! r ! c = (if r = N \<and> lo < c \<and> c < Suc k then unionedRelation (M ! c ! lo) (M ! N ! c)
                        else if lo < r \<and> r < Suc k \<and> c = lo then Null
                        else M ! r ! c)"
    proof (intro allI impI)
      fix r c assume rc: "r \<le> N" "c < length (M ! r)"
      then have "?M3 ! r ! c = (if r = k \<and> c = lo then Null
                               else if r = N \<and> c = k then ?m else M' ! r ! c)"
        using k lohi L by (simp add: upd2_nth shape)
      also have "M' ! r ! c = (if r = N \<and> lo < c \<and> c < k then unionedRelation (M ! c ! lo) (M ! N ! c)
                        else if lo < r \<and> r < k \<and> c = lo then Null
                        else M ! r ! c)"
        using M'(3) rc by simp
      finally show "?M3 ! r ! c = (if r = N \<and> lo < c \<and> c < Suc k then unionedRelation (M ! c ! lo) (M ! N ! c)
                        else if lo < r \<and> r < Suc k \<and> c = lo then Null
                        else M ! r ! c)"
        using lohi True k by (auto simp: less_Suc_eq)
    qed
    ultimately show ?thesis by blast
  qed
qed

lemma verticalOverlap_prefix:
  assumes len: "length M = Suc N" and rows: "\<forall>r. hi < r \<and> r < N \<longrightarrow> length (M ! r) = r"
    and lastrow: "length (M ! N) = N - 1"
    and lohi: "lo < hi" "hi < N"
    and cells: "\<forall>r. hi < r \<and> r < N \<longrightarrow> edgeCell (M ! r ! lo) \<and> edgeCell (M ! r ! hi)"
    and k: "k \<le> N - 1"
  shows "\<exists>M'. verticalOverlap lo hi N [hi + 1..<k] M = Inr M' \<and> sameShape M' M
          \<and> (\<forall>r c. r \<le> N \<longrightarrow> c < length (M ! r) \<longrightarrow>
                M' ! r ! c = (if r = N \<and> hi < c \<and> c < k then unionedRelation (M ! c ! lo) (M ! c ! hi)
                              else if hi < r \<and> r < k \<and> (c = lo \<or> c = hi) then Null
                              else M ! r ! c))"
  using k
proof (induction k)
  case 0
  then show ?case by simp
next
  case (Suc k)
  show ?case
  proof (cases "hi < k")
    case False
    then have e: "[hi + 1..<Suc k] = []" by simp
    show ?thesis unfolding e using False by auto
  next
    case True
    from Suc obtain M' where M': "verticalOverlap lo hi N [hi + 1..<k] M = Inr M'" "sameShape M' M"
      "\<forall>r c. r \<le> N \<longrightarrow> c < length (M ! r) \<longrightarrow>
          M' ! r ! c = (if r = N \<and> hi < c \<and> c < k then unionedRelation (M ! c ! lo) (M ! c ! hi)
                        else if hi < r \<and> r < k \<and> (c = lo \<or> c = hi) then Null
                        else M ! r ! c)"
      by auto
    have k: "k < N - 1" "k < N" using Suc.prems by simp_all
    have shape: "length M' = Suc N" "\<And>r. r \<le> N \<Longrightarrow> length (M' ! r) = length (M ! r)"
      using sameShapeD[OF M'(2)] len by simp_all
    have L: "length (M' ! k) = k" "length (M' ! N) = N - 1"
      using shape(2) rows lastrow lohi True k by simp_all
    have a: "M' ! k ! lo = M ! k ! lo" "M' ! k ! hi = M ! k ! hi"
      using M'(3) k lohi rows True by auto
    let ?m = "unionedRelation (M ! k ! lo) (M ! k ! hi)"
    let ?M2 = "upd2 M' N k ?m"
    let ?M3 = "upd2 ?M2 k lo Null"
    let ?M4 = "upd2 ?M3 k hi Null"
    have step: "verticalOverlap lo hi N [k] M' = Inr ?M4"
      using k lohi L shape a cells True by (simp add: mergeEdges_edgeCell)
    have sp: "[hi + 1..<Suc k] = [hi + 1..<k] @ [k]" using True by simp
    have "verticalOverlap lo hi N [hi + 1..<Suc k] M = Inr ?M4"
      unfolding sp verticalOverlap_append M'(1) by (simp only: thenE_simps step)
    moreover have "sameShape ?M4 M"
      using M'(2) by simp
    moreover have "\<forall>r c. r \<le> N \<longrightarrow> c < length (M ! r) \<longrightarrow>
          ?M4 ! r ! c = (if r = N \<and> hi < c \<and> c < Suc k then unionedRelation (M ! c ! lo) (M ! c ! hi)
                        else if hi < r \<and> r < Suc k \<and> (c = lo \<or> c = hi) then Null
                        else M ! r ! c)"
    proof (intro allI impI)
      fix r c assume rc: "r \<le> N" "c < length (M ! r)"
      then have "?M4 ! r ! c = (if r = k \<and> (c = lo \<or> c = hi) then Null
                               else if r = N \<and> c = k then ?m else M' ! r ! c)"
        using k lohi L True by (auto simp: upd2_nth shape)
      also have "M' ! r ! c = (if r = N \<and> hi < c \<and> c < k then unionedRelation (M ! c ! lo) (M ! c ! hi)
                        else if hi < r \<and> r < k \<and> (c = lo \<or> c = hi) then Null
                        else M ! r ! c)"
        using M'(3) rc by simp
      finally show "?M4 ! r ! c = (if r = N \<and> hi < c \<and> c < Suc k then unionedRelation (M ! c ! lo) (M ! c ! hi)
                        else if hi < r \<and> r < Suc k \<and> (c = lo \<or> c = hi) then Null
                        else M ! r ! c)"
        using lohi True k by (auto simp: less_Suc_eq)
    qed
    ultimately show ?thesis by blast
  qed
qed

lemma verticalOverlap_all:
  assumes len: "length M = Suc N" and rows: "\<forall>r. hi < r \<and> r < N \<longrightarrow> length (M ! r) = r"
    and lastrow: "length (M ! N) = N - 1"
    and lohi: "lo < hi" "hi < N"
    and cells: "\<forall>r. hi < r \<and> r < N \<longrightarrow> edgeCell (M ! r ! lo) \<and> edgeCell (M ! r ! hi)"
  shows "\<exists>M'. verticalOverlap lo hi N [hi + 1..<N] M = Inr M' \<and> length M' = Suc N
          \<and> (\<forall>r < N. length (M' ! r) = length (M ! r))
          \<and> length (M' ! N) = (if hi + 1 < N then N else N - 1)
          \<and> (\<forall>r c. r < N \<longrightarrow> c < length (M ! r) \<longrightarrow>
                M' ! r ! c = (if hi < r \<and> (c = lo \<or> c = hi) then Null else M ! r ! c))
          \<and> (\<forall>c. c < (if hi + 1 < N then N else N - 1) \<longrightarrow>
                M' ! N ! c = (if hi < c then unionedRelation (M ! c ! lo) (M ! c ! hi)
                              else M ! N ! c))"
proof (cases "hi + 1 < N")
  case False
  then have e: "[hi + 1..<N] = []" by simp
  show ?thesis unfolding e using False lohi lastrow len by auto
next
  case True
  let ?k = "N - 1"
  from verticalOverlap_prefix[OF len rows lastrow lohi cells, of ?k]
  obtain M' where M': "verticalOverlap lo hi N [hi + 1..<?k] M = Inr M'" "sameShape M' M"
      "\<forall>r c. r \<le> N \<longrightarrow> c < length (M ! r) \<longrightarrow>
          M' ! r ! c = (if r = N \<and> hi < c \<and> c < ?k then unionedRelation (M ! c ! lo) (M ! c ! hi)
                        else if hi < r \<and> r < ?k \<and> (c = lo \<or> c = hi) then Null
                        else M ! r ! c)"
    by auto
  have k: "hi < ?k" "?k < N" using True by simp_all
  have shape: "length M' = Suc N" "\<And>r. r \<le> N \<Longrightarrow> length (M' ! r) = length (M ! r)"
    using sameShapeD[OF M'(2)] len by simp_all
  have L: "length (M' ! ?k) = ?k" "length (M' ! N) = ?k"
    using shape(2) rows lastrow lohi True k by simp_all
  have a: "M' ! ?k ! lo = M ! ?k ! lo" "M' ! ?k ! hi = M ! ?k ! hi"
    using M'(3) k lohi rows True by auto
  let ?m = "unionedRelation (M ! ?k ! lo) (M ! ?k ! hi)"
  let ?M2 = "M'[N := M' ! N @ [?m]]"
  let ?M3 = "upd2 ?M2 ?k lo Null"
  let ?M4 = "upd2 ?M3 ?k hi Null"
  have M2: "length ?M2 = Suc N" "\<And>r. r < N \<Longrightarrow> ?M2 ! r = M' ! r" "?M2 ! N = M' ! N @ [?m]"
    using shape(1) by simp_all
  have s1: "setCell M' N ?k ?m = Inr ?M2"
    using L shape(1) by (intro setCell_end) simp_all
  have s2: "setCell ?M2 ?k lo Null = Inr ?M3"
    using k lohi L M2 by (intro setCell_in) simp_all
  have s3: "setCell ?M3 ?k hi Null = Inr ?M4"
    using k lohi L M2 by (intro setCell_in) simp_all
  have g: "getCell M' ?k lo = Inr (M ! ?k ! lo)" "getCell M' ?k hi = Inr (M ! ?k ! hi)"
    using k lohi L shape(1) a by simp_all
  have me: "mergeEdges (M ! ?k ! lo) (M ! ?k ! hi) = Inr ?m"
    using cells k by (intro mergeEdges_edgeCell) simp_all
  have step: "verticalOverlap lo hi N [?k] M' = Inr ?M4"
    by (simp only: verticalOverlap.simps g thenE_simps me s1 s2 s3)
  have sp: "[hi + 1..<N] = [hi + 1..<?k] @ [?k]"
    using True by (metis Suc_diff_1 Suc_eq_plus1 k(1) less_imp_le_nat less_nat_zero_code
        linorder_neqE_nat upt_Suc_append Suc_leI)
  have "verticalOverlap lo hi N [hi + 1..<N] M = Inr ?M4"
    unfolding sp verticalOverlap_append M'(1) by (simp only: thenE_simps step)
  moreover have "length ?M4 = Suc N" using shape(1) by simp
  moreover have "\<forall>r < N. length (?M4 ! r) = length (M ! r)"
    using shape(2) M2 by simp
  moreover have "length (?M4 ! N) = (if hi + 1 < N then N else N - 1)"
    using True L M2 by simp
  moreover have "\<forall>r c. r < N \<longrightarrow> c < length (M ! r) \<longrightarrow>
                ?M4 ! r ! c = (if hi < r \<and> (c = lo \<or> c = hi) then Null else M ! r ! c)"
  proof (intro allI impI)
    fix r c assume rc: "r < N" "c < length (M ! r)"
    then have "?M4 ! r ! c = (if r = ?k \<and> (c = lo \<or> c = hi) then Null else M' ! r ! c)"
      using M2 shape k lohi L by (auto simp: upd2_nth)
    also have "M' ! r ! c = (if hi < r \<and> r < ?k \<and> (c = lo \<or> c = hi) then Null
                        else M ! r ! c)"
      using M'(3) rc by simp
    finally show "?M4 ! r ! c = (if hi < r \<and> (c = lo \<or> c = hi) then Null else M ! r ! c)"
      using k rc by auto
  qed
  moreover have "\<forall>c. c < (if hi + 1 < N then N else N - 1) \<longrightarrow>
                ?M4 ! N ! c = (if hi < c then unionedRelation (M ! c ! lo) (M ! c ! hi)
                              else M ! N ! c)"
  proof (intro allI impI)
    fix c assume "c < (if hi + 1 < N then N else N - 1)"
    then have c: "c < N" using True by simp
    have nk: "N \<noteq> ?k" using k by simp
    have "?M4 ! N ! c = (M' ! N @ [?m]) ! c"
      using M2 c L nk by (simp add: upd2_nth)
    also have "\<dots> = (if c < ?k then M' ! N ! c else ?m)"
    proof (cases "c < ?k")
      case True
      then show ?thesis using L by (simp add: nth_append)
    next
      case False
      then have "c = length (M' ! N)" using c L by simp
      then show ?thesis using False by simp
    qed
    also have "\<dots> = (if hi < c then unionedRelation (M ! c ! lo) (M ! c ! hi) else M ! N ! c)"
    proof (cases "c < ?k")
      case True
      then show ?thesis using M'(3) lastrow by auto
    next
      case False
      then have "c = ?k" using c by simp
      then show ?thesis using k by simp
    qed
    finally show "?M4 ! N ! c = (if hi < c then unionedRelation (M ! c ! lo) (M ! c ! hi)
                              else M ! N ! c)" .
  qed
  ultimately show ?thesis by blast
qed

text \<open>The cell of the unordered pair \<open>{u, v}\<close> in a triangular matrix.\<close>

definition stored :: "cell list list \<Rightarrow> nat \<Rightarrow> nat \<Rightarrow> cell" where
  "stored M u v = M ! max u v ! min u v"

text \<open>The four passes of \<open>mergeRows\<close> on the matrix with its new row.\<close>

definition passes :: "nat \<Rightarrow> nat \<Rightarrow> cell list list \<Rightarrow> error + cell list list" where
  "passes lo hi M =
     (let M0 = M @ [replicate (length M - 1) Zero]; u = length M0 - 1
      in thenE (horizontalOverlap lo hi u [0..<lo] M0) (\<lambda>M1.
         thenE (horizontalHiOvershoot lo hi u M1) (\<lambda>M2.
         thenE (verticalOverlap lo hi u [hi + 1..<u] M2) (\<lambda>M3.
         verticalLoOvershoot lo u [lo + 1..<hi] M3))))"

lemma passes_result:
  assumes tri: "triangular M" and lohi: "lo < hi" "hi < length M"
  shows "\<exists>M4. passes lo hi M = Inr M4 \<and> length M4 = Suc (length M)
          \<and> (\<forall>r < length M. length (M4 ! r) = r)
          \<and> length (M4 ! length M) = (if hi + 1 < length M then length M else length M - 1)
          \<and> (\<forall>r c. r < length M \<longrightarrow> c < r \<longrightarrow>
                M4 ! r ! c = (if r = lo \<or> r = hi \<or> c = lo \<or> c = hi then Null else M ! r ! c))
          \<and> (\<forall>c. c < length M \<longrightarrow> c \<noteq> lo \<longrightarrow> c \<noteq> hi \<longrightarrow>
                M4 ! length M ! c = unionedRelation (stored M lo c) (stored M hi c))"
proof -
  let ?N = "length M"
  let ?M0 = "M @ [replicate (?N - 1) Zero]"
  have hiN: "hi < ?N" by (rule lohi(2))
  have len0: "length ?M0 = Suc ?N" by simp
  have row0: "\<And>r z. r < ?N \<Longrightarrow> (M @ [z]) ! r = M ! r" by (simp add: nth_append)
  have rowlen0: "\<forall>r < ?N. length (?M0 ! r) = r"
    using triangularD(1)[OF tri] by (simp add: nth_append)
  have last0: "\<And>z. (M @ [z]) ! ?N = z" by (simp add: nth_append)
  have lastlen0: "length (?M0 ! ?N) = ?N - 1" by (simp add: nth_append)
  have edge: "\<And>r c. r < ?N \<Longrightarrow> c < r \<Longrightarrow> edgeCell (M ! r ! c)"
    using triangularD(2)[OF tri] by simp
  have rlen: "\<And>r. r < ?N \<Longrightarrow> length (M ! r) = r"
    using triangularD(1)[OF tri] by simp
  \<comment> \<open>first pass\<close>
  have c1: "\<forall>c < lo. edgeCell (?M0 ! lo ! c) \<and> edgeCell (?M0 ! hi ! c)"
    using lohi edge by (simp add: row0)
  from horizontalOverlap_prefix[OF len0 rowlen0 lastlen0 lohi(1) hiN c1 le_refl]
  obtain M1 where M1: "horizontalOverlap lo hi ?N [0..<lo] ?M0 = Inr M1" "sameShape M1 ?M0"
    and d1: "\<And>r c. r \<le> ?N \<Longrightarrow> c < length (?M0 ! r) \<Longrightarrow>
                M1 ! r ! c = (if r = ?N \<and> c < lo then unionedRelation (?M0 ! lo ! c) (?M0 ! hi ! c)
                              else if r = lo \<and> c < lo then Null else ?M0 ! r ! c)"
    by blast
  have len1: "length M1 = Suc ?N" using sameShapeD(1)[OF M1(2)] by simp
  have rl1: "\<And>r. r \<le> ?N \<Longrightarrow> length (M1 ! r) = length (?M0 ! r)"
    using sameShapeD(2)[OF M1(2)] by simp
  \<comment> \<open>second pass\<close>
  have rh1: "length (M1 ! hi) = hi" using rl1[of hi] rowlen0 hiN by simp
  have ll1: "length (M1 ! ?N) = ?N - 1" using rl1[of ?N] lastlen0 by simp
  have c2: "\<forall>c. lo < c \<and> c < hi \<longrightarrow> edgeCell (M1 ! hi ! c)"
  proof (intro allI impI)
    fix c assume c: "lo < c \<and> c < hi"
    then have "M1 ! hi ! c = M ! hi ! c"
      using d1[of hi c] hiN lohi rlen by (simp add: row0)
    then show "edgeCell (M1 ! hi ! c)" using edge[of hi c] c hiN by simp
  qed
  from hiOvershootMerge_prefix[OF len1 rh1 ll1 lohi(1) hiN c2 le_refl]
  obtain M2a where M2a: "hiOvershootMerge hi ?N [lo + 1..<hi] M1 = Inr M2a" "sameShape M2a M1"
    and d2a: "\<And>r c. r \<le> ?N \<Longrightarrow> c < length (M1 ! r) \<Longrightarrow>
                M2a ! r ! c = (if r = ?N \<and> lo < c \<and> c < hi then unionedRelation (M1 ! hi ! c) Zero
                              else M1 ! r ! c)"
    by blast
  have len2a: "length M2a = Suc ?N" using sameShapeD(1)[OF M2a(2)] len1 by simp
  have rl2a: "\<And>r. r \<le> ?N \<Longrightarrow> length (M2a ! r) = length (?M0 ! r)"
    using sameShapeD(2)[OF M2a(2)] len1 rl1 by simp
  have rh2a: "length (M2a ! hi) = hi" using rl2a[of hi] rowlen0 hiN by simp
  from hiOvershootClear_prefix[OF len2a rh2a hiN le_refl]
  obtain M2 where M2: "hiOvershootClear hi [0..<hi] M2a = Inr M2" "sameShape M2 M2a"
    and d2: "\<And>r c. r \<le> ?N \<Longrightarrow> c < length (M2a ! r) \<Longrightarrow>
                M2 ! r ! c = (if r = hi \<and> c < hi then Null else M2a ! r ! c)"
    by blast
  have p2: "horizontalHiOvershoot lo hi ?N M1 = Inr M2"
    by (simp only: horizontalHiOvershoot_def M2a(1) thenE_simps M2(1))
  have len2: "length M2 = Suc ?N" using sameShapeD(1)[OF M2(2)] len2a by simp
  have rl2: "\<And>r. r \<le> ?N \<Longrightarrow> length (M2 ! r) = length (?M0 ! r)"
    using sameShapeD(2)[OF M2(2)] len2a rl2a by simp
  \<comment> \<open>the cells of the rows below \<open>N\<close> after two passes\<close>
  have e2: "\<And>r c. r < ?N \<Longrightarrow> c < r \<Longrightarrow>
              M2 ! r ! c = (if r = lo \<or> r = hi then Null else M ! r ! c)"
  proof -
    fix r c assume rc: "r < ?N" "c < r"
    then have cl: "c < length (?M0 ! r)" using rowlen0 by simp
    have "M2 ! r ! c = (if r = hi \<and> c < hi then Null else M2a ! r ! c)"
      using d2[of r c] rc cl rl2a[of r] by simp
    moreover have "M2a ! r ! c = M1 ! r ! c"
      using d2a[of r c] rc cl rl1[of r] by simp
    moreover have "M1 ! r ! c = (if r = lo \<and> c < lo then Null else M ! r ! c)"
      using d1[of r c] rc cl by (simp add: row0)
    ultimately show "M2 ! r ! c = (if r = lo \<or> r = hi then Null else M ! r ! c)"
      using rc by auto
  qed
  \<comment> \<open>the union row after two passes\<close>
  have u2: "\<And>c. c < ?N - 1 \<Longrightarrow>
              M2 ! ?N ! c = (if c < lo then unionedRelation (M ! lo ! c) (M ! hi ! c)
                             else if lo < c \<and> c < hi then unionedRelation (M ! hi ! c) Zero
                             else Zero)"
  proof -
    fix c assume c: "c < ?N - 1"
    then have cl: "c < length (?M0 ! ?N)" using lastlen0 by simp
    have "M2 ! ?N ! c = M2a ! ?N ! c"
      using d2[of ?N c] cl rl2a[of ?N] hiN by simp
    moreover have "M2a ! ?N ! c = (if lo < c \<and> c < hi then unionedRelation (M1 ! hi ! c) Zero
                              else M1 ! ?N ! c)"
      using d2a[of ?N c] cl rl1[of ?N] by simp
    moreover have "lo < c \<and> c < hi \<Longrightarrow> M1 ! hi ! c = M ! hi ! c"
      using d1[of hi c] hiN lohi rlen by (simp add: row0)
    moreover have "M1 ! ?N ! c = (if c < lo then unionedRelation (M ! lo ! c) (M ! hi ! c) else Zero)"
      using d1[of ?N c] cl c lohi by (simp add: row0 last0)
    ultimately show "M2 ! ?N ! c = (if c < lo then unionedRelation (M ! lo ! c) (M ! hi ! c)
                             else if lo < c \<and> c < hi then unionedRelation (M ! hi ! c) Zero
                             else Zero)"
      by auto
  qed
  \<comment> \<open>third pass\<close>
  have r3: "\<forall>r. hi < r \<and> r < ?N \<longrightarrow> length (M2 ! r) = r"
    using rl2 rowlen0 by simp
  have ll2: "length (M2 ! ?N) = ?N - 1" using rl2[of ?N] lastlen0 by simp
  have c3: "\<forall>r. hi < r \<and> r < ?N \<longrightarrow> edgeCell (M2 ! r ! lo) \<and> edgeCell (M2 ! r ! hi)"
  proof (intro allI impI)
    fix r assume r: "hi < r \<and> r < ?N"
    then have "M2 ! r ! lo = M ! r ! lo" "M2 ! r ! hi = M ! r ! hi"
      using e2[of r lo] e2[of r hi] lohi by simp_all
    then show "edgeCell (M2 ! r ! lo) \<and> edgeCell (M2 ! r ! hi)"
      using edge[of r lo] edge[of r hi] r lohi by simp
  qed
  from verticalOverlap_all[OF len2 r3 ll2 lohi(1) hiN c3]
  obtain M3 where M3: "verticalOverlap lo hi ?N [hi + 1..<?N] M2 = Inr M3" "length M3 = Suc ?N"
    and rl3: "\<And>r. r < ?N \<Longrightarrow> length (M3 ! r) = length (M2 ! r)"
    and ll3: "length (M3 ! ?N) = (if hi + 1 < ?N then ?N else ?N - 1)"
    and d3: "\<And>r c. r < ?N \<Longrightarrow> c < length (M2 ! r) \<Longrightarrow>
                M3 ! r ! c = (if hi < r \<and> (c = lo \<or> c = hi) then Null else M2 ! r ! c)"
    and u3: "\<And>c. c < (if hi + 1 < ?N then ?N else ?N - 1) \<Longrightarrow>
                M3 ! ?N ! c = (if hi < c then unionedRelation (M2 ! c ! lo) (M2 ! c ! hi)
                              else M2 ! ?N ! c)"
    by blast
  \<comment> \<open>fourth pass\<close>
  have r4: "\<forall>r. lo < r \<and> r < hi \<longrightarrow> length (M3 ! r) = r"
    using rl3 rl2 rowlen0 hiN by simp
  have l4: "hi \<le> length (M3 ! ?N)" using ll3 hiN by auto
  have c4: "\<forall>c. lo < c \<and> c < hi \<longrightarrow> edgeCell (M3 ! c ! lo) \<and> edgeCell (M3 ! ?N ! c)"
  proof (intro allI impI)
    fix c assume c: "lo < c \<and> c < hi"
    then have cN: "c < ?N" "c < ?N - 1" using hiN by linarith+
    have "M3 ! c ! lo = M2 ! c ! lo"
      using d3[of c lo] c cN rl2[of c] rowlen0 by simp
    then have "M3 ! c ! lo = M ! c ! lo"
      using e2[of c lo] c cN by simp
    moreover have "M3 ! ?N ! c = M2 ! ?N ! c"
      using u3[of c] c cN by (simp split: if_splits)
    then have "M3 ! ?N ! c = unionedRelation (M ! hi ! c) Zero"
      using u2[of c] c cN by simp
    ultimately show "edgeCell (M3 ! c ! lo) \<and> edgeCell (M3 ! ?N ! c)"
      using edge[of c lo] c cN by simp
  qed
  from verticalLoOvershoot_prefix[OF M3(2) r4 l4 lohi(1) hiN c4 le_refl]
  obtain M4 where M4: "verticalLoOvershoot lo ?N [lo + 1..<hi] M3 = Inr M4" "sameShape M4 M3"
    and d4: "\<And>r c. r \<le> ?N \<Longrightarrow> c < length (M3 ! r) \<Longrightarrow>
                M4 ! r ! c = (if r = ?N \<and> lo < c \<and> c < hi then unionedRelation (M3 ! c ! lo) (M3 ! ?N ! c)
                              else if lo < r \<and> r < hi \<and> c = lo then Null
                              else M3 ! r ! c)"
    by blast
  have len4: "length M4 = Suc ?N" using sameShapeD(1)[OF M4(2)] M3(2) by simp
  have rl4: "\<And>r. r \<le> ?N \<Longrightarrow> length (M4 ! r) = length (M3 ! r)"
    using sameShapeD(2)[OF M4(2)] M3(2) by simp
  have u: "length ?M0 - 1 = ?N" by simp
  have "passes lo hi M = Inr M4"
    by (simp only: passes_def Let_def u M1(1) thenE_simps p2 M3(1) M4(1))
  moreover have "\<forall>r < ?N. length (M4 ! r) = r"
    using rl4 rl3 rl2 rowlen0 by simp
  moreover have "length (M4 ! ?N) = (if hi + 1 < ?N then ?N else ?N - 1)"
    using rl4[of ?N] ll3 by simp
  moreover have "\<forall>r c. r < ?N \<longrightarrow> c < r \<longrightarrow>
                M4 ! r ! c = (if r = lo \<or> r = hi \<or> c = lo \<or> c = hi then Null else M ! r ! c)"
  proof (intro allI impI)
    fix r c assume rc: "r < ?N" "c < r"
    have l2: "length (M2 ! r) = r" "length (M3 ! r) = r"
      using rl3[of r] rl2[of r] rowlen0 rc by simp_all
    have "M4 ! r ! c = (if lo < r \<and> r < hi \<and> c = lo then Null else M3 ! r ! c)"
      using d4[of r c] rc l2 by simp
    moreover have "M3 ! r ! c = (if hi < r \<and> (c = lo \<or> c = hi) then Null else M2 ! r ! c)"
      using d3[of r c] rc l2 by simp
    moreover note e2[OF rc]
    ultimately show "M4 ! r ! c = (if r = lo \<or> r = hi \<or> c = lo \<or> c = hi then Null else M ! r ! c)"
      using rc by auto
  qed
  moreover have "\<forall>c. c < ?N \<longrightarrow> c \<noteq> lo \<longrightarrow> c \<noteq> hi \<longrightarrow>
                M4 ! ?N ! c = unionedRelation (stored M lo c) (stored M hi c)"
  proof (intro allI impI)
    fix c assume cc: "c < ?N" "c \<noteq> lo" "c \<noteq> hi"
    consider (below) "c < lo" | (between) "lo < c" "c < hi" | (above) "hi < c" using cc by linarith
    then show "M4 ! ?N ! c = unionedRelation (stored M lo c) (stored M hi c)"
    proof cases
      case below
      then have cN: "c < ?N - 1" using lohi by linarith
      have "M4 ! ?N ! c = M3 ! ?N ! c"
        using d4[of ?N c] below l4 lohi by simp
      also have "\<dots> = M2 ! ?N ! c"
        using u3[of c] below cN lohi by (simp split: if_splits)
      also have "\<dots> = unionedRelation (M ! lo ! c) (M ! hi ! c)"
        using u2[OF cN] below by simp
      finally show ?thesis using below lohi by (simp add: stored_def max_def min_def)
    next
      case between
      then have cN: "c < ?N - 1" using lohi by linarith
      have m3: "M3 ! c ! lo = M ! c ! lo"
        using d3[of c lo] e2[of c lo] between cc rl2[of c] rowlen0 by simp
      have "M3 ! ?N ! c = M2 ! ?N ! c"
        using u3[of c] between cN by (simp split: if_splits)
      then have n3: "M3 ! ?N ! c = unionedRelation (M ! hi ! c) Zero"
        using u2[OF cN] between by simp
      have "M4 ! ?N ! c = unionedRelation (M3 ! c ! lo) (M3 ! ?N ! c)"
        using d4[of ?N c] between l4 by simp
      also have "\<dots> = unionedRelation (M ! c ! lo) (M ! hi ! c)"
        unfolding m3 n3 using edge[of c lo] edge[of hi c] between cc hiN
        by (intro unioned_twice) simp_all
      finally show ?thesis using between lohi by (simp add: stored_def max_def min_def)
    next
      case above
      then have cl: "c < (if hi + 1 < ?N then ?N else ?N - 1)"
        using cc by auto
      have "M4 ! ?N ! c = M3 ! ?N ! c"
        using d4[of ?N c] above ll3 cl hiN by simp
      also have "\<dots> = unionedRelation (M2 ! c ! lo) (M2 ! c ! hi)"
        using u3[OF cl] above by simp
      also have "\<dots> = unionedRelation (M ! c ! lo) (M ! c ! hi)"
        using e2[of c lo] e2[of c hi] above lohi cc by simp
      finally show ?thesis using above lohi by (simp add: stored_def max_def min_def)
    qed
  qed
  ultimately show ?thesis using len4 by blast
qed

text \<open>
  The nodes that survive the merge of \<open>lo\<close> and \<open>hi\<close>, in increasing order, and the rows
  after the merge: every surviving row without its cells at \<open>lo\<close> and \<open>hi\<close>, then the row of
  the merged node.
\<close>

definition survivors :: "nat \<Rightarrow> nat \<Rightarrow> nat \<Rightarrow> nat list" where
  "survivors lo hi n = filter (\<lambda>k. k \<noteq> lo \<and> k \<noteq> hi) [0..<n]"

definition mergedRows :: "nat \<Rightarrow> nat \<Rightarrow> cell list list \<Rightarrow> cell list list" where
  "mergedRows lo hi M =
     map (\<lambda>r. map (\<lambda>c. M ! r ! c) (survivors lo hi r)) (survivors lo hi (length M))
     @ [map (\<lambda>k. unionedRelation (stored M lo k) (stored M hi k)) (survivors lo hi (length M))]"

lemma splice1_nat: "splice1 xs (int i) = take i xs @ drop (Suc i) xs"
proof (cases "i \<le> length xs")
  case True
  then have "nat (min (int i) (int (length xs))) = i" by simp
  then show ?thesis by (simp add: splice1_def Let_def)
next
  case False
  then have "nat (min (int i) (int (length xs))) = length xs" by simp
  then show ?thesis using False by (simp add: splice1_def Let_def)
qed

lemma upt_Suc_shift: "[0..<Suc n] = 0 # map Suc [0..<n]"
  by (simp add: upt_conv_Cons map_Suc_upt del: upt_Suc)

lemma remove_one:
  "take i xs @ drop (Suc i) xs = map ((!) xs) (filter (\<lambda>k. k \<noteq> i) [0..<length xs])"
proof (induction xs arbitrary: i)
  case Nil
  then show ?case by simp
next
  case (Cons x xs)
  show ?case
  proof (cases i)
    case 0
    have "filter (\<lambda>k. k \<noteq> 0) (0 # map Suc [0..<length xs]) = map Suc [0..<length xs]"
      by (simp add: filter_map comp_def)
    then show ?thesis
      using 0 by (simp add: upt_Suc_shift comp_def map_nth del: upt_Suc)
  next
    case (Suc j)
    have "filter (\<lambda>k. k \<noteq> Suc j) (0 # map Suc [0..<length xs])
            = 0 # map Suc (filter (\<lambda>k. k \<noteq> j) [0..<length xs])"
      by (simp add: filter_map comp_def)
    then show ?thesis
      using Suc Cons.IH[of j] by (simp add: upt_Suc_shift comp_def del: upt_Suc)
  qed
qed

lemma remove_two:
  "lo < hi \<Longrightarrow>
   take (hi - 1) (take lo xs @ drop (Suc lo) xs) @ drop hi (take lo xs @ drop (Suc lo) xs)
     = map ((!) xs) (filter (\<lambda>k. k \<noteq> lo \<and> k \<noteq> hi) [0..<length xs])"
proof (induction xs arbitrary: lo hi)
  case Nil
  then show ?case by simp
next
  case (Cons x xs)
  obtain h where h: "hi = Suc h" using Cons.prems by (cases hi) auto
  show ?case
  proof (cases lo)
    case 0
    have "filter (\<lambda>k. k \<noteq> 0 \<and> k \<noteq> Suc h) (0 # map Suc [0..<length xs])
            = map Suc (filter (\<lambda>k. k \<noteq> h) [0..<length xs])"
      by (simp add: filter_map comp_def)
    then show ?thesis
      using 0 h remove_one[of h xs] by (simp add: upt_Suc_shift comp_def del: upt_Suc)
  next
    case (Suc l)
    then have lh: "l < h" using Cons.prems h by simp
    then obtain h' where h': "h = Suc h'" by (cases h) auto
    have "filter (\<lambda>k. k \<noteq> Suc l \<and> k \<noteq> Suc h) (0 # map Suc [0..<length xs])
            = 0 # map Suc (filter (\<lambda>k. k \<noteq> l \<and> k \<noteq> h) [0..<length xs])"
      by (simp add: filter_map comp_def)
    then show ?thesis
      using Suc h h' Cons.IH[OF lh] by (simp add: upt_Suc_shift comp_def del: upt_Suc)
  qed
qed

lemma two_splices:
  assumes "lo < hi"
  shows "splice1 (splice1 xs (int lo)) (int hi - 1) = map ((!) xs) (survivors lo hi (length xs))"
proof -
  have "int hi - 1 = int (hi - 1)" using assms by simp
  then have "splice1 (splice1 xs (int lo)) (int hi - 1)
      = take (hi - 1) (take lo xs @ drop (Suc lo) xs) @ drop (Suc (hi - 1)) (take lo xs @ drop (Suc lo) xs)"
    by (simp only: splice1_nat)
  also have "Suc (hi - 1) = hi" using assms by simp
  finally show ?thesis using remove_two[OF assms, of xs] by (simp add: survivors_def)
qed

lemma removeNulls_snoc:
  "removeNulls (xs @ [y]) = map (filter (\<lambda>c. c \<noteq> Null)) xs @ [y]"
proof (rule nth_equalityI)
  show "length (removeNulls (xs @ [y])) = length (map (filter (\<lambda>c. c \<noteq> Null)) xs @ [y])"
    by (simp add: removeNulls_def)
next
  fix i assume "i < length (removeNulls (xs @ [y]))"
  then have i: "i < Suc (length xs)" by (simp add: removeNulls_def)
  show "removeNulls (xs @ [y]) ! i = (map (filter (\<lambda>c. c \<noteq> Null)) xs @ [y]) ! i"
  proof (cases "i < length xs")
    case True
    then show ?thesis using i by (simp add: removeNulls_def nth_append del: upt_Suc)
  next
    case False
    then have "i = length xs" using i by simp
    then show ?thesis by (simp add: removeNulls_def nth_append del: upt_Suc)
  qed
qed

lemma filter_nulls:
  assumes "\<And>c. c < length row \<Longrightarrow> row ! c = (if P c then Null else f c)"
    and "\<And>c. c < length row \<Longrightarrow> \<not> P c \<Longrightarrow> f c \<noteq> Null"
  shows "filter (\<lambda>c. c \<noteq> Null) row = map f (filter (\<lambda>c. \<not> P c) [0..<length row])"
proof -
  have "row = map (\<lambda>c. if P c then Null else f c) [0..<length row]"
    using assms(1) by (intro nth_equalityI) simp_all
  then have "filter (\<lambda>c. c \<noteq> Null) row
      = filter (\<lambda>c. c \<noteq> Null) (map (\<lambda>c. if P c then Null else f c) [0..<length row])"
    by simp
  also have "\<dots> = map (\<lambda>c. if P c then Null else f c)
                      (filter (\<lambda>c. (if P c then Null else f c) \<noteq> Null) [0..<length row])"
    by (simp add: filter_map comp_def)
  also have "filter (\<lambda>c. (if P c then Null else f c) \<noteq> Null) [0..<length row]
           = filter (\<lambda>c. \<not> P c) [0..<length row]"
    using assms(2) by (intro filter_cong) auto
  also have "map (\<lambda>c. if P c then Null else f c) (filter (\<lambda>c. \<not> P c) [0..<length row])
           = map f (filter (\<lambda>c. \<not> P c) [0..<length row])"
    by (intro map_cong) auto
  finally show ?thesis .
qed

lemma mergeRows_passes:
  "mergeRows lo hi M =
     thenE (passes lo hi M) (\<lambda>M4. Inr (removeNulls
                (splice1 (splice1
                   (M4[length M := splice1 (splice1 (M4 ! length M) (int lo)) (int hi - 1)])
                   (int lo)) (int hi - 1))))"
  by (simp add: mergeRows_def passes_def Let_def thenE_def split: sum.splits)

lemma mergeRows_closed:
  assumes tri: "triangular M" and lohi: "lo < hi" "hi < length M"
  shows "mergeRows lo hi M = Inr (mergedRows lo hi M)"
proof -
  let ?N = "length M"
  let ?S = "survivors lo hi"
  from passes_result[OF assms] obtain M4 where
    p: "passes lo hi M = Inr M4" and len4: "length M4 = Suc ?N"
    and rl: "\<And>r. r < ?N \<Longrightarrow> length (M4 ! r) = r"
    and ll: "length (M4 ! ?N) = (if hi + 1 < ?N then ?N else ?N - 1)"
    and d: "\<And>r c. r < ?N \<Longrightarrow> c < r \<Longrightarrow>
              M4 ! r ! c = (if r = lo \<or> r = hi \<or> c = lo \<or> c = hi then Null else M ! r ! c)"
    and u: "\<And>c. c < ?N \<Longrightarrow> c \<noteq> lo \<Longrightarrow> c \<noteq> hi \<Longrightarrow>
              M4 ! ?N ! c = unionedRelation (stored M lo c) (stored M hi c)"
    by blast
  have edge: "\<And>r c. r < ?N \<Longrightarrow> c < r \<Longrightarrow> edgeCell (M ! r ! c)"
    using triangularD(2)[OF tri] by simp
  \<comment> \<open>the union row after its two splices\<close>
  have SN: "?S (length (M4 ! ?N)) = ?S ?N"
  proof (cases "hi + 1 < ?N")
    case True
    then show ?thesis using ll by simp
  next
    case False
    then have "?N = Suc hi" using lohi by simp
    then show ?thesis using ll by (simp add: survivors_def)
  qed
  have urow: "splice1 (splice1 (M4 ! ?N) (int lo)) (int hi - 1)
                = map (\<lambda>k. unionedRelation (stored M lo k) (stored M hi k)) (?S ?N)"
    unfolding two_splices[OF lohi(1)] SN
    using u by (intro map_cong) (auto simp: survivors_def)
  let ?U = "map (\<lambda>k. unionedRelation (stored M lo k) (stored M hi k)) (?S ?N)"
  \<comment> \<open>the matrix after its two splices\<close>
  have "splice1 (splice1 (M4[?N := ?U]) (int lo)) (int hi - 1)
          = map ((!) (M4[?N := ?U])) (?S (Suc ?N))"
    unfolding two_splices[OF lohi(1)] by (simp add: len4)
  also have "?S (Suc ?N) = ?S ?N @ [?N]"
    using lohi by (simp add: survivors_def)
  also have "map ((!) (M4[?N := ?U])) (?S ?N @ [?N]) = map ((!) M4) (?S ?N) @ [?U]"
    using len4 by (auto simp: survivors_def)
  finally have sp: "splice1 (splice1 (M4[?N := ?U]) (int lo)) (int hi - 1)
                      = map ((!) M4) (?S ?N) @ [?U]" .
  \<comment> \<open>the rows that lose their nulls\<close>
  have rows: "map (filter (\<lambda>c. c \<noteq> Null)) (map ((!) M4) (?S ?N))
                = map (\<lambda>r. map (\<lambda>c. M ! r ! c) (?S r)) (?S ?N)"
  proof -
    have "\<And>r. r \<in> set (?S ?N) \<Longrightarrow>
            filter (\<lambda>c. c \<noteq> Null) (M4 ! r) = map (\<lambda>c. M ! r ! c) (?S r)"
    proof -
      fix r assume "r \<in> set (?S ?N)"
      then have r: "r < ?N" "r \<noteq> lo" "r \<noteq> hi" by (auto simp: survivors_def)
      have "filter (\<lambda>c. c \<noteq> Null) (M4 ! r)
              = map (\<lambda>c. M ! r ! c) (filter (\<lambda>c. \<not> (c = lo \<or> c = hi)) [0..<length (M4 ! r)])"
      proof (rule filter_nulls)
        fix c assume "c < length (M4 ! r)"
        then have "c < r" using rl[OF r(1)] by simp
        then show "M4 ! r ! c = (if c = lo \<or> c = hi then Null else M ! r ! c)"
          using d[OF r(1)] r by simp
      next
        fix c assume "c < length (M4 ! r)" "\<not> (c = lo \<or> c = hi)"
        then have "c < r" using rl[OF r(1)] by simp
        then show "M ! r ! c \<noteq> Null"
          using edge[OF r(1)] by (intro edgeCell_not_Null) simp
      qed
      then show "filter (\<lambda>c. c \<noteq> Null) (M4 ! r) = map (\<lambda>c. M ! r ! c) (?S r)"
        using rl[OF r(1)] by (simp add: survivors_def)
    qed
    then show ?thesis by simp
  qed
  have "mergeRows lo hi M = Inr (removeNulls (map ((!) M4) (?S ?N) @ [?U]))"
    unfolding mergeRows_passes p thenE_simps urow sp ..
  then show ?thesis
    unfolding removeNulls_snoc rows mergedRows_def .
qed

text \<open>The index of the surviving node \<open>k\<close> after the rows \<open>lo\<close> and \<open>hi\<close> are removed.\<close>

definition newIndex :: "nat \<Rightarrow> nat \<Rightarrow> nat \<Rightarrow> nat" where
  "newIndex lo hi k = k - (if lo < k then 1 else 0) - (if hi < k then 1 else 0)"

lemma survivors_split:
  assumes "lo < hi" "hi < n"
  shows "survivors lo hi n = [0..<lo] @ [Suc lo..<hi] @ [Suc hi..<n]"
proof -
  have "[0..<n] = [0..<lo] @ lo # [Suc lo..<hi] @ hi # [Suc hi..<n]"
    using assms
    by (metis less_imp_le_nat less_trans upt_add_eq_append upt_conv_Cons le_add_diff_inverse
        zero_le Suc_leI)
  then have "survivors lo hi n
     = filter (\<lambda>k. k \<noteq> lo \<and> k \<noteq> hi) ([0..<lo] @ lo # [Suc lo..<hi] @ hi # [Suc hi..<n])"
    by (simp add: survivors_def)
  also have "\<dots> = filter (\<lambda>k. k \<noteq> lo \<and> k \<noteq> hi) [0..<lo]
                  @ filter (\<lambda>k. k \<noteq> lo \<and> k \<noteq> hi) [Suc lo..<hi]
                  @ filter (\<lambda>k. k \<noteq> lo \<and> k \<noteq> hi) [Suc hi..<n]"
    by simp
  also have "filter (\<lambda>k. k \<noteq> lo \<and> k \<noteq> hi) [0..<lo] = [0..<lo]"
    using assms by (intro filter_True) auto
  also have "filter (\<lambda>k. k \<noteq> lo \<and> k \<noteq> hi) [Suc lo..<hi] = [Suc lo..<hi]"
    by (intro filter_True) auto
  also have "filter (\<lambda>k. k \<noteq> lo \<and> k \<noteq> hi) [Suc hi..<n] = [Suc hi..<n]"
    using assms by (intro filter_True) auto
  finally show ?thesis .
qed

lemma length_survivors: "lo < hi \<Longrightarrow> hi < n \<Longrightarrow> length (survivors lo hi n) = n - 2"
  by (simp add: survivors_split)

lemma survivors_nth:
  assumes "lo < hi" "hi < n" "k < n" "k \<noteq> lo" "k \<noteq> hi"
  shows "newIndex lo hi k < n - 2 \<and> survivors lo hi n ! newIndex lo hi k = k"
proof -
  consider (below) "k < lo" | (between) "lo < k" "k < hi" | (above) "hi < k" using assms by linarith
  then show ?thesis
  proof cases
    case below
    then show ?thesis
      using assms by (simp add: survivors_split newIndex_def nth_append)
  next
    case between
    then obtain j where j: "k = Suc j" "lo \<le> j" "j < hi - 1" by (cases k) auto
    have "j - lo < hi - Suc lo" using j between by linarith
    then have "([Suc lo..<hi] @ [Suc hi..<n]) ! (j - lo) = Suc lo + (j - lo)"
      by (simp add: nth_append)
    then have "survivors lo hi n ! j = k"
      using assms j by (simp add: survivors_split nth_append)
    moreover have "newIndex lo hi k = j" using between j by (simp add: newIndex_def)
    moreover have "j < n - 2" using j assms by linarith
    ultimately show ?thesis by simp
  next
    case above
    define j where "j = k - 2"
    have j: "k = Suc (Suc j)" "hi \<le> Suc j" using above assms(1) unfolding j_def by linarith+
    have jn: "j < n - 2" using j assms by linarith
    have h1: "lo \<le> j" using j assms by linarith
    have h2: "\<not> j - lo < hi - Suc lo" using j assms by linarith
    have "j - lo - (hi - Suc lo) = Suc j - hi" using j assms by linarith
    moreover have "Suc j - hi < n - Suc hi" using j assms by linarith
    ultimately have "([Suc lo..<hi] @ [Suc hi..<n]) ! (j - lo) = Suc hi + (Suc j - hi)"
      using h2 by (simp add: nth_append)
    then have "survivors lo hi n ! j = k"
      using assms j h1 by (simp add: survivors_split nth_append)
    moreover have "newIndex lo hi k = j" using above j assms by (simp add: newIndex_def)
    ultimately show ?thesis using jn by simp
  qed
qed

lemma mergeStops_closed:
  assumes "lo < hi" "hi < length st"
  shows "mergeStops mw lo hi st
           = Inr (map ((!) st) (survivors lo hi (length st)) @ [mw (st ! lo) (st ! hi)])"
proof -
  let ?new = "mw (st ! lo) (st ! hi)"
  have "survivors lo hi (Suc (length st)) = survivors lo hi (length st) @ [length st]"
    using assms by (simp add: survivors_def)
  then have "map ((!) (st @ [?new])) (survivors lo hi (length (st @ [?new])))
        = map ((!) st) (survivors lo hi (length st)) @ [?new]"
    by (auto simp: survivors_def nth_append)
  then show ?thesis
    using assms by (simp add: mergeStops_def two_splices)
qed

text \<open>
  C3.  A merge of \<open>lo < hi\<close> in a triangular matrix of \<open>N\<close> rows succeeds and leaves \<open>N - 1\<close>
  rows.  The last row, the merged node's, has \<open>N - 2\<close> cells, one for each surviving node \<open>k\<close>
  in increasing order, at the index \<open>k\<close> has after the two removals; the cell combines the
  relation of \<open>lo\<close> to \<open>k\<close> and the relation of \<open>hi\<close> to \<open>k\<close>, wherever \<open>k\<close> lies
  relative to \<open>lo\<close> and \<open>hi\<close>: no edge when both are absent, a transfer edge of weight \<open>-1\<close>
  when one of them is a transfer edge, a route edge of weight \<open>-1\<close> otherwise.  The edge
  between \<open>lo\<close> and \<open>hi\<close> has no cell in the row.
\<close>

theorem merge_unions_relations:
  assumes "triangular M" "lo < hi" "hi < length M" "length st = length M"
  shows "\<exists>M' st'. merge mw lo hi (M, st) = Inr (M', st')
           \<and> length M' = length M - 1
           \<and> length (last M') = length M - 2
           \<and> last M' = map (\<lambda>k. unionedRelation (stored M lo k) (stored M hi k))
                            (filter (\<lambda>k. k \<noteq> lo \<and> k \<noteq> hi) [0..<length M])
           \<and> (\<forall>k < length M. k \<noteq> lo \<longrightarrow> k \<noteq> hi \<longrightarrow>
                 newIndex lo hi k < length (last M')
                 \<and> last M' ! newIndex lo hi k =
                     (if stored M lo k = Zero \<and> stored M hi k = Zero then Zero
                      else if isTransfer (stored M lo k) \<or> isTransfer (stored M hi k)
                           then Rel Transfer (- 1)
                      else Rel Route (- 1)))"
proof -
  let ?N = "length M"
  let ?U = "map (\<lambda>k. unionedRelation (stored M lo k) (stored M hi k)) (survivors lo hi ?N)"
  have s: "mergeStops mw lo hi st
             = Inr (map ((!) st) (survivors lo hi (length st)) @ [mw (st ! lo) (st ! hi)])"
    using assms by (intro mergeStops_closed) simp_all
  have m: "merge mw lo hi (M, st)
             = Inr (mergedRows lo hi M,
                    map ((!) st) (survivors lo hi (length st)) @ [mw (st ! lo) (st ! hi)])"
    by (simp add: merge_def s mergeRows_closed[OF assms(1-3)])
  have l: "last (mergedRows lo hi M) = ?U"
    by (simp add: mergedRows_def)
  have n: "length (mergedRows lo hi M) = ?N - 1"
    using assms by (simp add: mergedRows_def length_survivors)
  have lu: "length ?U = ?N - 2"
    using assms by (simp add: length_survivors)
  have p: "\<forall>k < ?N. k \<noteq> lo \<longrightarrow> k \<noteq> hi \<longrightarrow>
             newIndex lo hi k < length ?U
             \<and> ?U ! newIndex lo hi k =
                 (if stored M lo k = Zero \<and> stored M hi k = Zero then Zero
                  else if isTransfer (stored M lo k) \<or> isTransfer (stored M hi k)
                       then Rel Transfer (- 1)
                  else Rel Route (- 1))"
  proof (intro allI impI)
    fix k assume k: "k < ?N" "k \<noteq> lo" "k \<noteq> hi"
    from survivors_nth[OF assms(2,3) k]
    have i: "newIndex lo hi k < ?N - 2" "survivors lo hi ?N ! newIndex lo hi k = k" by auto
    then have "?U ! newIndex lo hi k = unionedRelation (stored M lo k) (stored M hi k)"
      using assms by (simp add: length_survivors)
    then show "newIndex lo hi k < length ?U
             \<and> ?U ! newIndex lo hi k =
                 (if stored M lo k = Zero \<and> stored M hi k = Zero then Zero
                  else if isTransfer (stored M lo k) \<or> isTransfer (stored M hi k)
                       then Rel Transfer (- 1)
                  else Rel Route (- 1))"
      using i(1) lu by (simp add: unionedRelation_def)
  qed
  show ?thesis
    using m l n lu p unfolding survivors_def[symmetric]
    by (intro exI[of _ "mergedRows lo hi M"] exI) (simp only: simp_thms)
qed

theorem merge_unions_relations_witness:
  "triangular (G threeStops)
   \<and> (\<exists>M' st'. merge (\<lambda>a b. a @ b) 1 2 (G threeStops, stops threeStops) = Inr (M', st')
         \<and> length M' = length (G threeStops) - 1
         \<and> length (last M') = length (G threeStops) - 2
         \<and> last M' ! newIndex 1 2 0 =
             (if stored (G threeStops) 1 0 = Zero \<and> stored (G threeStops) 2 0 = Zero then Zero
              else if isTransfer (stored (G threeStops) 1 0) \<or> isTransfer (stored (G threeStops) 2 0)
                   then Rel Transfer (- 1)
              else Rel Route (- 1)))"
proof -
  have a: "triangular (G threeStops)" by code_simp
  have b: "(1::nat) < 2" by simp
  have c: "2 < length (G threeStops)" by code_simp
  have d: "length (stops threeStops) = length (G threeStops)" by code_simp
  have e0: "(0::nat) < length (G threeStops)" using c by linarith
  have e: "(0::nat) < length (G threeStops)" "(0::nat) \<noteq> 1" "(0::nat) \<noteq> 2"
    using e0 by simp_all
  from merge_unions_relations[OF a b c d, of "\<lambda>a b. a @ b"] a e show ?thesis by blast
qed

subsection \<open>A graph with a single transfer edge\<close>

text \<open>
  A graph as the constructor builds it: \<^verbatim>\<open>numNodes\<close> rows in the triangular layout and one stop
  per node.
\<close>

definition wf_graph :: "'s graph \<Rightarrow> bool" where
  "wf_graph g = (length (G g) = numNodes g \<and> triangular (G g) \<and> length (stops g) = numNodes g)"

text \<open>The only transfer edge of the graph joins \<open>A < B\<close>.\<close>

definition onlyTransfer :: "'s graph \<Rightarrow> nat \<Rightarrow> nat \<Rightarrow> bool" where
  "onlyTransfer g A B =
     (A < B \<and> B < numNodes g \<and> isTransfer (G g ! B ! A)
      \<and> list_all (\<lambda>r. list_all (\<lambda>c. isTransfer (G g ! r ! c) \<longrightarrow> r = B \<and> c = A) [0..<r])
           [0..<numNodes g])"

lemma list_all_upt_nested:
  "list_all (\<lambda>r. list_all (P r) [0..<r]) [0..<n] = (\<forall>r < n. \<forall>c < r. P r c)"
proof -
  have "\<And>r. list_all (P r) [0..<r] = (\<forall>c < r. P r c)"
    by (simp add: list_all_iff Ball_def)
  then show ?thesis
    by (simp add: list_all_iff Ball_def)
qed

lemma onlyTransfer_alt:
  "onlyTransfer g A B =
     (A < B \<and> B < numNodes g \<and> isTransfer (G g ! B ! A)
      \<and> (\<forall>r < numNodes g. \<forall>c < r. isTransfer (G g ! r ! c) \<longrightarrow> r = B \<and> c = A))"
  unfolding onlyTransfer_def list_all_upt_nested ..

lemma concat_map_single:
  assumes "i < n" "\<And>j. j < n \<Longrightarrow> j \<noteq> i \<Longrightarrow> f j = []"
  shows "concat (map f [0..<n]) = f i"
proof -
  have sp: "[0..<n] = [0..<i] @ i # [Suc i..<n]"
    using assms(1) by (metis le_add_diff_inverse less_imp_le_nat upt_add_eq_append upt_conv_Cons zero_le)
  have a: "concat (map f [0..<i]) = []"
    using assms by (simp add: concat_eq_Nil_conv)
  have b: "concat (map f [Suc i..<n]) = []"
    using assms by (simp add: concat_eq_Nil_conv)
  show ?thesis unfolding sp by (simp add: a b del: upt_Suc)
qed

lemma isTransfer_iff: "isTransfer c = (\<exists>w. c = Rel Transfer w)"
  by (auto simp: isTransfer_def split: cell.splits edgeType.splits)

definition cellEdges :: "'s graph \<Rightarrow> nat \<Rightarrow> nat \<Rightarrow> edge list" where
  "cellEdges g i j =
     (case G g ! i ! j of
        Rel Transfer w \<Rightarrow> [\<lparr>etype = Transfer, origin = i, destination = j, weight = w\<rparr>]
      | _ \<Rightarrow> [])"

lemma cellEdges_none: "\<not> isTransfer (G g ! i ! j) \<Longrightarrow> cellEdges g i j = []"
  by (cases "G g ! i ! j" rule: cell.exhaust)
     (auto simp: cellEdges_def isTransfer_def split: edgeType.splits)

lemma getTransferEdges_cellEdges:
  "getTransferEdges g =
     concat (map (\<lambda>i. concat (map (cellEdges g i) [0..<length (G g ! i)])) [0..<length (G g)])"
  unfolding getTransferEdges_def cellEdges_def ..

lemma getTransferEdges_only:
  assumes wf: "wf_graph g" and only: "onlyTransfer g A B"
  shows "\<exists>w. getTransferEdges g = [\<lparr>etype = Transfer, origin = B, destination = A, weight = w\<rparr>]"
proof -
  let ?N = "numNodes g"
  have len: "length (G g) = ?N" using wf by (simp add: wf_graph_def)
  have tri: "triangular (G g)" using wf by (simp add: wf_graph_def)
  have rl: "\<And>r. r < ?N \<Longrightarrow> length (G g ! r) = r"
    using triangularD(1)[OF tri] len by simp
  have AB: "A < B" "B < ?N" using only by (simp_all add: onlyTransfer_alt)
  obtain w where w: "G g ! B ! A = Rel Transfer w"
    using only unfolding onlyTransfer_alt isTransfer_iff by blast
  have none: "\<And>r c. r < ?N \<Longrightarrow> c < r \<Longrightarrow> \<not> (r = B \<and> c = A) \<Longrightarrow> cellEdges g r c = []"
  proof -
    fix r c assume a: "r < ?N" "c < r" "\<not> (r = B \<and> c = A)"
    have "\<not> isTransfer (G g ! r ! c)"
      using only a unfolding onlyTransfer_alt by blast
    then show "cellEdges g r c = []" by (rule cellEdges_none)
  qed
  have rowB: "concat (map (cellEdges g B) [0..<length (G g ! B)]) = cellEdges g B A"
    unfolding rl[OF AB(2)]
  proof (rule concat_map_single)
    show "A < B" by (rule AB(1))
  next
    fix j assume "j < B" "j \<noteq> A"
    then show "cellEdges g B j = []" using none[OF AB(2), of j] by simp
  qed
  have rows: "\<And>r. r < ?N \<Longrightarrow> r \<noteq> B \<Longrightarrow>
                concat (map (cellEdges g r) [0..<length (G g ! r)]) = []"
  proof -
    fix r assume r: "r < ?N" "r \<noteq> B"
    have "\<forall>c \<in> set [0..<r]. cellEdges g r c = []"
      using none[OF r(1)] r(2) by simp
    then show "concat (map (cellEdges g r) [0..<length (G g ! r)]) = []"
      unfolding rl[OF r(1)] by (simp add: concat_eq_Nil_conv)
  qed
  have "concat (map (\<lambda>i. concat (map (cellEdges g i) [0..<length (G g ! i)])) [0..<?N])
          = concat (map (cellEdges g B) [0..<length (G g ! B)])"
    using AB(2) rows by (rule concat_map_single)
  then have "getTransferEdges g = cellEdges g B A"
    unfolding getTransferEdges_cellEdges len rowB .
  then show ?thesis by (simp add: cellEdges_def w)
qed

lemma length_emptyMatrix [simp]: "length (emptyMatrix n) = n"
  by (simp add: emptyMatrix_def)

lemma emptyMatrix_nth [simp]: "r < n \<Longrightarrow> emptyMatrix n ! r = replicate r Zero"
  by (simp add: emptyMatrix_def)

text \<open>The transfer graph of a graph whose only transfer edge joins \<open>A < B\<close>.\<close>

lemma relation_single:
  assumes "A < B" "B < n"
  shows "relation (TransitGraph [\<lparr>etype = Transfer, origin = B, destination = A, weight = w\<rparr>] n st) u v
           = (if (u = A \<and> v = B) \<or> (u = B \<and> v = A) then Rel Transfer w else Zero)"
proof -
  let ?M = "(emptyMatrix n)[B := (replicate B Zero)[A := Rel Transfer w]]"
  have G: "G (TransitGraph [\<lparr>etype = Transfer, origin = B, destination = A, weight = w\<rparr>] n st) = ?M"
    using assms by (simp add: TransitGraph_def storeEdge_def Let_def max_def min_def)
  have cell: "\<And>r c. r < n \<Longrightarrow> c < r \<Longrightarrow> ?M ! r ! c = (if r = B \<and> c = A then Rel Transfer w else Zero)"
  proof -
    fix r c assume "r < n" "c < r"
    then show "?M ! r ! c = (if r = B \<and> c = A then Rel Transfer w else Zero)"
      using assms by (cases "r = B"; cases "c = A") simp_all
  qed
  have len: "length ?M = n" "\<And>r. r < n \<Longrightarrow> length (?M ! r) = r"
  proof -
    show "length ?M = n" by simp
    fix r assume "r < n"
    then show "length (?M ! r) = r" by (cases "r = B") simp_all
  qed
  show ?thesis
  proof (cases "u = v")
    case True
    then show ?thesis using assms by (simp add: relation_def)
  next
    case False
    define r where "r = max u v"
    define c where "c = min u v"
    have rc: "c < r" using False by (auto simp: r_def c_def)
    show ?thesis
    proof (cases "r < n")
      case True
      then have "relation (TransitGraph [\<lparr>etype = Transfer, origin = B, destination = A, weight = w\<rparr>] n st) u v
                   = ?M ! r ! c"
        using False rc len unfolding relation_def G r_def[symmetric] c_def[symmetric] by simp
      also have "\<dots> = (if r = B \<and> c = A then Rel Transfer w else Zero)"
        using cell[OF True rc] .
      also have "(r = B \<and> c = A) = ((u = A \<and> v = B) \<or> (u = B \<and> v = A))"
        using assms(1) by (auto simp: r_def c_def max_def min_def)
      finally show ?thesis .
    next
      case False
      then have "relation (TransitGraph [\<lparr>etype = Transfer, origin = B, destination = A, weight = w\<rparr>] n st) u v
                   = Zero"
        using \<open>u \<noteq> v\<close> len unfolding relation_def G r_def[symmetric] c_def[symmetric] by simp
      moreover have "\<not> ((u = A \<and> v = B) \<or> (u = B \<and> v = A))"
        using False assms by (auto simp: r_def)
      ultimately show ?thesis by simp
    qed
  qed
qed

lemma edgeExists_single:
  assumes "A < B" "B < n"
  shows "edgeExists (TransitGraph [\<lparr>etype = Transfer, origin = B, destination = A, weight = w\<rparr>] n st) u v
           = ((u = A \<and> v = B) \<or> (u = B \<and> v = A))"
  by (simp add: edgeExists_def relation_single[OF assms])

lemma dfsNeighbours_none:
  "(\<And>i. i \<in> set ixs \<Longrightarrow> \<not> (edgeExists g node i \<and> \<not> marked D i)) \<Longrightarrow>
   dfsNeighbours fuel g node ixs (D, tr) = Some (D, tr)"
  by (induction ixs) auto

lemma dfsNeighbours_append:
  "dfsNeighbours fuel g node (xs @ ys) st =
     (case dfsNeighbours fuel g node xs st of
        None \<Rightarrow> None
      | Some st' \<Rightarrow> dfsNeighbours fuel g node ys st')"
proof (induction xs arbitrary: st)
  case Nil
  then show ?case by simp
next
  case (Cons i xs)
  obtain D tr where st: "st = (D, tr)" by (cases st)
  show ?case
    unfolding st by (simp add: Cons.IH split: option.splits)
qed

lemma marked_replicate_False [simp]: "\<not> marked (replicate n False) i"
  by (simp add: marked_def)

lemma visitedNodes_snoc_VisitNode: "visitedNodes (tr @ [VisitNode k]) = visitedNodes tr @ [k]"
  by (simp add: visitedNodes_append)

lemma visitedNodes_snoc_other [simp]:
  "visitedNodes (tr @ [Visit e]) = visitedNodes tr"
  "visitedNodes (tr @ [Leave e]) = visitedNodes tr"
  "visitedNodes (tr @ [Summary s]) = visitedNodes tr"
  by (simp_all add: visitedNodes_append)

text \<open>Depth-first search in a graph with the single edge between \<open>A\<close> and \<open>B\<close>.\<close>

lemma dfs_single_other:
  assumes e: "\<And>u v. edgeExists g u v = ((u = A \<and> v = B) \<or> (u = B \<and> v = A))"
    and k: "k \<noteq> A" "k \<noteq> B"
  shows "\<exists>tr. dfs g k = Some tr \<and> visitedNodes tr = [k]"
proof -
  let ?D0 = "replicate (numNodes g) False"
  have "dfsNeighbours (numNodes g) g k [0..<numNodes g] (mark ?D0 k, [VisitNode k])
          = Some (mark ?D0 k, [VisitNode k])"
    using k by (intro dfsNeighbours_none) (simp add: e)
  then have "dfs g k = Some ([VisitNode k] @ [Summary (StationsVisited (length (visitedNodes [VisitNode k])))])"
    by (simp add: dfs_def truthy_def)
  then show ?thesis by simp
qed

lemma dfs_single_A:
  assumes e: "\<And>u v. edgeExists g u v = ((u = A \<and> v = B) \<or> (u = B \<and> v = A))"
    and AB: "A < B" "B < numNodes g"
  shows "\<exists>tr. dfs g A = Some tr \<and> visitedNodes tr = [A, B]"
proof -
  define N where "N = numNodes g"
  define D0 where "D0 = replicate N False"
  define D1 where "D1 = mark D0 A"
  define D2 where "D2 = mark D1 B"
  obtain fuel where fuel: "N = Suc fuel" using AB unfolding N_def by (cases "numNodes g") auto
  have m1: "\<And>i. marked D1 i = (i = A)" by (auto simp: D1_def D0_def marked_mark)
  have m2: "\<And>i. marked D2 i = (i = A \<or> i = B)" by (auto simp: D2_def m1 marked_mark)
  have sp: "[0..<numNodes g] = [0..<B] @ B # [Suc B..<numNodes g]"
    using AB(2) by (metis le_add_diff_inverse less_imp_le_nat upt_add_eq_append upt_conv_Cons zero_le)
  \<comment> \<open>the nested call on \<open>B\<close>\<close>
  have nB: "\<And>tr. dfsNeighbours fuel g B [0..<numNodes g] (D2, tr) = Some (D2, tr)"
    by (intro dfsNeighbours_none) (auto simp: e m2)
  have eB: "\<exists>trB. dfsExplore N g B (Some A) (D1, [VisitNode A]) = Some (D2, trB)
              \<and> visitedNodes trB = [A, B]"
  proof (cases "truthy (Some A)")
    case True
    have "dfsExplore (Suc fuel) g B (Some A) (D1, [VisitNode A])
            = Some (D2, [VisitNode A, Visit (createEdge g A B), VisitNode B, Leave (createEdge g B A)])"
      using True nB[of "[VisitNode A, Visit (createEdge g A B), VisitNode B]"]
      by (simp add: D2_def)
    then show ?thesis unfolding fuel by simp
  next
    case False
    have "dfsExplore (Suc fuel) g B (Some A) (D1, [VisitNode A])
            = Some (D2, [VisitNode A, VisitNode B])"
      using False nB[of "[VisitNode A, VisitNode B]"]
      by (simp add: D2_def)
    then show ?thesis unfolding fuel by simp
  qed
  then obtain trB where eB': "dfsExplore N g B (Some A) (D1, [VisitNode A]) = Some (D2, trB)"
    and vB: "visitedNodes trB = [A, B]" by blast
  \<comment> \<open>the loop of \<open>A\<close>\<close>
  have l1: "dfsNeighbours N g A [0..<B] (D1, [VisitNode A]) = Some (D1, [VisitNode A])"
    by (intro dfsNeighbours_none) (auto simp: e)
  have l3: "dfsNeighbours N g A [Suc B..<numNodes g] (D2, trB) = Some (D2, trB)"
    by (intro dfsNeighbours_none) (auto simp: e)
  have l2: "dfsNeighbours N g A (B # [Suc B..<numNodes g]) (D1, [VisitNode A]) = Some (D2, trB)"
    using AB by (simp add: e m1 eB' l3 del: dfsExplore.simps)
  have l: "dfsNeighbours N g A [0..<numNodes g] (D1, [VisitNode A]) = Some (D2, trB)"
    unfolding sp dfsNeighbours_append l1 using l2 by simp
  have "dfsExplore (Suc N) g A None (D0, []) = Some (D2, trB)"
    using l by (simp add: truthy_def D1_def del: dfsNeighbours.simps)
  then have "dfs g A = Some (trB @ [Summary (StationsVisited (length (visitedNodes trB)))])"
    unfolding dfs_def N_def[symmetric] D0_def[symmetric] by simp
  then show ?thesis using vB by simp
qed

lemma groupNodes_append:
  "groupNodes tg (xs @ ys) acc =
     (case groupNodes tg xs acc of None \<Rightarrow> None | Some acc' \<Rightarrow> groupNodes tg ys acc')"
proof (induction xs arbitrary: acc)
  case Nil
  then show ?case by simp
next
  case (Cons x xs)
  obtain seen groups where acc: "acc = (seen, groups)" by (cases acc)
  show ?case unfolding acc by (simp add: Cons.IH split: option.splits)
qed

lemma groupNodes_before:
  assumes e: "\<And>u v. edgeExists g u v = ((u = A \<and> v = B) \<or> (u = B \<and> v = A))"
    and AB: "A < B" and k: "k \<le> A"
  shows "groupNodes g [0..<k] ([], []) = Some ([0..<k], map (\<lambda>i. [i]) [0..<k])"
  using k
proof (induction k)
  case 0
  then show ?case by simp
next
  case (Suc k)
  then have IH: "groupNodes g [0..<k] ([], []) = Some ([0..<k], map (\<lambda>i. [i]) [0..<k])" by simp
  have "k \<noteq> A" "k \<noteq> B" using Suc.prems AB by simp_all
  from dfs_single_other[OF e this] obtain tr where tr: "dfs g k = Some tr" "visitedNodes tr = [k]"
    by blast
  have "groupNodes g [k] ([0..<k], map (\<lambda>i. [i]) [0..<k])
          = Some ([0..<k] @ [k], map (\<lambda>i. [i]) [0..<k] @ [[k]])"
    by (simp add: tr)
  then show ?case
    by (simp add: groupNodes_append IH del: groupNodes.simps)
qed

lemma groupNodes_after:
  assumes e: "\<And>u v. edgeExists g u v = ((u = A \<and> v = B) \<or> (u = B \<and> v = A))"
    and seen: "A \<in> set seen" "B \<in> set seen"
  shows "\<exists>seen' more. groupNodes g ks (seen, groups) = Some (seen', groups @ more)"
  using seen
proof (induction ks arbitrary: seen groups)
  case Nil
  then show ?case by simp
next
  case (Cons k ks)
  show ?case
  proof (cases "k \<in> set seen")
    case True
    then show ?thesis using Cons.IH[OF Cons.prems, of groups] by simp
  next
    case False
    then have "k \<noteq> A" "k \<noteq> B" using Cons.prems by auto
    from dfs_single_other[OF e this] obtain tr where tr: "dfs g k = Some tr" "visitedNodes tr = [k]"
      by blast
    have "A \<in> set (seen @ [k])" "B \<in> set (seen @ [k])" using Cons.prems by simp_all
    from Cons.IH[OF this, of "groups @ [[k]]"] obtain seen' more where
      "groupNodes g ks (seen @ [k], groups @ [[k]]) = Some (seen', (groups @ [[k]]) @ more)" by blast
    then have "groupNodes g (k # ks) (seen, groups) = Some (seen', groups @ ([k] # more))"
      using False by (simp add: tr)
    then show ?thesis by blast
  qed
qed

lemma groupNodes_single:
  assumes e: "\<And>u v. edgeExists g u v = ((u = A \<and> v = B) \<or> (u = B \<and> v = A))"
    and AB: "A < B" "B < numNodes g" "B < n"
  shows "\<exists>seen groups. groupNodes g [0..<n] ([], []) = Some (seen, groups)
           \<and> (\<exists>rest. filter (\<lambda>e. length e > 1) groups = [A, B] # rest)"
proof -
  have An: "A < n" using AB by simp
  have sp: "[0..<n] = [0..<A] @ A # [Suc A..<n]"
    using An by (metis le_add_diff_inverse less_imp_le_nat upt_add_eq_append upt_conv_Cons zero_le)
  let ?s0 = "[0..<A]" and ?g0 = "map (\<lambda>i. [i]) [0..<A]"
  have b: "groupNodes g [0..<A] ([], []) = Some (?s0, ?g0)"
    by (rule groupNodes_before[OF e AB(1) le_refl])
  from dfs_single_A[OF e AB(1,2)] obtain tr where tr: "dfs g A = Some tr" "visitedNodes tr = [A, B]"
    by blast
  from groupNodes_after[OF e, of "?s0 @ [A, B]" "[Suc A..<n]" "?g0 @ [[A, B]]"]
  obtain seen' more where
    a: "groupNodes g [Suc A..<n] (?s0 @ [A, B], ?g0 @ [[A, B]]) = Some (seen', (?g0 @ [[A, B]]) @ more)"
    by auto
  have "groupNodes g (A # [Suc A..<n]) (?s0, ?g0) = Some (seen', (?g0 @ [[A, B]]) @ more)"
    using a by (simp add: tr)
  then have "groupNodes g [0..<n] ([], []) = Some (seen', (?g0 @ [[A, B]]) @ more)"
    unfolding sp groupNodes_append b by simp
  moreover have "filter (\<lambda>e. length e > 1) ((?g0 @ [[A, B]]) @ more)
                   = [A, B] # filter (\<lambda>e. length e > 1) more"
    by (simp add: filter_map comp_def)
  ultimately show ?thesis by blast
qed

definition cellEdge :: "nat \<Rightarrow> nat \<Rightarrow> cell \<Rightarrow> edge list" where
  "cellEdge i j c =
     (case c of Rel t w \<Rightarrow> [\<lparr>etype = t, origin = i, destination = j, weight = w\<rparr>] | _ \<Rightarrow> [])"

definition edgeListOf :: "cell list list \<Rightarrow> edge list" where
  "edgeListOf T =
     concat (map (\<lambda>i. concat (map (\<lambda>j. cellEdge i j (T ! i ! j)) [0..<i])) [0..<length T])"

lemma edgesOfRow_edgeCells:
  "(\<And>j. j \<in> set js \<Longrightarrow> j < length row \<and> edgeCell (row ! j)) \<Longrightarrow>
   edgesOfRow i row js acc = Inr (acc @ concat (map (\<lambda>j. cellEdge i j (row ! j)) js))"
proof (induction js arbitrary: acc)
  case Nil
  then show ?case by simp
next
  case (Cons j js)
  have j: "j < length row" "edgeCell (row ! j)" using Cons.prems[of j] by simp_all
  have IH: "\<And>acc. edgesOfRow i row js acc = Inr (acc @ concat (map (\<lambda>j. cellEdge i j (row ! j)) js))"
    using Cons.prems by (intro Cons.IH) simp
  show ?case
    using j by (cases "row ! j" rule: cell.exhaust)
               (simp_all add: IH cellGet_def cellEdge_def edgeCell_def)
qed

lemma edgesOfRows_triangular:
  assumes "triangular T" "set ixs \<subseteq> {..<length T}"
  shows "edgesOfRows T ixs acc
           = Inr (acc @ concat (map (\<lambda>i. concat (map (\<lambda>j. cellEdge i j (T ! i ! j)) [0..<i])) ixs))"
  using assms(2)
proof (induction ixs arbitrary: acc)
  case Nil
  then show ?case by simp
next
  case (Cons i ixs)
  have i: "i < length T" using Cons.prems by simp
  have "edgesOfRow i (T ! i) [0..<i] acc
          = Inr (acc @ concat (map (\<lambda>j. cellEdge i j (T ! i ! j)) [0..<i]))"
    using triangularD[OF assms(1) i] by (intro edgesOfRow_edgeCells) simp
  moreover have "set ixs \<subseteq> {..<length T}" using Cons.prems by simp
  ultimately show ?case by (simp add: Cons.IH)
qed

lemma edgesOfRows_edgeListOf:
  "triangular T \<Longrightarrow> edgesOfRows T [0..<length T] [] = Inr (edgeListOf T)"
proof -
  assume t: "triangular T"
  have "set [0..<length T] \<subseteq> {..<length T}" by auto
  from edgesOfRows_triangular[OF t this, of "[]"] show ?thesis
    by (simp add: edgeListOf_def)
qed

lemma in_edgeListOf:
  "e \<in> set (edgeListOf T) \<longleftrightarrow>
     (\<exists>i j t w. j < i \<and> i < length T \<and> T ! i ! j = Rel t w
                \<and> e = \<lparr>etype = t, origin = i, destination = j, weight = w\<rparr>)"
proof
  assume "e \<in> set (edgeListOf T)"
  then obtain i j where ij: "i < length T" "j < i" "e \<in> set (cellEdge i j (T ! i ! j))"
    by (auto simp: edgeListOf_def)
  then show "\<exists>i j t w. j < i \<and> i < length T \<and> T ! i ! j = Rel t w
                \<and> e = \<lparr>etype = t, origin = i, destination = j, weight = w\<rparr>"
    by (cases "T ! i ! j" rule: cell.exhaust) (auto simp: cellEdge_def)
next
  assume "\<exists>i j t w. j < i \<and> i < length T \<and> T ! i ! j = Rel t w
                \<and> e = \<lparr>etype = t, origin = i, destination = j, weight = w\<rparr>"
  then obtain i j t w where ij: "j < i" "i < length T" "T ! i ! j = Rel t w"
    "e = \<lparr>etype = t, origin = i, destination = j, weight = w\<rparr>" by blast
  then have "e \<in> set (cellEdge i j (T ! i ! j))" by (simp add: cellEdge_def)
  then have 1: "e \<in> (\<Union>j \<in> set [0..<i]. set (cellEdge i j (T ! i ! j)))"
    using ij(1) by (intro UN_I[of j]) simp_all
  have 2: "e \<in> set (concat (map (\<lambda>j. cellEdge i j (T ! i ! j)) [0..<i]))"
    using 1 by simp
  have 3: "e \<in> (\<Union>i \<in> set [0..<length T].
               set (concat (map (\<lambda>j. cellEdge i j (T ! i ! j)) [0..<i])))"
    using 2 ij(2) by (intro UN_I[of i]) simp_all
  show "e \<in> set (edgeListOf T)"
    unfolding edgeListOf_def using 3 by simp
qed

lemma storeEdge_upd2:
  "destination e < origin e \<Longrightarrow> origin e < length M \<Longrightarrow>
   storeEdge M e = upd2 M (origin e) (destination e) (Rel (etype e) (weight e))"
  by (simp add: storeEdge_def Let_def upd2_def max_def min_def)

lemma foldl_storeEdge_cells:
  assumes "\<And>e. e \<in> set es \<Longrightarrow> destination e < origin e \<and> origin e < length M0
                \<and> T ! origin e ! destination e = Rel (etype e) (weight e)"
  shows "sameShape (foldl storeEdge M0 es) M0
       \<and> (\<forall>r c. r < length M0 \<longrightarrow> c < length (M0 ! r) \<longrightarrow>
             foldl storeEdge M0 es ! r ! c =
               (if \<exists>e \<in> set es. origin e = r \<and> destination e = c then T ! r ! c else M0 ! r ! c))"
  using assms
proof (induction es rule: rev_induct)
  case Nil
  then show ?case by simp
next
  case (snoc e es)
  let ?M = "foldl storeEdge M0 es"
  have IH: "sameShape ?M M0"
    "\<And>r c. r < length M0 \<Longrightarrow> c < length (M0 ! r) \<Longrightarrow>
        ?M ! r ! c = (if \<exists>e \<in> set es. origin e = r \<and> destination e = c then T ! r ! c else M0 ! r ! c)"
    using snoc.IH snoc.prems by auto
  have e: "destination e < origin e" "origin e < length M0"
    "T ! origin e ! destination e = Rel (etype e) (weight e)"
    using snoc.prems[of e] by simp_all
  have len: "length ?M = length M0" "\<And>r. r < length M0 \<Longrightarrow> length (?M ! r) = length (M0 ! r)"
    using sameShapeD[OF IH(1)] by simp_all
  have st: "foldl storeEdge M0 (es @ [e])
              = upd2 ?M (origin e) (destination e) (Rel (etype e) (weight e))"
    using e len by (simp add: storeEdge_upd2)
  have "sameShape (foldl storeEdge M0 (es @ [e])) M0"
    unfolding st using IH(1) by simp
  moreover have "\<forall>r c. r < length M0 \<longrightarrow> c < length (M0 ! r) \<longrightarrow>
             foldl storeEdge M0 (es @ [e]) ! r ! c =
               (if \<exists>e' \<in> set (es @ [e]). origin e' = r \<and> destination e' = c
                then T ! r ! c else M0 ! r ! c)"
  proof (intro allI impI)
    fix r c assume rc: "r < length M0" "c < length (M0 ! r)"
    have "foldl storeEdge M0 (es @ [e]) ! r ! c
            = (if r = origin e \<and> c = destination e then Rel (etype e) (weight e) else ?M ! r ! c)"
      unfolding st using rc len by (simp add: upd2_nth)
    also have "\<dots> = (if \<exists>e' \<in> set (es @ [e]). origin e' = r \<and> destination e' = c
                then T ! r ! c else M0 ! r ! c)"
      using IH(2)[OF rc] e(3) by auto
    finally show "foldl storeEdge M0 (es @ [e]) ! r ! c =
               (if \<exists>e' \<in> set (es @ [e]). origin e' = r \<and> destination e' = c
                then T ! r ! c else M0 ! r ! c)" .
  qed
  ultimately show ?case by blast
qed

lemma edgeCell_cases: "edgeCell c \<Longrightarrow> c = Zero \<or> (\<exists>t w. c = Rel t w)"
  by (cases c rule: cell.exhaust) (auto simp: edgeCell_def)

lemma TransitGraph_edgeListOf:
  assumes tri: "triangular T"
  shows "G (TransitGraph (edgeListOf T) (length T) st) = T"
proof -
  let ?n = "length T"
  let ?M = "foldl storeEdge (emptyMatrix ?n) (edgeListOf T)"
  have pre: "\<And>e. e \<in> set (edgeListOf T) \<Longrightarrow> destination e < origin e
                \<and> origin e < length (emptyMatrix ?n)
                \<and> T ! origin e ! destination e = Rel (etype e) (weight e)"
    by (auto simp: in_edgeListOf)
  from foldl_storeEdge_cells[of "edgeListOf T" "emptyMatrix ?n" T, OF pre]
  have sh: "sameShape ?M (emptyMatrix ?n)"
    and cells: "\<And>r c. r < ?n \<Longrightarrow> c < r \<Longrightarrow>
        ?M ! r ! c = (if \<exists>e \<in> set (edgeListOf T). origin e = r \<and> destination e = c
                      then T ! r ! c else Zero)"
    by auto
  have len: "length ?M = ?n" "\<And>r. r < ?n \<Longrightarrow> length (?M ! r) = r"
    using sameShapeD[OF sh] by simp_all
  have "?M = T"
  proof (rule nth_equalityI)
    show "length ?M = length T" by (rule len(1))
  next
    fix r assume "r < length ?M"
    then have r: "r < ?n" using len(1) by simp
    show "?M ! r = T ! r"
    proof (rule nth_equalityI)
      show "length (?M ! r) = length (T ! r)"
        using len(2)[OF r] triangularD(1)[OF tri r] by simp
    next
      fix c assume "c < length (?M ! r)"
      then have c: "c < r" using len(2)[OF r] by simp
      from edgeCell_cases[OF triangularD(2)[OF tri r c]]
      show "?M ! r ! c = T ! r ! c"
      proof
        assume z: "T ! r ! c = Zero"
        then have "\<not> (\<exists>e \<in> set (edgeListOf T). origin e = r \<and> destination e = c)"
          by (auto simp: in_edgeListOf)
        then show ?thesis using cells[OF r c] z by simp
      next
        assume "\<exists>t w. T ! r ! c = Rel t w"
        then obtain t w where "T ! r ! c = Rel t w" by blast
        then have "\<lparr>etype = t, origin = r, destination = c, weight = w\<rparr> \<in> set (edgeListOf T)"
          using r c unfolding in_edgeListOf by blast
        then have "\<exists>e \<in> set (edgeListOf T). origin e = r \<and> destination e = c"
          by (intro bexI[of _ "\<lparr>etype = t, origin = r, destination = c, weight = w\<rparr>"]) simp_all
        then show ?thesis using cells[OF r c] by simp
      qed
    qed
  qed
  then show ?thesis by (simp add: TransitGraph_def)
qed

lemma triangularI:
  assumes "\<And>r. r < length M \<Longrightarrow> length (M ! r) = r"
    and "\<And>r c. r < length M \<Longrightarrow> c < r \<Longrightarrow> edgeCell (M ! r ! c)"
  shows "triangular M"
  unfolding triangular_def list_all_iff
proof (intro ballI conjI)
  fix r assume "r \<in> set [0..<length M]"
  then have r: "r < length M" by simp
  show "length (M ! r) = r" by (rule assms(1)[OF r])
  fix c assume "c \<in> set (M ! r)"
  then obtain i where "i < length (M ! r)" "M ! r ! i = c" by (auto simp: in_set_conv_nth)
  then show "edgeCell c" using assms(1)[OF r] assms(2)[OF r, of i] by auto
qed

lemma length_survivors_newIndex:
  assumes "lo < hi"
  shows "length (survivors lo hi r) = newIndex lo hi r"
proof -
  consider (a) "r \<le> lo" | (b) "lo < r" "r \<le> hi" | (c) "hi < r" by linarith
  then show ?thesis
  proof cases
    case a
    then have "survivors lo hi r = [0..<r]"
      using assms unfolding survivors_def by (intro filter_True) auto
    then show ?thesis using a assms by (simp add: newIndex_def)
  next
    case b
    have sp: "[0..<r] = [0..<lo] @ lo # [Suc lo..<r]"
      using b(1) by (metis le_add_diff_inverse less_imp_le_nat upt_add_eq_append upt_conv_Cons zero_le)
    have f1: "filter (\<lambda>k. k \<noteq> lo \<and> k \<noteq> hi) [0..<lo] = [0..<lo]"
      using assms by (intro filter_True) auto
    have f2: "filter (\<lambda>k. k \<noteq> lo \<and> k \<noteq> hi) [Suc lo..<r] = [Suc lo..<r]"
      using b by (intro filter_True) auto
    have "survivors lo hi r = [0..<lo] @ [Suc lo..<r]"
      unfolding survivors_def sp by (simp add: f1 f2 del: upt_Suc)
    then show ?thesis using b assms by (simp add: newIndex_def)
  next
    case c
    then show ?thesis using assms by (simp add: survivors_split newIndex_def)
  qed
qed

lemma survivors_member:
  "k \<in> set (survivors lo hi n) \<longleftrightarrow> k < n \<and> k \<noteq> lo \<and> k \<noteq> hi"
  by (auto simp: survivors_def)

lemma distinct_survivors [simp]: "distinct (survivors lo hi n)"
  by (simp add: survivors_def)

lemma survivors_index:
  assumes "lo < hi" "hi < n" "j < n - 2"
  shows "survivors lo hi n ! j < n \<and> survivors lo hi n ! j \<noteq> lo \<and> survivors lo hi n ! j \<noteq> hi
         \<and> newIndex lo hi (survivors lo hi n ! j) = j"
proof -
  let ?S = "survivors lo hi n"
  let ?r = "?S ! j"
  have jl: "j < length ?S" using assms by (simp add: length_survivors)
  then have "?r \<in> set ?S" by simp
  then have r: "?r < n" "?r \<noteq> lo" "?r \<noteq> hi" by (simp_all add: survivors_member)
  from survivors_nth[OF assms(1,2) r]
  have i: "newIndex lo hi ?r < n - 2" "?S ! newIndex lo hi ?r = ?r" by auto
  have "newIndex lo hi ?r = j"
    using i jl assms by (simp add: nth_eq_iff_index_eq length_survivors)
  with r show ?thesis by simp
qed

lemma length_mergedRows: "lo < hi \<Longrightarrow> hi < length M \<Longrightarrow> length (mergedRows lo hi M) = length M - 1"
  by (simp add: mergedRows_def length_survivors)

lemma mergedRows_row:
  assumes "lo < hi" "hi < length M" "j < length M - 2"
  shows "mergedRows lo hi M ! j
           = map (\<lambda>c. M ! (survivors lo hi (length M) ! j) ! c)
                 (survivors lo hi (survivors lo hi (length M) ! j))"
  using assms by (simp add: mergedRows_def nth_append length_survivors)

lemma mergedRows_last:
  assumes "lo < hi" "hi < length M"
  shows "mergedRows lo hi M ! (length M - 2)
           = map (\<lambda>k. unionedRelation (stored M lo k) (stored M hi k)) (survivors lo hi (length M))"
  using assms by (simp add: mergedRows_def nth_append length_survivors)

lemma mergedRows_cell:
  assumes lohi: "lo < hi" "hi < length M" and j: "j < length M - 2" and c: "c < j"
  shows "\<exists>r c'. r < length M \<and> c' < r \<and> r \<noteq> lo \<and> r \<noteq> hi \<and> mergedRows lo hi M ! j ! c = M ! r ! c'"
proof -
  let ?r = "survivors lo hi (length M) ! j"
  from survivors_index[OF lohi j]
  have r: "?r < length M" "?r \<noteq> lo" "?r \<noteq> hi" "newIndex lo hi ?r = j" by auto
  have l: "length (survivors lo hi ?r) = j"
    using length_survivors_newIndex[OF lohi(1), of ?r] r(4) by simp
  then have "survivors lo hi ?r ! c \<in> set (survivors lo hi ?r)" using c by simp
  then have c': "survivors lo hi ?r ! c < ?r" by (simp add: survivors_member)
  have "mergedRows lo hi M ! j ! c = M ! ?r ! (survivors lo hi ?r ! c)"
    unfolding mergedRows_row[OF lohi j] using l c by simp
  with r c' show ?thesis by blast
qed

lemma triangular_mergedRows:
  assumes tri: "triangular M" and lohi: "lo < hi" "hi < length M"
  shows "triangular (mergedRows lo hi M)"
proof (rule triangularI)
  fix r assume "r < length (mergedRows lo hi M)"
  then have r: "r < length M - 1" using length_mergedRows[OF lohi] by simp
  show "length (mergedRows lo hi M ! r) = r"
  proof (cases "r < length M - 2")
    case True
    from survivors_index[OF lohi True]
    have "newIndex lo hi (survivors lo hi (length M) ! r) = r" by simp
    then show ?thesis
      unfolding mergedRows_row[OF lohi True]
      using length_survivors_newIndex[OF lohi(1), of "survivors lo hi (length M) ! r"] by simp
  next
    case False
    then have "r = length M - 2" using r by linarith
    then show ?thesis using mergedRows_last[OF lohi] lohi by (simp add: length_survivors)
  qed
next
  fix r c assume "r < length (mergedRows lo hi M)" and c: "c < r"
  then have r: "r < length M - 1" using length_mergedRows[OF lohi] by simp
  show "edgeCell (mergedRows lo hi M ! r ! c)"
  proof (cases "r < length M - 2")
    case True
    from mergedRows_cell[OF lohi True c] obtain r' c' where
      "r' < length M" "c' < r'" "mergedRows lo hi M ! r ! c = M ! r' ! c'" by blast
    then show ?thesis using triangularD(2)[OF tri] by simp
  next
    case False
    then have e: "r = length M - 2" using r by linarith
    have "c < length (survivors lo hi (length M))" using c e lohi by (simp add: length_survivors)
    then show ?thesis unfolding e mergedRows_last[OF lohi] by simp
  qed
qed

lemma getTransferEdges_none:
  assumes "\<And>r c. r < length (G g) \<Longrightarrow> c < length (G g ! r) \<Longrightarrow> \<not> isTransfer (G g ! r ! c)"
  shows "getTransferEdges g = []"
proof -
  have "\<And>r. r < length (G g) \<Longrightarrow> concat (map (cellEdges g r) [0..<length (G g ! r)]) = []"
    using assms by (simp add: concat_eq_Nil_conv cellEdges_none)
  then show ?thesis
    unfolding getTransferEdges_cellEdges by (simp add: concat_eq_Nil_conv)
qed

lemma not_isTransfer_unioned:
  "\<not> isTransfer a \<Longrightarrow> \<not> isTransfer b \<Longrightarrow> \<not> isTransfer (unionedRelation a b)"
  by (simp add: unionedRelation_def isTransfer_def)

lemma relation_stored:
  assumes "length (G g) = n" "triangular (G g)" "u < n" "v < n" "u \<noteq> v"
  shows "relation g u v = stored (G g) u v"
proof -
  have m: "max u v < n" "min u v < max u v" using assms by (auto simp: max_def min_def)
  have "length (G g ! max u v) = max u v"
    using triangularD(1)[OF assms(2)] m(1) assms(1) by simp
  then show ?thesis using assms m by (simp add: relation_def stored_def)
qed

text \<open>The graph after the merge of the pair \<open>A < B\<close>.\<close>

definition mergedGraph :: "('s \<Rightarrow> 's \<Rightarrow> 's) \<Rightarrow> nat \<Rightarrow> nat \<Rightarrow> 's graph \<Rightarrow> 's graph" where
  "mergedGraph mw A B g =
     \<lparr>numNodes = numNodes g - 1,
      stops = map ((!) (stops g)) (survivors A B (numNodes g)) @ [mw (stops g ! A) (stops g ! B)],
      G = mergedRows A B (G g)\<rparr>"

lemma mergeStep_single:
  assumes wf: "wf_graph g" and only: "onlyTransfer g A B"
  shows "mergeStep mw g = Some (Inr (mergedGraph mw A B g))"
proof -
  let ?N = "numNodes g"
  have len: "length (G g) = ?N" and tri: "triangular (G g)" and sl: "length (stops g) = ?N"
    using wf by (simp_all add: wf_graph_def)
  have AB: "A < B" "B < ?N" using only by (simp_all add: onlyTransfer_alt)
  from getTransferEdges_only[OF wf only] obtain w where
    te: "getTransferEdges g = [\<lparr>etype = Transfer, origin = B, destination = A, weight = w\<rparr>]" by blast
  let ?tg = "TransitGraph [\<lparr>etype = Transfer, origin = B, destination = A, weight = w\<rparr>] ?N (stops g)"
  have e: "\<And>u v. edgeExists ?tg u v = ((u = A \<and> v = B) \<or> (u = B \<and> v = A))"
    by (rule edgeExists_single[OF AB])
  have ntg: "numNodes ?tg = ?N" by (simp add: TransitGraph_def)
  have ltg: "length (G ?tg) = ?N"
    using AB by (simp add: TransitGraph_def storeEdge_def Let_def)
  from groupNodes_single[of ?tg A B ?N, OF e AB(1)] AB(2) ntg
  obtain seen groups rest where
    gn: "groupNodes ?tg [0..<?N] ([], []) = Some (seen, groups)"
    and fl: "filter (\<lambda>e. length e > 1) groups = [A, B] # rest"
    by auto
  have mt: "mergeTop mw A B (G g, stops g)
              = Inr (mergedRows A B (G g),
                     map ((!) (stops g)) (survivors A B ?N) @ [mw (stops g ! A) (stops g ! B)])"
    using AB len sl tri
    by (simp add: mergeTop_def merge_def mergeStops_closed mergeRows_closed)
  have tm: "triangular (mergedRows A B (G g))"
    using AB len by (intro triangular_mergedRows[OF tri]) simp_all
  have lm: "length (mergedRows A B (G g)) = ?N - 1"
    using AB len by (simp add: length_mergedRows)
  have el: "edgesOfRows (mergedRows A B (G g)) [0..<?N - 1] [] = Inr (edgeListOf (mergedRows A B (G g)))"
    using edgesOfRows_edgeListOf[OF tm] lm by simp
  have tgr: "TransitGraph (edgeListOf (mergedRows A B (G g))) (?N - 1)
               (map ((!) (stops g)) (survivors A B ?N) @ [mw (stops g ! A) (stops g ! B)])
             = mergedGraph mw A B g"
    using TransitGraph_edgeListOf[OF tm] lm
    by (simp add: TransitGraph_def mergedGraph_def)
  have fl': "filter (\<lambda>e. Suc 0 < length e) groups = [A, B] # rest" using fl by simp
  show ?thesis
    unfolding mergeStep_def te Let_def ltg gn
    by (simp add: fl' mt lm el[unfolded One_nat_def] tgr[unfolded One_nat_def])
qed

lemma mergedGraph_no_transfer:
  assumes wf: "wf_graph g" and only: "onlyTransfer g A B"
  shows "getTransferEdges (mergedGraph mw A B g) = []"
proof (rule getTransferEdges_none)
  let ?N = "numNodes g"
  let ?T = "mergedRows A B (G g)"
  have len: "length (G g) = ?N" and tri: "triangular (G g)"
    using wf by (simp_all add: wf_graph_def)
  have AB: "A < B" "B < ?N" using only by (simp_all add: onlyTransfer_alt)
  have lohi: "A < B" "B < length (G g)" using AB len by simp_all
  have nt: "\<And>r c. r < ?N \<Longrightarrow> c < r \<Longrightarrow> \<not> (r = B \<and> c = A) \<Longrightarrow> \<not> isTransfer (G g ! r ! c)"
    using only unfolding onlyTransfer_alt by blast
  have tm: "triangular ?T" by (rule triangular_mergedRows[OF tri lohi])
  have lm: "length ?T = ?N - 1" using length_mergedRows[OF lohi] len by simp
  fix r c
  assume "r < length (G (mergedGraph mw A B g))" "c < length (G (mergedGraph mw A B g) ! r)"
  then have r: "r < ?N - 1" and c: "c < r"
    using lm triangularD(1)[OF tm, of r] by (simp_all add: mergedGraph_def)
  have "\<not> isTransfer (?T ! r ! c)"
  proof (cases "r < ?N - 2")
    case True
    then have "r < length (G g) - 2" using len by simp
    from mergedRows_cell[OF lohi this c] obtain r' c' where
      rc: "r' < length (G g)" "c' < r'" "r' \<noteq> A" "r' \<noteq> B" "?T ! r ! c = G g ! r' ! c'" by blast
    then show ?thesis using nt[of r' c'] len by simp
  next
    case False
    then have e: "r = length (G g) - 2" using r len by linarith
    let ?S = "survivors A B (length (G g))"
    have cl: "c < length ?S" using c e lohi by (simp add: length_survivors)
    then have "?S ! c \<in> set ?S" by simp
    then have k: "?S ! c < ?N" "?S ! c \<noteq> A" "?S ! c \<noteq> B" using len by (simp_all add: survivors_member)
    have s1: "\<not> isTransfer (stored (G g) A (?S ! c))"
      unfolding stored_def using k AB by (intro nt) (auto simp: max_def min_def)
    have s2: "\<not> isTransfer (stored (G g) B (?S ! c))"
      unfolding stored_def using k AB by (intro nt) (auto simp: max_def min_def)
    have "?T ! r ! c = unionedRelation (stored (G g) A (?S ! c)) (stored (G g) B (?S ! c))"
      unfolding e mergedRows_last[OF lohi] using cl by simp
    then show ?thesis using not_isTransfer_unioned[OF s1 s2] by simp
  qed
  then show "\<not> isTransfer (G (mergedGraph mw A B g) ! r ! c)" by (simp add: mergedGraph_def)
qed

text \<open>
  C2.  On a graph whose only transfer edge joins \<open>A < B\<close>, \<^verbatim>\<open>mergeTransferNodes\<close> returns a graph
  with \<^verbatim>\<open>numNodes - 1\<close> nodes and no transfer edge.  Its rows are the surviving rows and the
  row of the merged node, which is the last node; its stops are the surviving stops followed by
  \<^verbatim>\<open>stops[A].mergeWith(stops[B])\<close>; and every surviving node that had a route edge to \<open>A\<close> or
  to \<open>B\<close> has a route edge of weight \<open>-1\<close> to the merged node.
\<close>

theorem merge_single_transfer:
  assumes "wf_graph g" "onlyTransfer g A B"
  shows "\<exists>g'. mergeTransferNodes mw g = Some (Inr (Merged g'))
           \<and> numNodes g' = numNodes g - 1
           \<and> length (G g') = numNodes g - 1
           \<and> G g' = mergedRows A B (G g)
           \<and> getTransferEdges g' = []
           \<and> stops g' = map ((!) (stops g)) (filter (\<lambda>k. k \<noteq> A \<and> k \<noteq> B) [0..<numNodes g])
                          @ [mw (stops g ! A) (stops g ! B)]
           \<and> (\<forall>k < numNodes g. k \<noteq> A \<longrightarrow> k \<noteq> B \<longrightarrow>
                 (\<exists>w. relation g A k = Rel Route w \<or> relation g B k = Rel Route w) \<longrightarrow>
                 relation g' (numNodes g - 2) (newIndex A B k) = Rel Route (- 1))"
proof -
  let ?N = "numNodes g"
  let ?g' = "mergedGraph mw A B g"
  let ?T = "mergedRows A B (G g)"
  have len: "length (G g) = ?N" and tri: "triangular (G g)"
    using assms(1) by (simp_all add: wf_graph_def)
  have AB: "A < B" "B < ?N" using assms(2) by (simp_all add: onlyTransfer_alt)
  have lohi: "A < B" "B < length (G g)" using AB len by simp_all
  have nt: "\<And>r c. r < ?N \<Longrightarrow> c < r \<Longrightarrow> \<not> (r = B \<and> c = A) \<Longrightarrow> \<not> isTransfer (G g ! r ! c)"
    using assms(2) unfolding onlyTransfer_alt by blast
  from getTransferEdges_only[OF assms] have te: "length (getTransferEdges g) > 0" by auto
  have ms: "mergeStep mw g = Some (Inr ?g')" by (rule mergeStep_single[OF assms])
  have nt': "getTransferEdges ?g' = []" by (rule mergedGraph_no_transfer[OF assms])
  have "mergeLoop mw ?g' = Some (Inr ?g')"
    by (subst mergeLoop.simps) (simp add: nt')
  then have "mergeLoop mw g = Some (Inr ?g')"
    using te ms by (subst mergeLoop.simps) simp
  then have r: "mergeTransferNodes mw g = Some (Inr (Merged ?g'))"
    using te by (simp add: mergeTransferNodes_def)
  have lm: "length ?T = ?N - 1" using length_mergedRows[OF lohi] len by simp
  have tm: "triangular ?T" by (rule triangular_mergedRows[OF tri lohi])
  have route: "\<forall>k < ?N. k \<noteq> A \<longrightarrow> k \<noteq> B \<longrightarrow>
                 (\<exists>w. relation g A k = Rel Route w \<or> relation g B k = Rel Route w) \<longrightarrow>
                 relation ?g' (?N - 2) (newIndex A B k) = Rel Route (- 1)"
  proof (intro allI impI)
    fix k assume k: "k < ?N" "k \<noteq> A" "k \<noteq> B"
      and ex: "\<exists>w. relation g A k = Rel Route w \<or> relation g B k = Rel Route w"
    have ra: "relation g A k = stored (G g) A k" "relation g B k = stored (G g) B k"
      using relation_stored[OF len tri] AB k by simp_all
    have s1: "\<not> isTransfer (stored (G g) A k)"
      unfolding stored_def using k AB by (intro nt) (auto simp: max_def min_def)
    have s2: "\<not> isTransfer (stored (G g) B k)"
      unfolding stored_def using k AB by (intro nt) (auto simp: max_def min_def)
    have nz: "\<not> (stored (G g) A k = Zero \<and> stored (G g) B k = Zero)"
      using ex ra by auto
    have u: "unionedRelation (stored (G g) A k) (stored (G g) B k) = Rel Route (- 1)"
      using s1 s2 nz by (simp add: unionedRelation_def)
    from survivors_nth[OF lohi, of k] k len
    have i: "newIndex A B k < ?N - 2" "survivors A B (length (G g)) ! newIndex A B k = k" by auto
    have cellv: "?T ! (?N - 2) ! newIndex A B k = Rel Route (- 1)"
      using mergedRows_last[OF lohi] i lohi len u by (simp add: length_survivors)
    have N2: "?N - 2 < length ?T" using lm AB by linarith
    have rl: "length (?T ! (?N - 2)) = ?N - 2" using triangularD(1)[OF tm N2] .
    have "relation ?g' (?N - 2) (newIndex A B k) = ?T ! (?N - 2) ! newIndex A B k"
      using i(1) N2 rl by (simp add: relation_def mergedGraph_def max_def min_def)
    then show "relation ?g' (?N - 2) (newIndex A B k) = Rel Route (- 1)"
      using cellv by simp
  qed
  have "numNodes ?g' = ?N - 1" "G ?g' = ?T"
    "stops ?g' = map ((!) (stops g)) (filter (\<lambda>k. k \<noteq> A \<and> k \<noteq> B) [0..<?N])
                          @ [mw (stops g ! A) (stops g ! B)]"
    by (simp_all add: mergedGraph_def survivors_def)
  with r nt' lm route show ?thesis
    by (intro exI[of _ ?g']) simp
qed

definition joinStops :: "string \<Rightarrow> string \<Rightarrow> string" where
  "joinStops a b = a @ ''+'' @ b"

text \<open>
  The scenario of the spec: after the merge two nodes remain, the merged node has one route
  edge of weight \<open>-1\<close> to node 0, no transfer edge remains, and the merged stop is
  \<^verbatim>\<open>stops[1].mergeWith(stops[2])\<close>.
\<close>

theorem merge_single_transfer_witness:
  "wf_graph threeStops \<and> onlyTransfer threeStops 1 2
   \<and> mergeTransferNodes joinStops threeStops
       = Some (Inr (Merged \<lparr>numNodes = 2, stops = [''s0'', joinStops ''s1'' ''s2''],
                            G = [[], [Rel Route (- 1)]]\<rparr>))
   \<and> getTransferEdges \<lparr>numNodes = 2, stops = [''s0'', joinStops ''s1'' ''s2''],
                         G = [[], [Rel Route (- 1)]]\<rparr> = []"
proof -
  have a: "wf_graph threeStops" by code_simp
  have b: "onlyTransfer threeStops 1 2" by code_simp
  from merge_single_transfer[OF a b, of joinStops] obtain g' where
    r: "mergeTransferNodes joinStops threeStops = Some (Inr (Merged g'))"
    and n: "numNodes g' = numNodes threeStops - 1"
    and m: "G g' = mergedRows 1 2 (G threeStops)"
    and t: "getTransferEdges g' = []"
    and s: "stops g' = map ((!) (stops threeStops))
                         (filter (\<lambda>k. k \<noteq> 1 \<and> k \<noteq> 2) [0..<numNodes threeStops])
                       @ [joinStops (stops threeStops ! 1) (stops threeStops ! 2)]"
    by blast
  have n': "numNodes threeStops - 1 = 2" by code_simp
  have m': "mergedRows 1 2 (G threeStops) = [[], [Rel Route (- 1)]]" by code_simp
  have s': "map ((!) (stops threeStops)) (filter (\<lambda>k. k \<noteq> 1 \<and> k \<noteq> 2) [0..<numNodes threeStops])
              @ [joinStops (stops threeStops ! 1) (stops threeStops ! 2)]
            = [''s0'', joinStops ''s1'' ''s2'']" by code_simp
  have "g' = \<lparr>numNodes = 2, stops = [''s0'', joinStops ''s1'' ''s2''],
              G = [[], [Rel Route (- 1)]]\<rparr>"
    using n m s unfolding n' m' s' by (cases g') simp
  then show ?thesis using a b r t by simp
qed

section \<open>Properties of double arithmetic\<close>

lemma pow2_pos [simp]: "0 < pow2 e"
  by (simp add: pow2_def)

lemma pow2_nonneg [simp]: "0 \<le> pow2 e"
  by (simp add: pow2_def)

lemma pow2_add: "pow2 (a + b) = pow2 a * pow2 b"
  by (simp add: pow2_def power_int_add)

lemma pow2_diff: "pow2 (a - b) = pow2 a / pow2 b"
  by (simp add: pow2_def power_int_diff)

lemma pow2_mono: "a \<le> b \<Longrightarrow> pow2 a \<le> pow2 b"
  by (simp add: pow2_def power_int_increasing)

lemma pow2_strict_mono: "a < b \<Longrightarrow> pow2 a < pow2 b"
  by (simp add: pow2_def power_int_strict_increasing)

lemma pow2_less_cancel: "pow2 a < pow2 b \<Longrightarrow> a < b"
  using pow2_mono[of b a] by (cases "a < b") auto

lemma pow2_nat: "pow2 (int n) = 2 ^ n"
  by (simp add: pow2_def)

lemma pow2_of_int: "0 \<le> e \<Longrightarrow> pow2 e = of_int (2 ^ nat e)"
  by (simp add: pow2_def power_int_def)

lemma halfEven_of_int [simp]: "halfEven (of_int n) = n"
  by (simp add: halfEven_def)

lemma halfEven_bounds: "x - 1 / 2 \<le> of_int (halfEven x) \<and> of_int (halfEven x) \<le> x + 1 / 2"
proof -
  define f where "f = \<lfloor>x\<rfloor>"
  define r where "r = x - of_int f"
  have a: "0 \<le> r" and b: "r < 1" unfolding r_def f_def by linarith+
  have h: "halfEven x = (if r < 1 / 2 then f
                         else if 1 / 2 < r then f + 1 else if even f then f else f + 1)"
    by (simp add: halfEven_def Let_def f_def r_def)
  have x: "x - of_int f = r" by (simp add: r_def)
  consider "r < 1 / 2" | "1 / 2 < r" | "r = 1 / 2" by linarith
  then show ?thesis
  proof cases
    case 1
    then have "halfEven x = f" using h by simp
    then have "(of_int (halfEven x) :: rat) = of_int f" by simp
    then show ?thesis using 1 a x by linarith
  next
    case 2
    then have "halfEven x = f + 1" using h by simp
    then have "(of_int (halfEven x) :: rat) = of_int f + 1" by simp
    then show ?thesis using 2 b x by linarith
  next
    case 3
    then have "halfEven x = f \<or> halfEven x = f + 1" using h by simp
    then have "(of_int (halfEven x) :: rat) = of_int f
               \<or> (of_int (halfEven x) :: rat) = of_int f + 1" by auto
    then show ?thesis using 3 x by linarith
  qed
qed

lemma halfEven_mono:
  assumes "x \<le> y"
  shows "halfEven x \<le> halfEven y"
proof (rule ccontr)
  assume "\<not> halfEven x \<le> halfEven y"
  then have lt: "halfEven y + 1 \<le> halfEven x" by simp
  then have l: "(of_int (halfEven y) :: rat) + 1 \<le> of_int (halfEven x)"
    by (metis of_int_1 of_int_add of_int_le_iff)
  have bx: "of_int (halfEven x) \<le> x + 1 / 2" and by': "y - 1 / 2 \<le> of_int (halfEven y)"
    using halfEven_bounds[of x] halfEven_bounds[of y] by simp_all
  have "x = y" using l bx by' assms by linarith
  with lt show False by simp
qed

lemma halfEven_ge: "of_int n \<le> x \<Longrightarrow> n \<le> halfEven x"
  using halfEven_mono[of "of_int n" x] by simp

lemma halfEven_le: "x \<le> of_int n \<Longrightarrow> halfEven x \<le> n"
  using halfEven_mono[of x "of_int n"] by simp

lemma log2int_bounds:
  "0 < n \<Longrightarrow> 0 \<le> log2int n \<and> 2 ^ nat (log2int n) \<le> n \<and> n < 2 ^ nat (log2int n + 1)"
proof (induction n rule: log2int.induct)
  case (1 n)
  show ?case
  proof (cases "n < 2")
    case True
    with "1.prems" have "n = 1" by simp
    then show ?thesis by (simp add: log2int.simps)
  next
    case False
    then have "0 < n div 2" by simp
    with "1.IH" False have ih: "0 \<le> log2int (n div 2)"
      "2 ^ nat (log2int (n div 2)) \<le> n div 2"
      "n div 2 < 2 ^ nat (log2int (n div 2) + 1)" by simp_all
    have e: "log2int n = log2int (n div 2) + 1" using False by (subst log2int.simps) simp
    have s: "nat (log2int (n div 2) + 1) = Suc (nat (log2int (n div 2)))"
      "nat (log2int (n div 2) + 1 + 1) = Suc (Suc (nat (log2int (n div 2))))"
      using ih(1) by simp_all
    show ?thesis unfolding e s using ih unfolding s by simp linarith
  qed
qed

lemma log2int_pow2:
  assumes "0 < n"
  shows "pow2 (log2int n) \<le> of_int n" and "of_int n + 1 \<le> pow2 (log2int n + 1)"
proof -
  from log2int_bounds[OF assms] have b: "0 \<le> log2int n" "2 ^ nat (log2int n) \<le> n"
    "n + 1 \<le> 2 ^ nat (log2int n + 1)" by simp_all
  have "(of_int (2 ^ nat (log2int n)) :: rat) \<le> of_int n" using b(2) by (simp only: of_int_le_iff)
  then show "pow2 (log2int n) \<le> of_int n" using b(1) by (simp add: pow2_of_int)
  have "(of_int (n + 1) :: rat) \<le> of_int (2 ^ nat (log2int n + 1))"
    using b(3) by (simp only: of_int_le_iff)
  then show "of_int n + 1 \<le> pow2 (log2int n + 1)" using b(1) by (simp add: pow2_of_int)
qed

lemma exponentOf_bounds:
  assumes "0 < x"
  shows "pow2 (exponentOf x) \<le> x" and "x < pow2 (exponentOf x + 1)"
proof -
  have "pow2 (exponentOf x) \<le> x \<and> x < pow2 (exponentOf x + 1)"
  proof (cases "1 \<le> x")
    case True
    define n where "n = \<lfloor>x\<rfloor>"
    have n0: "0 < n" using True by (simp add: n_def)
    have nx: "of_int n \<le> x" and xn: "x < of_int n + 1" unfolding n_def by linarith+
    note b = log2int_pow2[OF n0]
    have e: "exponentOf x = log2int n" using True by (simp add: exponentOf_def n_def)
    show ?thesis unfolding e using b nx xn by linarith
  next
    case False
    define y where "y = 1 / x"
    have y1: "1 < y" using False assms by (simp add: y_def)
    define n where "n = \<lfloor>y\<rfloor>"
    have n0: "0 < n" using y1 by (simp add: n_def)
    have ny: "of_int n \<le> y" and yn: "y < of_int n + 1" unfolding n_def by linarith+
    define k where "k = log2int n"
    note b = log2int_pow2[OF n0]
    have lo: "pow2 k \<le> y" unfolding k_def using b(1) ny by linarith
    have hi: "y < pow2 (k + 1)" unfolding k_def using b(2) yn by linarith
    have inv: "pow2 (- k) = 1 / pow2 k" "pow2 (- k - 1) = 1 / pow2 (k + 1)"
      using pow2_diff[of 0 k] pow2_diff[of 0 "k + 1"] by (simp_all add: pow2_def)
    have x_le: "x \<le> pow2 (- k)"
    proof -
      have "0 < y * pow2 k" using y1 by (simp add: zero_less_mult_iff)
      then have "1 / y \<le> 1 / pow2 k" using lo by (intro divide_left_mono) simp_all
      then show ?thesis by (simp add: inv y_def)
    qed
    have x_gt: "pow2 (- k - 1) < x"
    proof -
      have "0 < pow2 (k + 1) * y" using y1 by (simp add: zero_less_mult_iff)
      then have "1 / pow2 (k + 1) < 1 / y" using hi y1 by (intro divide_strict_left_mono) simp_all
      then show ?thesis by (simp add: inv y_def)
    qed
    have e: "exponentOf x = (if pow2 (- k) \<le> x then - k else - k - 1)"
      using False by (simp add: exponentOf_def k_def n_def y_def Let_def)
    show ?thesis
    proof (cases "pow2 (- k) \<le> x")
      case True
      have "x < pow2 (- k + 1)" using x_le pow2_strict_mono[of "- k" "- k + 1"] by simp
      then show ?thesis using True e by simp
    next
      case False
      then show ?thesis using e x_gt by simp
    qed
  qed
  then show "pow2 (exponentOf x) \<le> x" and "x < pow2 (exponentOf x + 1)" by simp_all
qed

lemma exponentOf_unique:
  assumes "pow2 e \<le> x" and "x < pow2 (e + 1)"
  shows "exponentOf x = e"
proof -
  have x: "0 < x" using assms(1) pow2_pos[of e] by linarith
  note b = exponentOf_bounds[OF x]
  have "pow2 e < pow2 (exponentOf x + 1)" using assms(1) b(2) by linarith
  then have 1: "e < exponentOf x + 1" by (rule pow2_less_cancel)
  have "pow2 (exponentOf x) < pow2 (e + 1)" using assms(2) b(1) by linarith
  then have 2: "exponentOf x < e + 1" by (rule pow2_less_cancel)
  show ?thesis using 1 2 by simp
qed

lemma exponentOf_mono:
  assumes "0 < x" and "x \<le> y"
  shows "exponentOf x \<le> exponentOf y"
proof -
  have y: "0 < y" using assms by simp
  have "pow2 (exponentOf x) < pow2 (exponentOf y + 1)"
    using exponentOf_bounds(1)[OF assms(1)] exponentOf_bounds(2)[OF y] assms(2) by linarith
  then have "exponentOf x < exponentOf y + 1" by (rule pow2_less_cancel)
  then show ?thesis by simp
qed


lemma pow2_neq0 [simp]: "pow2 e \<noteq> 0"
  by (simp add: pow2_def)

lemma roundPos_alt:
  "roundPos x = of_int (halfEven (x / pow2 (max (exponentOf x) (- 1022) - 52)))
                * pow2 (max (exponentOf x) (- 1022) - 52)"
  by (simp add: roundPos_def Let_def)

lemma halfEven_zero [simp]: "halfEven 0 = 0"
  using halfEven_of_int[of 0] by simp

lemma roundPos_zero [simp]: "roundPos 0 = 0"
  by (simp add: roundPos_alt)

lemma pow2_split: "pow2 (E + j) = pow2 j * pow2 E"
  using pow2_add[of j E] by (simp add: add.commute)

lemma pow2_numeral_int: "0 \<le> j \<Longrightarrow> of_int (2 ^ nat j) * pow2 (E - j) = pow2 E"
  using pow2_add[of j "E - j"] by (simp add: pow2_of_int)

lemma roundPos_nonneg:
  assumes "0 \<le> x"
  shows "0 \<le> roundPos x"
proof -
  define u where "u = pow2 (max (exponentOf x) (- 1022) - 52)"
  have "of_int 0 \<le> x / u" using assms by (simp add: u_def)
  then have "0 \<le> halfEven (x / u)" by (rule halfEven_ge)
  then have "0 \<le> (of_int (halfEven (x / u)) :: rat) * u" by (simp add: u_def)
  then show ?thesis by (simp add: roundPos_alt u_def)
qed

text \<open>A multiple of a power of two that is at least the unit of its own binade is kept.\<close>

lemma roundPos_grid:
  assumes "x = of_int k * pow2 q" and "max (exponentOf x) (- 1022) - 52 \<le> q"
  shows "roundPos x = x"
proof -
  define p where "p = max (exponentOf x) (- 1022) - 52"
  define j where "j = q - p"
  have j: "0 \<le> j" using assms(2) by (simp add: j_def p_def)
  have "pow2 q = pow2 (j + p)" by (simp add: j_def)
  also have "\<dots> = pow2 j * pow2 p" by (rule pow2_add)
  finally have q: "pow2 q = of_int (2 ^ nat j) * pow2 p" using j by (simp add: pow2_of_int)
  have xq: "x = of_int (k * 2 ^ nat j) * pow2 p" unfolding assms(1) q by simp
  then have d: "x / pow2 p = of_int (k * 2 ^ nat j)" by simp
  have "roundPos x = of_int (halfEven (x / pow2 p)) * pow2 p"
    by (simp add: roundPos_alt p_def)
  also have "\<dots> = of_int (k * 2 ^ nat j) * pow2 p" unfolding d halfEven_of_int ..
  also have "\<dots> = x" using xq by simp
  finally show ?thesis .
qed

lemma roundPos_upper:
  assumes "0 < x"
  shows "roundPos x \<le> pow2 (max (exponentOf x) (- 1022) + 1)"
proof -
  define E where "E = max (exponentOf x) (- 1022)"
  define u where "u = pow2 (E - 52)"
  define c :: int where "c = 2 ^ nat 53"
  have u: "0 < u" by (simp add: u_def)
  have "x < pow2 (exponentOf x + 1)" using assms by (rule exponentOf_bounds)
  also have "\<dots> \<le> pow2 (E + 1)" by (rule pow2_mono) (simp add: E_def)
  finally have x: "x \<le> pow2 (E + 1)" by simp
  have s: "of_int c * u = pow2 (E + 1)"
    unfolding c_def u_def using pow2_numeral_int[of 53 "E + 1"] by simp
  have "x / u \<le> of_int c"
    using x u unfolding s[symmetric] by (simp add: pos_divide_le_eq)
  then have "halfEven (x / u) \<le> c" by (rule halfEven_le)
  then have "(of_int (halfEven (x / u)) :: rat) \<le> of_int c" by (simp only: of_int_le_iff)
  then have "of_int (halfEven (x / u)) * u \<le> of_int c * u"
    using u by (intro mult_right_mono) simp_all
  then have "of_int (halfEven (x / u)) * u \<le> pow2 (E + 1)" unfolding s .
  then show ?thesis unfolding roundPos_alt E_def u_def .
qed

lemma roundPos_lower:
  assumes "0 < x" and "- 1022 \<le> exponentOf x"
  shows "pow2 (exponentOf x) \<le> roundPos x"
proof -
  define E where "E = exponentOf x"
  define u where "u = pow2 (E - 52)"
  define c :: int where "c = 2 ^ nat 52"
  have u: "0 < u" by (simp add: u_def)
  have m: "max (exponentOf x) (- 1022) = E" using assms(2) by (simp add: E_def)
  have x: "pow2 E \<le> x" unfolding E_def using assms(1) by (rule exponentOf_bounds)
  have s: "of_int c * u = pow2 E"
    unfolding c_def u_def using pow2_numeral_int[of 52 E] by simp
  have "of_int c \<le> x / u"
    using x u unfolding s[symmetric] by (simp add: pos_le_divide_eq)
  then have "c \<le> halfEven (x / u)" by (rule halfEven_ge)
  then have "(of_int c :: rat) \<le> of_int (halfEven (x / u))" by (simp only: of_int_le_iff)
  then have "of_int c * u \<le> of_int (halfEven (x / u)) * u"
    using u by (intro mult_right_mono) simp_all
  then have "pow2 E \<le> of_int (halfEven (x / u)) * u" unfolding s .
  then show ?thesis unfolding roundPos_alt m u_def E_def .
qed

lemma roundPos_mono:
  assumes "0 \<le> x" and "x \<le> y"
  shows "roundPos x \<le> roundPos y"
proof (cases "x = 0")
  case True
  then show ?thesis using roundPos_nonneg[of y] assms by simp
next
  case False
  then have x: "0 < x" and y: "0 < y" using assms by simp_all
  define Ex where "Ex = max (exponentOf x) (- 1022)"
  define Ey where "Ey = max (exponentOf y) (- 1022)"
  have le: "Ex \<le> Ey" using exponentOf_mono[OF x assms(2)] by (simp add: Ex_def Ey_def)
  show ?thesis
  proof (cases "Ex = Ey")
    case True
    define u where "u = pow2 (Ex - 52)"
    have "x / u \<le> y / u" using assms(2) by (simp add: u_def divide_right_mono)
    then have "halfEven (x / u) \<le> halfEven (y / u)" by (rule halfEven_mono)
    then have "(of_int (halfEven (x / u)) :: rat) \<le> of_int (halfEven (y / u))"
      by (simp only: of_int_le_iff)
    then have "of_int (halfEven (x / u)) * u \<le> of_int (halfEven (y / u)) * u"
      by (rule mult_right_mono) (simp add: u_def)
    then show ?thesis
      unfolding roundPos_alt Ex_def[symmetric] Ey_def[symmetric] True[symmetric] u_def .
  next
    case False
    then have lt: "Ex < Ey" using le by simp
    have "- 1022 \<le> Ex" by (simp add: Ex_def)
    then have ey: "Ey = exponentOf y" "- 1022 \<le> exponentOf y"
      using lt by (auto simp: Ey_def max_def split: if_splits)
    have "roundPos x \<le> pow2 (Ex + 1)" unfolding Ex_def using x by (rule roundPos_upper)
    also have "\<dots> \<le> pow2 Ey" using lt by (intro pow2_mono) simp
    also have "\<dots> \<le> roundPos y" unfolding ey(1) using y ey(2) by (rule roundPos_lower)
    finally show ?thesis .
  qed
qed

lemma roundPos_idem:
  assumes "0 \<le> x"
  shows "roundPos (roundPos x) = roundPos x"
proof (cases "x = 0")
  case True
  then show ?thesis by simp
next
  case False
  then have x: "0 < x" using assms by simp
  define E where "E = max (exponentOf x) (- 1022)"
  define r where "r = roundPos x"
  define m where "m = halfEven (x / pow2 (E - 52))"
  have r: "r = of_int m * pow2 (E - 52)" by (simp add: r_def roundPos_alt E_def m_def)
  have up: "r \<le> pow2 (E + 1)" unfolding r_def E_def using x by (rule roundPos_upper)
  have r0: "0 \<le> r" unfolding r_def using assms by (rule roundPos_nonneg)
  have "roundPos r = r"
  proof (cases "r = 0")
    case True
    then show ?thesis by simp
  next
    case nz: False
    then have rp: "0 < r" using r0 by simp
    show ?thesis
    proof (cases "r = pow2 (E + 1)")
      case True
      have "exponentOf r = E + 1"
        unfolding True by (rule exponentOf_unique) (simp_all add: pow2_strict_mono)
      moreover have "- 1022 \<le> E" by (simp add: E_def)
      ultimately have "max (exponentOf r) (- 1022) - 52 \<le> E + 1" by simp
      moreover have "r = of_int 1 * pow2 (E + 1)" using True by simp
      ultimately show ?thesis by (rule roundPos_grid[rotated])
    next
      case False
      then have lt: "r < pow2 (E + 1)" using up by simp
      have "pow2 (exponentOf r) < pow2 (E + 1)"
        using exponentOf_bounds(1)[OF rp] lt by linarith
      then have "exponentOf r < E + 1" by (rule pow2_less_cancel)
      moreover have "- 1022 \<le> E" by (simp add: E_def)
      ultimately have "max (exponentOf r) (- 1022) - 52 \<le> E - 52" by simp
      with r show ?thesis by (rule roundPos_grid)
    qed
  qed
  then show ?thesis by (simp add: r_def)
qed

lemma roundPos_of_int:
  assumes "0 \<le> n" and "n \<le> 2 ^ 53"
  shows "roundPos (of_int n) = of_int n"
proof (cases "n = 0")
  case True
  then show ?thesis by simp
next
  case False
  then have n: "0 < n" using assms(1) by simp
  define x :: rat where "x = of_int n"
  have xp: "0 < x" using n by (simp add: x_def)
  have p53: "pow2 53 = of_int (2 ^ 53)" using pow2_of_int[of 53] by simp
  have "(of_int n :: rat) \<le> of_int (2 ^ 53)" using assms(2) by (simp only: of_int_le_iff)
  then have xle: "x \<le> pow2 53" unfolding p53 x_def .
  have "pow2 (exponentOf x) \<le> pow2 53" using exponentOf_bounds(1)[OF xp] xle by linarith
  then have e: "exponentOf x \<le> 53" using pow2_strict_mono[of 53 "exponentOf x"] by (cases "exponentOf x \<le> 53") auto
  have "roundPos x = x"
  proof (cases "x = pow2 53")
    case True
    have "x = of_int 1 * pow2 53" using True by simp
    moreover have "max (exponentOf x) (- 1022) - 52 \<le> 53" using e by simp
    ultimately show ?thesis by (rule roundPos_grid)
  next
    case False
    then have "x < pow2 53" using xle by simp
    then have "pow2 (exponentOf x) < pow2 53" using exponentOf_bounds(1)[OF xp] by linarith
    then have "exponentOf x < 53" by (rule pow2_less_cancel)
    then have "max (exponentOf x) (- 1022) - 52 \<le> 0" by simp
    moreover have "x = of_int n * pow2 0" by (simp add: x_def pow2_def)
    ultimately show ?thesis by (rule roundPos_grid[rotated])
  qed
  then show ?thesis by (simp add: x_def)
qed

text \<open>
  The double nearest to a number that is not negative is a double that is not negative, or
  \<^verbatim>\<open>Infinity\<close>; rounding keeps the order, keeps a double, and keeps every integer up to
  \<open>2 ^ 53\<close>.
\<close>

definition good :: "dist \<Rightarrow> bool" where
  "good d = (case d of Fin x \<Rightarrow> 0 \<le> x \<and> toDouble x = Fin x | Infinity \<Rightarrow> True | _ \<Rightarrow> False)"

text \<open>The order of two distances that are numbers.\<close>

fun dist_le :: "dist \<Rightarrow> dist \<Rightarrow> bool" where
  "dist_le (Fin a) (Fin b) = (a \<le> b)"
| "dist_le (Fin a) Infinity = True"
| "dist_le Infinity Infinity = True"
| "dist_le MinusInfinity (Fin b) = True"
| "dist_le MinusInfinity Infinity = True"
| "dist_le MinusInfinity MinusInfinity = True"
| "dist_le _ _ = False"

lemma good_simps [simp]:
  "good (Fin x) = (0 \<le> x \<and> toDouble x = Fin x)" "good Infinity" "\<not> good MinusInfinity"
  "\<not> good Undefined"
  by (simp_all add: good_def)

lemma toDouble_nonneg:
  "0 \<le> x \<Longrightarrow> toDouble x = (if pow2 1024 \<le> roundPos x then Infinity else Fin (roundPos x))"
  by (simp add: toDouble_def)

lemma good_toDouble:
  assumes "0 \<le> x"
  shows "good (toDouble x)"
proof (cases "pow2 1024 \<le> roundPos x")
  case True
  then show ?thesis using assms by (simp add: toDouble_nonneg)
next
  case False
  have r: "0 \<le> roundPos x" using assms by (rule roundPos_nonneg)
  have "toDouble (roundPos x) = Fin (roundPos x)"
    using False r roundPos_idem[OF assms] by (simp add: toDouble_nonneg)
  then show ?thesis using assms False r by (simp add: toDouble_nonneg)
qed

lemma toDouble_mono:
  assumes "0 \<le> x" and "x \<le> y"
  shows "dist_le (toDouble x) (toDouble y)"
proof -
  have y: "0 \<le> y" using assms by simp
  have "roundPos x \<le> roundPos y" using assms by (rule roundPos_mono)
  then show ?thesis using assms(1) y by (auto simp: toDouble_nonneg)
qed

lemma pow2_53_less: "pow2 53 < pow2 1024"
  by (rule pow2_strict_mono) simp

lemma toDouble_of_int:
  assumes "0 \<le> n" and "n \<le> 2 ^ 53"
  shows "toDouble (of_int n) = Fin (of_int n)"
proof -
  have r: "roundPos (of_int n) = of_int n" using assms by (rule roundPos_of_int)
  have "(of_int n :: rat) \<le> of_int (2 ^ 53)" using assms(2) by (simp only: of_int_le_iff)
  also have "of_int (2 ^ 53) = pow2 53" using pow2_of_int[of 53] by simp
  finally have "(of_int n :: rat) < pow2 1024" using pow2_53_less by linarith
  moreover have "(0::rat) \<le> of_int n" using assms(1) by simp
  ultimately show ?thesis using r by (simp add: toDouble_nonneg)
qed

lemma toDouble_code [code]:
  "toDouble x =
     (if 0 \<le> x
      then (let r = roundPos x in if 0 < r \<and> 1024 \<le> exponentOf r then Infinity else Fin r)
      else (let r = roundPos (- x)
            in if 0 < r \<and> 1024 \<le> exponentOf r then MinusInfinity else Fin (- r)))"
proof -
  have *: "(pow2 1024 \<le> r) = (0 < r \<and> 1024 \<le> exponentOf r)" for r
  proof
    assume a: "pow2 1024 \<le> r"
    then have r: "0 < r" using pow2_pos[of 1024] by linarith
    have "pow2 1024 < pow2 (exponentOf r + 1)" using a exponentOf_bounds(2)[OF r] by linarith
    then have "1024 < exponentOf r + 1" by (rule pow2_less_cancel)
    then show "0 < r \<and> 1024 \<le> exponentOf r" using r by simp
  next
    assume a: "0 < r \<and> 1024 \<le> exponentOf r"
    then have "pow2 1024 \<le> pow2 (exponentOf r)" by (intro pow2_mono) simp
    then show "pow2 1024 \<le> r" using exponentOf_bounds(1)[of r] a by linarith
  qed
  show ?thesis by (simp add: toDouble_def Let_def *)
qed

lemma dist_less_le: "dist_less a b \<Longrightarrow> dist_le a b"
  by (cases a; cases b) auto

lemma dist_le_refl: "a \<noteq> Undefined \<Longrightarrow> dist_le a a"
  by (cases a) auto

lemma dist_le_trans: "dist_le a b \<Longrightarrow> dist_le b c \<Longrightarrow> dist_le a c"
  by (cases a; cases b; cases c) auto

lemma dist_le_less_trans: "dist_le a b \<Longrightarrow> dist_less b c \<Longrightarrow> dist_less a c"
  by (cases a; cases b; cases c) auto

lemma dist_less_trans: "dist_less a b \<Longrightarrow> dist_less b c \<Longrightarrow> dist_less a c"
  by (cases a; cases b; cases c) auto

lemma dist_not_less: "a \<noteq> Undefined \<Longrightarrow> b \<noteq> Undefined \<Longrightarrow> \<not> dist_less a b \<Longrightarrow> dist_le b a"
  by (cases a; cases b) auto

lemma dist_le_not_less: "dist_le a b \<Longrightarrow> \<not> dist_less b a"
  by (cases a; cases b) auto

lemma dist_le_antisym: "dist_le a b \<Longrightarrow> dist_le b a \<Longrightarrow> a = b"
  by (cases a; cases b) auto

lemma dist_less_Infinity: "dist_less a Infinity \<Longrightarrow> a \<noteq> MinusInfinity \<Longrightarrow> \<exists>d. a = Fin d"
  by (cases a) auto

lemma dist_le_Infinity: "dist_le Infinity a \<Longrightarrow> a = Infinity"
  by (cases a) auto

lemma dist_less_defined: "dist_less a b \<Longrightarrow> a \<noteq> Undefined \<and> b \<noteq> Undefined"
  by (cases a; cases b) auto

lemma good_defined: "good a \<Longrightarrow> a \<noteq> Undefined \<and> a \<noteq> MinusInfinity"
  by (cases a) auto

lemma good_le_Infinity: "good a \<Longrightarrow> dist_le a Infinity"
  by (cases a) auto

lemma good_less_Fin: "good a \<Longrightarrow> dist_less a b \<Longrightarrow> \<exists>d. a = Fin d"
  by (cases a; cases b) auto

text \<open>Adding a weight that is not negative to a distance.\<close>

lemma distPlus_good:
  assumes "good a" and "0 \<le> w"
  shows "good (distPlus a (Some w))"
proof (cases a)
  case (Fin x)
  then have "0 \<le> x + w" using assms by simp
  then show ?thesis using Fin by (simp add: distPlus_def good_toDouble)
qed (use assms in \<open>simp_all add: distPlus_def\<close>)

lemma distPlus_increases:
  assumes "good a" and "0 \<le> w"
  shows "dist_le a (distPlus a (Some w))"
proof (cases a)
  case (Fin x)
  then have x: "0 \<le> x" "toDouble x = Fin x" using assms(1) by simp_all
  have "dist_le (toDouble x) (toDouble (x + w))" using x(1) assms(2) by (intro toDouble_mono) simp_all
  then show ?thesis using Fin x(2) by (simp add: distPlus_def)
qed (use assms in \<open>simp_all add: distPlus_def\<close>)

lemma distPlus_mono:
  assumes "good a" and "dist_le a b" and "0 \<le> w"
  shows "dist_le (distPlus a (Some w)) (distPlus b (Some w))"
proof (cases a)
  case a: (Fin x)
  then have x: "0 \<le> x" using assms(1) by simp
  show ?thesis
  proof (cases b)
    case (Fin y)
    then have "x \<le> y" using assms(2) a by simp
    then have "dist_le (toDouble (x + w)) (toDouble (y + w))"
      using x assms(3) by (intro toDouble_mono) simp_all
    then show ?thesis using a Fin by (simp add: distPlus_def)
  next
    case Infinity
    have "good (toDouble (x + w))" using x assms(3) by (intro good_toDouble) simp
    then show ?thesis using a Infinity by (simp add: distPlus_def good_le_Infinity)
  qed (use assms a in simp_all)
next
  case Infinity
  then have "b = Infinity" using assms(2) by (simp add: dist_le_Infinity)
  then show ?thesis using Infinity by (simp add: distPlus_def)
qed (use assms in simp_all)

section \<open>Properties of Dijkstra\<close>

text \<open>The selection loop returns the first unmarked index of least distance, if one is finite.\<close>

lemma selectMin_spec:
  assumes "\<And>i. i \<in> set ixs \<Longrightarrow> i < length S \<and> S ! i \<noteq> Undefined" and "md \<noteq> Undefined"
    and "selectMin S D ixs (md, mi) = (md', mi')"
  shows "dist_le md' md
       \<and> (\<forall>i \<in> set ixs. \<not> marked D i \<longrightarrow> dist_le md' (S ! i))
       \<and> ((md', mi') = (md, mi)
          \<or> (\<exists>m \<in> set ixs. mi' = Some m \<and> \<not> marked D m \<and> S ! m = md' \<and> dist_less md' md))"
  using assms
proof (induction ixs arbitrary: md mi)
  case Nil
  then show ?case by (simp add: dist_le_refl)
next
  case (Cons i ixs)
  have i: "i < length S" "S ! i \<noteq> Undefined" using Cons.prems(1)[of i] by simp_all
  have rest: "\<And>j. j \<in> set ixs \<Longrightarrow> j < length S \<and> S ! j \<noteq> Undefined"
    using Cons.prems(1) by simp
  have at: "distAt S i = S ! i" using i by (simp add: distAt_def)
  show ?case
  proof (cases "dist_less (S ! i) md \<and> \<not> marked D i")
    case True
    then have r: "selectMin S D ixs (S ! i, Some i) = (md', mi')"
      using Cons.prems(3) by (simp add: at)
    from Cons.IH[OF rest i(2) r]
    have A: "dist_le md' (S ! i)"
      and B: "\<forall>j \<in> set ixs. \<not> marked D j \<longrightarrow> dist_le md' (S ! j)"
      and C: "(md', mi') = (S ! i, Some i)
          \<or> (\<exists>m \<in> set ixs. mi' = Some m \<and> \<not> marked D m \<and> S ! m = md' \<and> dist_less md' (S ! i))"
      by auto
    have lt: "dist_less md' md" using A True by (blast intro: dist_le_less_trans)
    have "dist_le md' md" using lt by (rule dist_less_le)
    moreover have "\<forall>j \<in> set (i # ixs). \<not> marked D j \<longrightarrow> dist_le md' (S ! j)"
      using A B by simp
    moreover have "\<exists>m \<in> set (i # ixs). mi' = Some m \<and> \<not> marked D m \<and> S ! m = md' \<and> dist_less md' md"
      using C
    proof
      assume "(md', mi') = (S ! i, Some i)"
      then show ?thesis using True by auto
    next
      assume "\<exists>m \<in> set ixs. mi' = Some m \<and> \<not> marked D m \<and> S ! m = md' \<and> dist_less md' (S ! i)"
      then obtain m where "m \<in> set ixs" "mi' = Some m" "\<not> marked D m" "S ! m = md'" by blast
      then show ?thesis using lt by auto
    qed
    ultimately show ?thesis by blast
  next
    case False
    then have r: "selectMin S D ixs (md, mi) = (md', mi')"
      using Cons.prems(3) by (auto simp: at)
    from Cons.IH[OF rest Cons.prems(2) r]
    have A: "dist_le md' md"
      and B: "\<forall>j \<in> set ixs. \<not> marked D j \<longrightarrow> dist_le md' (S ! j)"
      and C: "(md', mi') = (md, mi)
          \<or> (\<exists>m \<in> set ixs. mi' = Some m \<and> \<not> marked D m \<and> S ! m = md' \<and> dist_less md' md)"
      by auto
    have "\<not> marked D i \<longrightarrow> dist_le md' (S ! i)"
    proof
      assume "\<not> marked D i"
      then have "\<not> dist_less (S ! i) md" using False by simp
      then have "dist_le md (S ! i)" using i(2) Cons.prems(2) by (intro dist_not_less) simp_all
      then show "dist_le md' (S ! i)" using A by (blast intro: dist_le_trans)
    qed
    then have "\<forall>j \<in> set (i # ixs). \<not> marked D j \<longrightarrow> dist_le md' (S ! j)"
      using B by simp
    moreover have "(md', mi') = (md, mi)
          \<or> (\<exists>m \<in> set (i # ixs). mi' = Some m \<and> \<not> marked D m \<and> S ! m = md' \<and> dist_less md' md)"
      using C by auto
    ultimately show ?thesis using A by blast
  qed
qed

lemma selectMin_start:
  assumes "\<And>i. i < n \<Longrightarrow> i < length S \<and> good (S ! i)"
  shows "(selectMin S D [0..<n] (Infinity, None) = (Infinity, None)
            \<and> (\<forall>i < n. \<not> marked D i \<longrightarrow> S ! i = Infinity))
       \<or> (\<exists>m d. selectMin S D [0..<n] (Infinity, None) = (Fin d, Some m) \<and> m < n
            \<and> \<not> marked D m \<and> S ! m = Fin d \<and> (\<forall>i < n. \<not> marked D i \<longrightarrow> dist_le (Fin d) (S ! i)))"
proof -
  obtain md' mi' where r: "selectMin S D [0..<n] (Infinity, None) = (md', mi')"
    by (cases "selectMin S D [0..<n] (Infinity, None)") auto
  have pre: "\<And>i. i \<in> set [0..<n] \<Longrightarrow> i < length S \<and> S ! i \<noteq> Undefined"
    using assms by (auto dest: good_defined)
  from selectMin_spec[OF pre _ r]
  have B: "\<forall>i \<in> set [0..<n]. \<not> marked D i \<longrightarrow> dist_le md' (S ! i)"
    and C: "(md', mi') = (Infinity, None)
          \<or> (\<exists>m \<in> set [0..<n]. mi' = Some m \<and> \<not> marked D m \<and> S ! m = md' \<and> dist_less md' Infinity)"
    by auto
  from C show ?thesis
  proof
    assume e: "(md', mi') = (Infinity, None)"
    then have "\<forall>i < n. \<not> marked D i \<longrightarrow> S ! i = Infinity"
      using B by (auto dest: dist_le_Infinity)
    then show ?thesis using r e by simp
  next
    assume "\<exists>m \<in> set [0..<n]. mi' = Some m \<and> \<not> marked D m \<and> S ! m = md' \<and> dist_less md' Infinity"
    then obtain m where m: "m < n" "mi' = Some m" "\<not> marked D m" "S ! m = md'" "dist_less md' Infinity"
      by auto
    have "good md'" using assms[OF m(1)] m(4) by simp
    then obtain d where d: "md' = Fin d" using m(5) by (auto dest: good_less_Fin)
    have "\<forall>i < n. \<not> marked D i \<longrightarrow> dist_le (Fin d) (S ! i)" using B d by simp
    then show ?thesis using r m d by auto
  qed
qed

lemma relax_nth:
  assumes "distinct ixs" "\<And>i. i \<in> set ixs \<Longrightarrow> i < length S" "length P = length S"
    "m < length S" "\<not> edgeExists g m m"
    "relax g m ixs (S, P) = (S', P')"
  shows "length S' = length S \<and> length P' = length S
       \<and> (\<forall>v < length S.
            (if v \<in> set ixs \<and> edgeExists g m v
                \<and> dist_less (distPlus (S ! m) (getWeight g m v)) (S ! v)
             then S' ! v = distPlus (S ! m) (getWeight g m v) \<and> P' ! v = m
             else S' ! v = S ! v \<and> P' ! v = P ! v))"
  using assms
proof (induction ixs arbitrary: S P)
  case Nil
  then show ?case by simp
next
  case (Cons i ixs)
  have i: "i < length S" "i \<notin> set ixs" "distinct ixs" using Cons.prems(1,2) by auto
  have at: "distAt S m = S ! m" "distAt S i = S ! i" using Cons.prems(4) i by (simp_all add: distAt_def)
  let ?x = "distPlus (S ! m) (getWeight g m i)"
  show ?case
  proof (cases "edgeExists g m i \<and> dist_less ?x (S ! i)")
    case True
    then have im: "i \<noteq> m" using Cons.prems(5) by auto
    let ?S1 = "S[i := ?x]" and ?P1 = "P[i := m]"
    have r: "relax g m ixs (?S1, ?P1) = (S', P')"
      using Cons.prems(6) True by (simp add: at)
    have pre: "\<And>j. j \<in> set ixs \<Longrightarrow> j < length ?S1" using Cons.prems(2) by simp
    have "length ?P1 = length ?S1" "m < length ?S1" using Cons.prems(3,4) by simp_all
    from Cons.IH[OF i(3) pre this Cons.prems(5) r]
    have L: "length S' = length S" "length P' = length S"
      and V: "\<And>v. v < length S \<Longrightarrow>
            (if v \<in> set ixs \<and> edgeExists g m v
                \<and> dist_less (distPlus (?S1 ! m) (getWeight g m v)) (?S1 ! v)
             then S' ! v = distPlus (?S1 ! m) (getWeight g m v) \<and> P' ! v = m
             else S' ! v = ?S1 ! v \<and> P' ! v = ?P1 ! v)"
      by simp_all
    have m1: "?S1 ! m = S ! m" using im by simp
    have "\<forall>v < length S.
            (if v \<in> set (i # ixs) \<and> edgeExists g m v
                \<and> dist_less (distPlus (S ! m) (getWeight g m v)) (S ! v)
             then S' ! v = distPlus (S ! m) (getWeight g m v) \<and> P' ! v = m
             else S' ! v = S ! v \<and> P' ! v = P ! v)"
    proof (intro allI impI)
      fix v assume v: "v < length S"
      show "if v \<in> set (i # ixs) \<and> edgeExists g m v
                \<and> dist_less (distPlus (S ! m) (getWeight g m v)) (S ! v)
             then S' ! v = distPlus (S ! m) (getWeight g m v) \<and> P' ! v = m
             else S' ! v = S ! v \<and> P' ! v = P ! v"
      proof (cases "v = i")
        case True
        then show ?thesis
          using V[OF v] i \<open>edgeExists g m i \<and> dist_less ?x (S ! i)\<close> Cons.prems(3) by simp
      next
        case False
        then show ?thesis using V[OF v] m1 by simp
      qed
    qed
    then show ?thesis using L by simp
  next
    case False
    then have r: "relax g m ixs (S, P) = (S', P')"
      using Cons.prems(6) by (auto simp: at)
    have pre: "\<And>j. j \<in> set ixs \<Longrightarrow> j < length S" using Cons.prems(2) by simp
    from Cons.IH[OF i(3) pre Cons.prems(3,4,5) r]
    have L: "length S' = length S" "length P' = length S"
      and V: "\<And>v. v < length S \<Longrightarrow>
            (if v \<in> set ixs \<and> edgeExists g m v
                \<and> dist_less (distPlus (S ! m) (getWeight g m v)) (S ! v)
             then S' ! v = distPlus (S ! m) (getWeight g m v) \<and> P' ! v = m
             else S' ! v = S ! v \<and> P' ! v = P ! v)"
      by simp_all
    have "\<forall>v < length S.
            (if v \<in> set (i # ixs) \<and> edgeExists g m v
                \<and> dist_less (distPlus (S ! m) (getWeight g m v)) (S ! v)
             then S' ! v = distPlus (S ! m) (getWeight g m v) \<and> P' ! v = m
             else S' ! v = S ! v \<and> P' ! v = P ! v)"
    proof (intro allI impI)
      fix v assume v: "v < length S"
      show "if v \<in> set (i # ixs) \<and> edgeExists g m v
                \<and> dist_less (distPlus (S ! m) (getWeight g m v)) (S ! v)
             then S' ! v = distPlus (S ! m) (getWeight g m v) \<and> P' ! v = m
             else S' ! v = S ! v \<and> P' ! v = P ! v"
      proof (cases "v = i")
        case True
        then show ?thesis using V[OF v] i False by auto
      next
        case False
        then show ?thesis using V[OF v] by simp
      qed
    qed
    then show ?thesis using L by simp
  qed
qed

text \<open>No stored edge has a negative weight.\<close>

definition nonNegative :: "'s graph \<Rightarrow> bool" where
  "nonNegative g =
     list_all (list_all (\<lambda>c. case c of Rel t w \<Rightarrow> 0 \<le> w | _ \<Rightarrow> True)) (G g)"

text \<open>A walk from \<open>s\<close> to \<open>v\<close> along stored edges, of total weight \<open>d\<close>.\<close>

inductive pathTo :: "'s graph \<Rightarrow> nat \<Rightarrow> nat \<Rightarrow> rat \<Rightarrow> bool" for g :: "'s graph" and s :: nat where
  start: "pathTo g s s 0"
| step: "pathTo g s u d \<Longrightarrow> getWeight g u v = Some w \<Longrightarrow> pathTo g s v (d + w)"

text \<open>
  The same walk with its weight as \<^verbatim>\<open>dijkstra\<close> computes it: the weights are added in the
  order of the walk, from the start, in double arithmetic.
\<close>

inductive walkTo :: "'s graph \<Rightarrow> nat \<Rightarrow> nat \<Rightarrow> dist \<Rightarrow> bool" for g :: "'s graph" and s :: nat where
  start: "walkTo g s s (Fin 0)"
| step: "walkTo g s u d \<Longrightarrow> getWeight g u v = Some w \<Longrightarrow> walkTo g s v (distPlus d (Some w))"

text \<open>
  The backward walk of the path loop: \<open>steps P i k\<close> says that from \<open>i\<close> the predecessor is
  nonzero \<open>k\<close> times and zero the next time; \<open>chain g P i k\<close> is the list of the edges collected.
\<close>

fun steps :: "nat list \<Rightarrow> nat \<Rightarrow> nat \<Rightarrow> bool" where
  "steps P i 0 = (P ! i = 0)"
| "steps P i (Suc k) = (P ! i \<noteq> 0 \<and> steps P (P ! i) k)"

fun chain :: "'s graph \<Rightarrow> nat list \<Rightarrow> nat \<Rightarrow> nat \<Rightarrow> edge option list" where
  "chain g P i 0 = []"
| "chain g P i (Suc k) = createEdge g (P ! i) i # chain g P (P ! i) k"

lemma edgeExists_getWeight: "edgeExists g u v = (\<exists>w. getWeight g u v = Some w)"
  by (cases "relation g u v" rule: cell.exhaust) (simp_all add: edgeExists_def getWeight_def)

lemma edgeExists_irrefl [simp]: "\<not> edgeExists g u u"
  by (simp add: edgeExists_def relation_def)

lemma edgeExists_bound: "edgeExists g u v \<Longrightarrow> u < length (G g) \<and> v < length (G g)"
  by (auto simp: edgeExists_def relation_def split: if_splits)

lemma getWeight_nonNegative:
  assumes "nonNegative g" "getWeight g u v = Some w"
  shows "0 \<le> w"
proof -
  from assms(2) obtain t where r: "relation g u v = Rel t w"
    by (cases "relation g u v" rule: cell.exhaust) (simp_all add: getWeight_def)
  then have in_range: "u \<noteq> v" "max u v < length (G g)" "min u v < length (G g ! max u v)"
    and cell: "G g ! max u v ! min u v = Rel t w"
    by (auto simp: relation_def split: if_splits)
  have "G g ! max u v \<in> set (G g)" using in_range(2) by simp
  moreover have "G g ! max u v ! min u v \<in> set (G g ! max u v)" using in_range(3) by simp
  ultimately have "case G g ! max u v ! min u v of Rel t w \<Rightarrow> 0 \<le> w | _ \<Rightarrow> True"
    using assms(1) unfolding nonNegative_def list_all_iff by blast
  then show ?thesis by (simp add: cell)
qed

lemma pathTo_nonneg:
  assumes "nonNegative g" "pathTo g s v d"
  shows "0 \<le> d"
  using assms(2)
proof (induction rule: pathTo.induct)
  case start
  then show ?case by simp
next
  case (step u d v w)
  then show ?case using getWeight_nonNegative[OF assms(1) step.hyps(2)] by simp
qed

lemma toDouble_zero [simp]: "toDouble 0 = Fin 0"
  using toDouble_of_int[of 0] by simp

lemma walkTo_good:
  assumes "nonNegative g" "walkTo g s v d"
  shows "good d"
  using assms(2)
proof (induction rule: walkTo.induct)
  case start
  then show ?case by simp
next
  case (step u d v w)
  then show ?case using getWeight_nonNegative[OF assms(1) step.hyps(2)] by (simp add: distPlus_good)
qed

text \<open>The invariant of the main loop of \<open>dijkstra\<close>, for a source \<open>s\<close>.\<close>

definition dinv :: "'s graph \<Rightarrow> nat \<Rightarrow> dijkstra_state \<Rightarrow> bool" where
  "dinv g s st = (case st of (S, D, P) \<Rightarrow>
       length S = glength g \<and> length D = glength g \<and> length P = glength g
     \<and> S ! s = Fin 0
     \<and> (\<forall>v < glength g. good (S ! v))
     \<and> (\<forall>v < glength g. \<forall>d. S ! v = Fin d \<longrightarrow> walkTo g s v (Fin d))
     \<and> (\<forall>u < glength g. marked D u \<longrightarrow> (\<exists>d. S ! u = Fin d))
     \<and> (\<forall>u < glength g. \<forall>v < glength g. marked D u \<longrightarrow> \<not> marked D v \<longrightarrow> dist_le (S ! u) (S ! v))
     \<and> (\<forall>u < glength g. \<forall>v < glength g. marked D u \<longrightarrow> edgeExists g u v \<longrightarrow>
            dist_le (S ! v) (distPlus (S ! u) (getWeight g u v)))
     \<and> (\<forall>v < glength g. P ! v \<noteq> 0 \<longrightarrow>
            P ! v < glength g \<and> marked D (P ! v) \<and> edgeExists g (P ! v) v \<and> (\<exists>d. S ! v = Fin d))
     \<and> (\<forall>v < glength g. marked D v \<longrightarrow> (\<exists>k. steps P v k)))"

lemma dinv_initial:
  assumes "s < glength g"
  shows "dinv g s (distSet (replicate (glength g) Infinity) s (Fin 0),
                   replicate (glength g) False, replicate (glength g) 0)"
proof -
  let ?n = "glength g"
  let ?S = "(replicate ?n Infinity)[s := Fin 0]"
  have S: "distSet (replicate ?n Infinity) s (Fin 0) = ?S"
    using assms by (simp add: distSet_def)
  have v: "\<And>v. v < ?n \<Longrightarrow> ?S ! v = (if v = s then Fin 0 else Infinity)"
    by (simp add: nth_list_update)
  have um: "\<And>u. \<not> marked (replicate ?n False) u" by (simp add: marked_def)
  show ?thesis
    unfolding dinv_def S using assms
    by (simp add: v um walkTo.start)
qed

lemma steps_agree:
  assumes agree: "\<And>x. x < n \<Longrightarrow> marked D' x \<Longrightarrow> P' ! x = P ! x"
    and pred: "\<And>x. x < n \<Longrightarrow> P ! x \<noteq> 0 \<Longrightarrow> P ! x < n \<and> marked D' (P ! x)"
  shows "v < n \<Longrightarrow> marked D' v \<Longrightarrow> steps P v k \<Longrightarrow> steps P' v k"
proof (induction k arbitrary: v)
  case 0
  then show ?case using agree by simp
next
  case (Suc k)
  then have p: "P ! v \<noteq> 0" "steps P (P ! v) k" by simp_all
  from pred[OF Suc.prems(1) p(1)] have "P ! v < n" "marked D' (P ! v)" by simp_all
  from Suc.IH[OF this p(2)] show ?case
    using agree[OF Suc.prems(1,2)] p(1) by simp
qed

lemma dinvI:
  assumes "length S = glength g" "length D = glength g" "length P = glength g"
    "S ! s = Fin 0"
    "\<forall>v < glength g. good (S ! v)"
    "\<forall>v < glength g. \<forall>d. S ! v = Fin d \<longrightarrow> walkTo g s v (Fin d)"
    "\<forall>u < glength g. marked D u \<longrightarrow> (\<exists>d. S ! u = Fin d)"
    "\<forall>u < glength g. \<forall>v < glength g. marked D u \<longrightarrow> \<not> marked D v \<longrightarrow> dist_le (S ! u) (S ! v)"
    "\<forall>u < glength g. \<forall>v < glength g. marked D u \<longrightarrow> edgeExists g u v \<longrightarrow>
            dist_le (S ! v) (distPlus (S ! u) (getWeight g u v))"
    "\<forall>v < glength g. P ! v \<noteq> 0 \<longrightarrow>
            P ! v < glength g \<and> marked D (P ! v) \<and> edgeExists g (P ! v) v \<and> (\<exists>d. S ! v = Fin d)"
    "\<forall>v < glength g. marked D v \<longrightarrow> (\<exists>k. steps P v k)"
  shows "dinv g s (S, D, P)"
  unfolding dinv_def prod.case using assms by (intro conjI) assumption+

lemma dinvD:
  assumes "dinv g s (S, D, P)"
  shows "length S = glength g" "length D = glength g" "length P = glength g"
    "S ! s = Fin 0"
    "\<And>v. v < glength g \<Longrightarrow> good (S ! v)"
    "\<And>v d. v < glength g \<Longrightarrow> S ! v = Fin d \<Longrightarrow> walkTo g s v (Fin d)"
    "\<And>u. u < glength g \<Longrightarrow> marked D u \<Longrightarrow> \<exists>d. S ! u = Fin d"
    "\<And>u v. u < glength g \<Longrightarrow> v < glength g \<Longrightarrow> marked D u \<Longrightarrow> \<not> marked D v \<Longrightarrow> dist_le (S ! u) (S ! v)"
    "\<And>u v. u < glength g \<Longrightarrow> v < glength g \<Longrightarrow> marked D u \<Longrightarrow> edgeExists g u v \<Longrightarrow>
            dist_le (S ! v) (distPlus (S ! u) (getWeight g u v))"
    "\<And>v. v < glength g \<Longrightarrow> P ! v \<noteq> 0 \<Longrightarrow>
            P ! v < glength g \<and> marked D (P ! v) \<and> edgeExists g (P ! v) v \<and> (\<exists>d. S ! v = Fin d)"
    "\<And>v. v < glength g \<Longrightarrow> marked D v \<Longrightarrow> \<exists>k. steps P v k"
  using assms unfolding dinv_def prod.case by blast+

lemma dinv_step:
  assumes nn: "nonNegative g" and s: "s < glength g"
    and inv: "dinv g s (S, D, P)"
    and m: "m < glength g" "\<not> marked D m" "S ! m = Fin d"
    and least: "\<And>i. i < glength g \<Longrightarrow> \<not> marked D i \<Longrightarrow> dist_le (Fin d) (S ! i)"
    and rel: "relax g m [0..<glength g] (S, P) = (S', P')"
  shows "dinv g s (S', mark D m, P')"
proof -
  let ?n = "glength g"
  note I = dinvD[OF inv]
  define X where "X v = distPlus (Fin d) (getWeight g m v)" for v
  define C where "C v = (edgeExists g m v \<and> dist_less (X v) (S ! v))" for v
  have pre: "\<And>i. i \<in> set [0..<?n] \<Longrightarrow> i < length S" using I(1) by simp
  have mS: "m < length S" using m(1) I(1) by simp
  have PS: "length P = length S" using I(1,3) by simp
  from relax_nth[OF distinct_upt pre PS mS edgeExists_irrefl rel]
  have L: "length S' = ?n" "length P' = ?n"
    and R0: "\<And>v. v < ?n \<Longrightarrow>
            (if v \<in> set [0..<?n] \<and> edgeExists g m v
                \<and> dist_less (distPlus (S ! m) (getWeight g m v)) (S ! v)
             then S' ! v = distPlus (S ! m) (getWeight g m v) \<and> P' ! v = m
             else S' ! v = S ! v \<and> P' ! v = P ! v)"
    using I(1) by simp_all
  have R: "\<And>v. v < ?n \<Longrightarrow> S' ! v = (if C v then X v else S ! v)"
          "\<And>v. v < ?n \<Longrightarrow> P' ! v = (if C v then m else P ! v)"
    using R0 unfolding C_def X_def m(3) by (simp_all split: if_splits)
  have gd: "good (Fin d)" using I(5)[OF m(1)] m(3) by simp
  have W: "\<And>v. edgeExists g m v \<Longrightarrow>
             good (X v) \<and> dist_le (Fin d) (X v) \<and> walkTo g s v (X v)"
  proof -
    fix v assume "edgeExists g m v"
    then obtain w where w: "getWeight g m v = Some w" unfolding edgeExists_getWeight by blast
    then have w0: "0 \<le> w" by (rule getWeight_nonNegative[OF nn])
    have "walkTo g s v (distPlus (Fin d) (Some w))"
      using I(6)[OF m(1) m(3)] w by (rule walkTo.step)
    then show "good (X v) \<and> dist_le (Fin d) (X v) \<and> walkTo g s v (X v)"
      using distPlus_good[OF gd w0] distPlus_increases[OF gd w0] by (simp add: X_def w)
  qed
  have d0: "0 \<le> d" using gd by simp
  have K: "\<And>u. u < ?n \<Longrightarrow> marked D u \<Longrightarrow> \<not> C u"
  proof
    fix u assume u: "u < ?n" "marked D u" and c: "C u"
    have "dist_le (S ! u) (S ! m)" using I(8)[OF u(1) m(1) u(2) m(2)] .
    then have "dist_le (S ! u) (Fin d)" using m(3) by simp
    moreover have "dist_le (Fin d) (X u)" using W c unfolding C_def by blast
    ultimately have "dist_le (S ! u) (X u)" by (rule dist_le_trans)
    then have "\<not> dist_less (X u) (S ! u)" by (rule dist_le_not_less)
    then show False using c by (simp add: C_def)
  qed
  have Km: "\<not> C m" by (simp add: C_def)
  have keep: "\<And>u. u < ?n \<Longrightarrow> marked (mark D m) u \<Longrightarrow> S' ! u = S ! u \<and> P' ! u = P ! u"
    using K Km R by (auto simp: marked_mark)
  have dec: "\<And>v. v < ?n \<Longrightarrow> dist_le (S' ! v) (S ! v)"
  proof -
    fix v assume v: "v < ?n"
    show "dist_le (S' ! v) (S ! v)"
    proof (cases "C v")
      case True
      then show ?thesis using R(1)[OF v] by (simp add: C_def dist_less_le)
    next
      case False
      then show ?thesis using R(1)[OF v] good_defined[OF I(5)[OF v]] by (simp add: dist_le_refl)
    qed
  qed
  have J1: "length S' = ?n" by (rule L(1))
  have J2: "length (mark D m) = ?n" using I(2) m(1) by (simp add: mark_def)
  have J3: "length P' = ?n" by (rule L(2))
  have J4: "S' ! s = Fin 0"
  proof (cases "C s")
    case True
    then have "dist_le (Fin d) (X s)" using W unfolding C_def by blast
    moreover have "dist_le (Fin 0) (Fin d)" using d0 by simp
    ultimately have "dist_le (Fin 0) (X s)" by (rule dist_le_trans[rotated])
    then have "\<not> dist_less (X s) (Fin 0)" by (rule dist_le_not_less)
    then show ?thesis using True I(4) by (simp add: C_def)
  next
    case False
    then show ?thesis using R(1)[OF s] I(4) by simp
  qed
  have J5: "\<forall>v < ?n. good (S' ! v)"
  proof (intro allI impI)
    fix v assume v: "v < ?n"
    show "good (S' ! v)"
    proof (cases "C v")
      case True
      then have "good (X v)" using W unfolding C_def by blast
      then show ?thesis using R(1)[OF v] True by simp
    next
      case False
      then show ?thesis using R(1)[OF v] I(5)[OF v] by simp
    qed
  qed
  have J6: "\<forall>v < ?n. \<forall>d'. S' ! v = Fin d' \<longrightarrow> walkTo g s v (Fin d')"
  proof (intro allI impI)
    fix v d' assume v: "v < ?n" and e: "S' ! v = Fin d'"
    show "walkTo g s v (Fin d')"
    proof (cases "C v")
      case True
      then have "walkTo g s v (X v)" using W unfolding C_def by blast
      then show ?thesis using R(1)[OF v] True e by simp
    next
      case False
      then have "S ! v = Fin d'" using R(1)[OF v] e by simp
      then show ?thesis by (rule I(6)[OF v])
    qed
  qed
  have J7: "\<forall>u < ?n. marked (mark D m) u \<longrightarrow> (\<exists>d'. S' ! u = Fin d')"
  proof (intro allI impI)
    fix u assume u: "u < ?n" "marked (mark D m) u"
    then have e: "S' ! u = S ! u" using keep by simp
    show "\<exists>d'. S' ! u = Fin d'"
    proof (cases "u = m")
      case True
      then show ?thesis using e m(3) by simp
    next
      case False
      then have "marked D u" using u(2) by (simp add: marked_mark)
      then show ?thesis using I(7)[OF u(1)] e by simp
    qed
  qed
  have le_d: "\<And>u. u < ?n \<Longrightarrow> marked (mark D m) u \<Longrightarrow> dist_le (S ! u) (Fin d)"
  proof -
    fix u assume u: "u < ?n" "marked (mark D m) u"
    show "dist_le (S ! u) (Fin d)"
    proof (cases "u = m")
      case True
      then show ?thesis using m(3) by simp
    next
      case False
      then have "marked D u" using u(2) by (simp add: marked_mark)
      then show ?thesis using I(8)[OF u(1) m(1) _ m(2)] m(3) by simp
    qed
  qed
  have J8: "\<forall>u < ?n. \<forall>v < ?n. marked (mark D m) u \<longrightarrow> \<not> marked (mark D m) v \<longrightarrow>
              dist_le (S' ! u) (S' ! v)"
  proof (intro allI impI)
    fix u v assume u: "u < ?n" "marked (mark D m) u" and v: "v < ?n" "\<not> marked (mark D m) v"
    have vD: "\<not> marked D v" using v(2) by (simp add: marked_mark)
    have a: "dist_le (S' ! u) (Fin d)" using keep[OF u] le_d[OF u] by simp
    have b: "dist_le (Fin d) (S' ! v)"
    proof (cases "C v")
      case True
      then have "dist_le (Fin d) (X v)" using W unfolding C_def by blast
      then show ?thesis using R(1)[OF v(1)] True by simp
    next
      case False
      then show ?thesis using R(1)[OF v(1)] least[OF v(1) vD] by simp
    qed
    show "dist_le (S' ! u) (S' ! v)" using a b by (rule dist_le_trans)
  qed
  have J9: "\<forall>u < ?n. \<forall>v < ?n. marked (mark D m) u \<longrightarrow> edgeExists g u v \<longrightarrow>
            dist_le (S' ! v) (distPlus (S' ! u) (getWeight g u v))"
  proof (intro allI impI)
    fix u v assume u: "u < ?n" "marked (mark D m) u" and v: "v < ?n" and e: "edgeExists g u v"
    have su: "S' ! u = S ! u" using keep[OF u] by simp
    show "dist_le (S' ! v) (distPlus (S' ! u) (getWeight g u v))"
    proof (cases "u = m")
      case True
      have x: "distPlus (S' ! u) (getWeight g u v) = X v"
        using su True m(3) by (simp add: X_def)
      have gx: "X v \<noteq> Undefined" using W e True good_defined by blast
      show ?thesis
      proof (cases "C v")
        case True
        then show ?thesis using R(1)[OF v] x gx by (simp add: dist_le_refl)
      next
        case False
        then have "\<not> dist_less (X v) (S ! v)" using e \<open>u = m\<close> by (simp add: C_def)
        then have "dist_le (S ! v) (X v)"
          using good_defined[OF I(5)[OF v]] gx by (intro dist_not_less) simp_all
        then show ?thesis using R(1)[OF v] False x by simp
      qed
    next
      case False
      then have "marked D u" using u(2) by (simp add: marked_mark)
      from I(9)[OF u(1) v this e]
      have "dist_le (S ! v) (distPlus (S ! u) (getWeight g u v))" .
      then show ?thesis using dec[OF v] su by (auto intro: dist_le_trans)
    qed
  qed
  have J10: "\<forall>v < ?n. P' ! v \<noteq> 0 \<longrightarrow>
            P' ! v < ?n \<and> marked (mark D m) (P' ! v) \<and> edgeExists g (P' ! v) v \<and> (\<exists>d'. S' ! v = Fin d')"
  proof (intro allI impI)
    fix v assume v: "v < ?n" and p: "P' ! v \<noteq> 0"
    show "P' ! v < ?n \<and> marked (mark D m) (P' ! v) \<and> edgeExists g (P' ! v) v \<and> (\<exists>d'. S' ! v = Fin d')"
    proof (cases "C v")
      case True
      then have "good (X v)" "dist_less (X v) (S ! v)" using W unfolding C_def by blast+
      then obtain x where "X v = Fin x" by (blast dest: good_less_Fin)
      then show ?thesis using True R[OF v] m(1) by (simp add: marked_mark C_def)
    next
      case False
      then have "P' ! v = P ! v" "S' ! v = S ! v" using R[OF v] by simp_all
      then show ?thesis using I(10)[OF v] p by (simp add: marked_mark)
    qed
  qed
  have J11: "\<forall>v < ?n. marked (mark D m) v \<longrightarrow> (\<exists>k. steps P' v k)"
  proof (intro allI impI)
    fix v assume v: "v < ?n" "marked (mark D m) v"
    have agree: "\<And>x. x < ?n \<Longrightarrow> marked (mark D m) x \<Longrightarrow> P' ! x = P ! x" using keep by simp
    have pred: "\<And>x. x < ?n \<Longrightarrow> P ! x \<noteq> 0 \<Longrightarrow> P ! x < ?n \<and> marked (mark D m) (P ! x)"
      using I(10) by (simp add: marked_mark)
    have old: "\<exists>k. steps P v k"
    proof (cases "marked D v")
      case True
      then show ?thesis using I(11)[OF v(1)] by simp
    next
      case False
      then have vm: "v = m" using v(2) by (simp add: marked_mark)
      show ?thesis
      proof (cases "P ! m = 0")
        case True
        then have "steps P m 0" by simp
        then show ?thesis using vm by blast
      next
        case False
        from I(10)[OF m(1) False] have "P ! m < ?n" "marked D (P ! m)" by simp_all
        from I(11)[OF this] obtain k where "steps P (P ! m) k" by blast
        then have "steps P m (Suc k)" using False by simp
        then show ?thesis using vm by blast
      qed
    qed
    then obtain k where "steps P v k" by blast
    from steps_agree[of ?n "mark D m" P' P, OF agree pred v this]
    show "\<exists>k. steps P' v k" by blast
  qed
  show ?thesis by (rule dinvI[OF J1 J2 J3 J4 J5 J6 J7 J8 J9 J10 J11])
qed

lemma unmarked_zero: "unmarked n D = 0 \<Longrightarrow> v < n \<Longrightarrow> marked D v"
proof -
  assume a: "unmarked n D = 0" "v < n"
  have "finite {i. i < n \<and> \<not> marked D i}" by simp
  then have "{i. i < n \<and> \<not> marked D i} = {}" using a(1) unfolding unmarked_def by simp
  then show "marked D v" using a(2) by blast
qed

lemma dijkstraLoop_inv:
  assumes nn: "nonNegative g" and s: "s < glength g"
  shows "dinv g s (S, D, P) \<Longrightarrow> unmarked (glength g) D \<le> k \<Longrightarrow>
         \<exists>S' D' P'. dijkstraLoop g k (S, D, P) = (S', D', P') \<and> dinv g s (S', D', P')
            \<and> (\<forall>v < glength g. \<not> marked D' v \<longrightarrow> S' ! v = Infinity)"
proof (induction k arbitrary: S D P)
  case 0
  then have "\<forall>v < glength g. marked D v" using unmarked_zero[of "glength g" D] by simp
  then show ?case using "0.prems"(1) by simp
next
  case (Suc k)
  let ?n = "glength g"
  note I = dinvD[OF Suc.prems(1)]
  have pre: "\<And>i. i < ?n \<Longrightarrow> i < length S \<and> good (S ! i)" using I(1,5) by simp
  from selectMin_start[of ?n S D, OF pre]
  show ?case
  proof
    assume a: "selectMin S D [0..<?n] (Infinity, None) = (Infinity, None)
                 \<and> (\<forall>i < ?n. \<not> marked D i \<longrightarrow> S ! i = Infinity)"
    then have "dijkstraLoop g (Suc k) (S, D, P) = (S, D, P)" by simp
    then show ?thesis using a Suc.prems(1) by simp
  next
    assume "\<exists>m d. selectMin S D [0..<?n] (Infinity, None) = (Fin d, Some m) \<and> m < ?n
            \<and> \<not> marked D m \<and> S ! m = Fin d \<and> (\<forall>i < ?n. \<not> marked D i \<longrightarrow> dist_le (Fin d) (S ! i))"
    then obtain m d where sel: "selectMin S D [0..<?n] (Infinity, None) = (Fin d, Some m)"
      and m: "m < ?n" "\<not> marked D m" "S ! m = Fin d"
      and least: "\<And>i. i < ?n \<Longrightarrow> \<not> marked D i \<Longrightarrow> dist_le (Fin d) (S ! i)"
      by blast
    obtain S1 P1 where rel: "relax g m [0..<?n] (S, P) = (S1, P1)"
      by (cases "relax g m [0..<?n] (S, P)") auto
    have inv1: "dinv g s (S1, mark D m, P1)"
      by (rule dinv_step[OF nn s Suc.prems(1) m least rel])
    have "Suc (unmarked ?n (mark D m)) = unmarked ?n D" by (rule unmarked_mark[OF m(1,2)])
    then have "unmarked ?n (mark D m) \<le> k" using Suc.prems(2) by linarith
    from Suc.IH[OF inv1 this] obtain S' D' P' where
      r: "dijkstraLoop g k (S1, mark D m, P1) = (S', D', P')" "dinv g s (S', D', P')"
         "\<forall>v < ?n. \<not> marked D' v \<longrightarrow> S' ! v = Infinity" by blast
    have "dijkstraLoop g (Suc k) (S, D, P) = (S', D', P')"
      using sel rel r(1) by simp
    then show ?thesis using r(2,3) by blast
  qed
qed

lemma dijkstraArrays_inv:
  assumes nn: "nonNegative g" and s: "s < glength g"
  shows "\<exists>S D P. dijkstraArrays g s = (S, D, P) \<and> dinv g s (S, D, P)
            \<and> (\<forall>v < glength g. \<not> marked D v \<longrightarrow> S ! v = Infinity)"
proof -
  let ?n = "glength g"
  have "unmarked ?n (replicate ?n False) \<le> ?n" by (rule unmarked_le)
  from dijkstraLoop_inv[OF nn s dinv_initial[OF s] this]
  show ?thesis unfolding dijkstraArrays_def .
qed

lemma dijkstra_lower_bound:
  assumes nn: "nonNegative g" and len: "length (G g) = glength g" and s: "s < glength g"
    and inv: "dinv g s (S, D, P)"
    and fin: "\<And>v. v < glength g \<Longrightarrow> \<not> marked D v \<Longrightarrow> S ! v = Infinity"
  shows "walkTo g s v d \<Longrightarrow> v < glength g \<and> dist_le (S ! v) d"
proof (induction rule: walkTo.induct)
  case start
  then show ?case using s dinvD(4)[OF inv] by simp
next
  case (step u d v w)
  note I = dinvD[OF inv]
  from step.IH have u: "u < glength g" "dist_le (S ! u) d" by simp_all
  have e: "edgeExists g u v" unfolding edgeExists_getWeight using step.hyps(2) by blast
  then have v: "v < glength g" using edgeExists_bound[OF e] len by simp
  have w0: "0 \<le> w" using nn step.hyps(2) by (rule getWeight_nonNegative)
  have gu: "good (S ! u)" by (rule I(5)[OF u(1)])
  have "dist_le (S ! v) (distPlus d (Some w))"
  proof (cases "marked D u")
    case True
    from I(9)[OF u(1) v True e]
    have "dist_le (S ! v) (distPlus (S ! u) (Some w))" using step.hyps(2) by simp
    moreover have "dist_le (distPlus (S ! u) (Some w)) (distPlus d (Some w))"
      using gu u(2) w0 by (rule distPlus_mono)
    ultimately show ?thesis by (rule dist_le_trans)
  next
    case False
    then have "S ! u = Infinity" using fin[OF u(1)] by simp
    then have "d = Infinity" using u(2) by (simp add: dist_le_Infinity)
    then show ?thesis using I(5)[OF v] by (simp add: distPlus_def good_le_Infinity)
  qed
  then show ?case using v by simp
qed

lemma pathLoop_steps:
  assumes pred: "\<And>x. x < length P \<Longrightarrow> P ! x \<noteq> 0 \<Longrightarrow> P ! x < length P"
  shows "steps P i k \<Longrightarrow> i < length P \<Longrightarrow> pathLoop g P i path = Some (path @ chain g P i k)"
proof (induction k arbitrary: i path)
  case 0
  then show ?case by (subst pathLoop.simps) simp
next
  case (Suc k)
  then have p: "P ! i \<noteq> 0" "steps P (P ! i) k" by simp_all
  have "P ! i < length P" using pred[OF Suc.prems(2) p(1)] .
  from Suc.IH[OF p(2) this, of "path @ [createEdge g (P ! i) i]"]
  show ?case using p(1) Suc.prems(2) by (subst pathLoop.simps) simp
qed

lemma final_steps:
  assumes inv: "dinv g s (S, D, P)" and t: "t < glength g"
  shows "\<exists>k. steps P t k"
proof (cases "P ! t = 0")
  case True
  then have "steps P t 0" by simp
  then show ?thesis by blast
next
  case False
  note I = dinvD[OF inv]
  from I(10)[OF t False] have "P ! t < glength g" "marked D (P ! t)" by simp_all
  from I(11)[OF this] obtain k where "steps P (P ! t) k" by blast
  then have "steps P t (Suc k)" using False by simp
  then show ?thesis by blast
qed

text \<open>A graph with one edge of negative weight, the weight a merge gives to every edge it builds.\<close>

definition negativeEdge :: "string graph" where
  "negativeEdge = TransitGraph [routeEdge 1 2 (- 1)] 3 [''s0'', ''s1'', ''s2'']"

lemma pathLoop_cycle:
  fixes g :: "'s graph"
  assumes "pathLoop g P i path = Some y"
  shows "P = [0, 2, 1] \<longrightarrow> i = 1 \<or> i = 2 \<longrightarrow> False"
proof -
  define Q :: "((('s graph \<times> nat list) \<times> nat) \<times> edge option list) \<Rightarrow> edge option list \<Rightarrow> bool"
    where "Q x y = (snd (fst (fst x)) = [0, 2, 1] \<longrightarrow> snd (fst x) = 1 \<or> snd (fst x) = 2 \<longrightarrow> False)"
    for x y
  have "Q (((g, P), i), path) y"
  proof (rule pathLoop.raw_induct[where Pa = Q, OF _ assms])
    fix f :: "'s graph \<Rightarrow> nat list \<Rightarrow> nat \<Rightarrow> edge option list \<Rightarrow> edge option list option"
    fix g' P' i' path' y'
    assume IH: "\<And>g P i path y. f g P i path = Some y \<Longrightarrow> Q (((g, P), i), path) y"
      and body: "(if i' < length P'
                  then if P' ! i' \<noteq> 0
                       then f g' P' (P' ! i') (path' @ [createEdge g' (P' ! i') i'])
                       else Some path'
                  else None) = Some y'"
    show "Q (((g', P'), i'), path') y'"
      unfolding Q_def
    proof (intro impI)
      assume P': "snd (fst (fst (((g', P'), i'), path'))) = [0, 2, 1]"
        and i': "snd (fst (((g', P'), i'), path')) = 1 \<or> snd (fst (((g', P'), i'), path')) = 2"
      then have e: "P' = [0, 2, 1]" "i' = 1 \<or> i' = 2" by simp_all
      then have nz: "P' ! i' \<noteq> 0" "P' ! i' = 1 \<or> P' ! i' = 2" "i' < length P'" by auto
      then have "f g' P' (P' ! i') (path' @ [createEdge g' (P' ! i') i']) = Some y'"
        using body by simp
      from IH[OF this] show False unfolding Q_def using e(1) nz(2) by simp
    qed
  qed
  then show ?thesis by (simp add: Q_def)
qed

text \<open>
  C5, as stated for every call, fails on a graph with a negative weight: from node 1 the main
  loop leaves \<^verbatim>\<open>P[1] = 2\<close> and \<^verbatim>\<open>P[2] = 1\<close>, and the path loop from the target 2 never meets
  the sentinel, so nothing is reported.
\<close>

theorem dijkstra_negative_weight_counterexample:
  "dijkstraArrays negativeEdge 1 = ([Infinity, Fin (- 2), Fin (- 1)], [False, True, True], [0, 2, 1])
   \<and> dijkstra negativeEdge 1 2 = None"
proof -
  have a: "dijkstraArrays negativeEdge 1
             = ([Infinity, Fin (- 2), Fin (- 1)], [False, True, True], [0, 2, 1])"
    by code_simp
  have "pathLoop negativeEdge [0, 2, 1] 2 [] \<noteq> Some y" for y
    using pathLoop_cycle[of negativeEdge "[0, 2, 1]" 2 "[]" y] by blast
  then have n: "pathLoop negativeEdge [0, 2, 1] 2 [] = None" by blast
  show ?thesis unfolding dijkstra_def a prod.case n by simp
qed

text \<open>Every stored weight is an integer.\<close>

definition integerWeights :: "'s graph \<Rightarrow> bool" where
  "integerWeights g =
     list_all (list_all (\<lambda>c. case c of Rel t w \<Rightarrow> of_int \<lfloor>w\<rfloor> = w | _ \<Rightarrow> True)) (G g)"

lemma getWeight_integer:
  assumes "integerWeights g" "getWeight g u v = Some w"
  shows "of_int \<lfloor>w\<rfloor> = w"
proof -
  from assms(2) obtain t where r: "relation g u v = Rel t w"
    by (cases "relation g u v" rule: cell.exhaust) (simp_all add: getWeight_def)
  then have in_range: "u \<noteq> v" "max u v < length (G g)" "min u v < length (G g ! max u v)"
    and cell: "G g ! max u v ! min u v = Rel t w"
    by (auto simp: relation_def split: if_splits)
  have "G g ! max u v \<in> set (G g)" using in_range(2) by simp
  moreover have "G g ! max u v ! min u v \<in> set (G g ! max u v)" using in_range(3) by simp
  ultimately have "case G g ! max u v ! min u v of Rel t w \<Rightarrow> of_int \<lfloor>w\<rfloor> = w | _ \<Rightarrow> True"
    using assms(1) unfolding integerWeights_def list_all_iff by blast
  then show ?thesis by (simp add: cell)
qed

lemma pathTo_integer:
  assumes "nonNegative g" "integerWeights g" "pathTo g s v d"
  shows "0 \<le> d \<and> of_int \<lfloor>d\<rfloor> = d"
  using assms(3)
proof (induction rule: pathTo.induct)
  case start
  then show ?case by simp
next
  case (step u d v w)
  have w: "0 \<le> w" "of_int \<lfloor>w\<rfloor> = w"
    using getWeight_nonNegative[OF assms(1) step.hyps(2)] getWeight_integer[OF assms(2) step.hyps(2)]
    by simp_all
  from step.IH obtain a where a: "d = of_int a" by (metis)
  from w(2) obtain b where b: "w = of_int b" by (metis)
  have "d + w = of_int (a + b)" using a b by simp
  then have "of_int \<lfloor>d + w\<rfloor> = d + w" by (metis floor_of_int)
  moreover have "0 \<le> d + w" using step.IH w(1) by simp
  ultimately show ?case by blast
qed

lemma toDouble_integer:
  assumes "0 \<le> x" "of_int \<lfloor>x\<rfloor> = x" "x \<le> 2 ^ 53"
  shows "toDouble x = Fin x"
proof -
  have "0 \<le> \<lfloor>x\<rfloor>" using assms(1) by simp
  moreover have "\<lfloor>x\<rfloor> \<le> 2 ^ 53"
  proof -
    have "x \<le> of_int (2 ^ 53)" using assms(3) by simp
    then have "\<lfloor>x\<rfloor> \<le> \<lfloor>(of_int (2 ^ 53) :: rat)\<rfloor>" by (rule floor_mono)
    then show ?thesis by (simp only: floor_of_int)
  qed
  ultimately have "toDouble (of_int \<lfloor>x\<rfloor>) = Fin (of_int \<lfloor>x\<rfloor>)" by (rule toDouble_of_int)
  then show ?thesis using assms(2) by simp
qed

lemma toDouble_two53: "toDouble (2 ^ 53) = Fin (2 ^ 53)"
  using toDouble_of_int[of "2 ^ 53"] by simp

lemma toDouble_two53_numeral: "toDouble 9007199254740992 = Fin 9007199254740992"
  using toDouble_two53 by simp

text \<open>A walk of exact weight at most \<open>2 ^ 53\<close> has the same weight in double arithmetic.\<close>

lemma exact_walk:
  assumes "nonNegative g" "integerWeights g" "pathTo g s v d"
  shows "d \<le> 2 ^ 53 \<longrightarrow> walkTo g s v (Fin d)"
  using assms(3)
proof (induction rule: pathTo.induct)
  case start
  then show ?case by (simp add: walkTo.start)
next
  case (step u d v w)
  show ?case
  proof
    assume le: "d + w \<le> 2 ^ 53"
    have w: "0 \<le> w" using getWeight_nonNegative[OF assms(1) step.hyps(2)] .
    then have "d \<le> 2 ^ 53" using le by linarith
    then have "walkTo g s u (Fin d)" using step.IH by simp
    then have "walkTo g s v (distPlus (Fin d) (Some w))" using step.hyps(2) by (rule walkTo.step)
    moreover have "0 \<le> d + w \<and> of_int \<lfloor>d + w\<rfloor> = d + w"
      using pathTo_integer[OF assms(1,2) pathTo.step[OF step.hyps]] .
    then have "toDouble (d + w) = Fin (d + w)" using le by (simp add: toDouble_integer)
    ultimately show "walkTo g s v (Fin (d + w))" by (simp add: distPlus_def)
  qed
qed

text \<open>
  The weight of a walk in double arithmetic is its exact weight, or both are \<open>2 ^ 53\<close> at
  least.
\<close>

lemma walk_exact:
  assumes "nonNegative g" "integerWeights g" "walkTo g s v r"
  shows "\<exists>d. pathTo g s v d \<and> (r = Fin d \<or> (2 ^ 53 < d \<and> dist_le (Fin (2 ^ 53)) r))"
  using assms(3)
proof (induction rule: walkTo.induct)
  case start
  have "pathTo g s s 0" by (rule pathTo.start)
  then show ?case by blast
next
  case (step u r v w)
  from step.IH obtain d where d: "pathTo g s u d"
    and c: "r = Fin d \<or> (2 ^ 53 < d \<and> dist_le (Fin (2 ^ 53)) r)" by blast
  have w: "0 \<le> w" using getWeight_nonNegative[OF assms(1) step.hyps(2)] .
  have p: "pathTo g s v (d + w)" using d step.hyps(2) by (rule pathTo.step)
  have i: "0 \<le> d + w" "of_int \<lfloor>d + w\<rfloor> = d + w" using pathTo_integer[OF assms(1,2) p] by simp_all
  have d0: "0 \<le> d" using pathTo_integer[OF assms(1,2) d] by simp
  have g53: "good (Fin (2 ^ 53))" using toDouble_two53_numeral by simp
  have up: "dist_le (Fin (2 ^ 53)) (toDouble (2 ^ 53 + w))"
    using toDouble_mono[of "2 ^ 53" "2 ^ 53 + w"] w by (simp add: toDouble_two53_numeral)
  from c have "distPlus r (Some w) = Fin (d + w)
               \<or> (2 ^ 53 < d + w \<and> dist_le (Fin (2 ^ 53)) (distPlus r (Some w)))"
  proof
    assume r: "r = Fin d"
    show ?thesis
    proof (cases "d + w \<le> 2 ^ 53")
      case True
      then have "toDouble (d + w) = Fin (d + w)" using i by (simp add: toDouble_integer)
      then show ?thesis using r by (simp add: distPlus_def)
    next
      case False
      then have lt: "2 ^ 53 < d + w" by simp
      have "dist_le (toDouble (2 ^ 53)) (toDouble (d + w))"
        using lt by (intro toDouble_mono) simp_all
      then show ?thesis using r lt by (simp add: distPlus_def toDouble_two53_numeral)
    qed
  next
    assume a: "2 ^ 53 < d \<and> dist_le (Fin (2 ^ 53)) r"
    then have "dist_le (distPlus (Fin (2 ^ 53)) (Some w)) (distPlus r (Some w))"
      using g53 w by (intro distPlus_mono) simp_all
    then have "dist_le (toDouble (2 ^ 53 + w)) (distPlus r (Some w))" by (simp add: distPlus_def)
    with up have "dist_le (Fin (2 ^ 53)) (distPlus r (Some w))" by (rule dist_le_trans)
    moreover have "2 ^ 53 < d + w" using a w by linarith
    ultimately show ?thesis by simp
  qed
  with p show ?case by blast
qed

text \<open>The nodes that a walk reaches are the same for both weights.\<close>

lemma walkTo_reaches: "(\<exists>d. walkTo g s v d) = (\<exists>d. pathTo g s v d)"
proof
  assume "\<exists>d. walkTo g s v d"
  then obtain d where "walkTo g s v d" by blast
  then show "\<exists>d. pathTo g s v d"
  proof (induction rule: walkTo.induct)
    case start
    show ?case using pathTo.start by blast
  next
    case (step u d v w)
    then obtain d' where "pathTo g s u d'" by blast
    then have "pathTo g s v (d' + w)" using step.hyps(2) by (rule pathTo.step)
    then show ?case by blast
  qed
next
  assume "\<exists>d. pathTo g s v d"
  then obtain d where "pathTo g s v d" by blast
  then show "\<exists>d. walkTo g s v d"
  proof (induction rule: pathTo.induct)
    case start
    show ?case using walkTo.start by blast
  next
    case (step u d v w)
    then obtain r where "walkTo g s u r" by blast
    then have "walkTo g s v (distPlus r (Some w))" using step.hyps(2) by (rule walkTo.step)
    then show ?case by blast
  qed
qed

text \<open>
  C4, amended.  On a graph as the constructor builds it, with no negative weight, and for a
  start node of the graph: for every node that a walk from the start reaches, \<^verbatim>\<open>S\<close> holds the
  least weight of such a walk, where the weight of a walk is the sum of its weights taken from
  the start in double arithmetic, each sum rounded to the nearest double and an overflow giving
  \<^verbatim>\<open>Infinity\<close>; for every other node \<^verbatim>\<open>S\<close> holds \<^verbatim>\<open>Infinity\<close>, \<^verbatim>\<open>dijkstra\<close> returns, and the
  traverser receives nothing but the summary with the path length \<^verbatim>\<open>Infinity\<close>.  When the
  weights are integers and the exact shortest distance of a node is at most \<open>2 ^ 53\<close>, \<^verbatim>\<open>S\<close>
  holds that distance.
\<close>

theorem dijkstra_shortest_distances:
  assumes "wf_graph g" "nonNegative g" "start < glength g"
  shows "\<exists>S D P. dijkstraArrays g start = (S, D, P) \<and> length S = glength g
     \<and> (\<forall>v < glength g.
          ((\<exists>d. walkTo g start v d) \<longrightarrow>
             walkTo g start v (S ! v) \<and> (\<forall>d. walkTo g start v d \<longrightarrow> dist_le (S ! v) d))
        \<and> ((\<nexists>d. walkTo g start v d) \<longrightarrow>
             S ! v = Infinity \<and> dijkstra g start v = Some [Summary (PathLength Infinity)])
        \<and> (integerWeights g \<longrightarrow>
             (\<forall>d. pathTo g start v d \<and> (\<forall>d'. pathTo g start v d' \<longrightarrow> d \<le> d') \<and> d \<le> 2 ^ 53
                  \<longrightarrow> S ! v = Fin d)))"
proof -
  let ?n = "glength g"
  have len: "length (G g) = ?n" using assms(1) by (simp add: wf_graph_def glength_def)
  from dijkstraArrays_inv[OF assms(2,3)] obtain S D P where
    r: "dijkstraArrays g start = (S, D, P)" and inv: "dinv g start (S, D, P)"
    and fin: "\<And>v. v < ?n \<Longrightarrow> \<not> marked D v \<Longrightarrow> S ! v = Infinity" by blast
  note I = dinvD[OF inv]
  have lb: "\<And>v d. walkTo g start v d \<Longrightarrow> dist_le (S ! v) d"
    using dijkstra_lower_bound[OF assms(2) len assms(3) inv] fin by blast
  have reach: "walkTo g start v (S ! v)" if v: "v < ?n" and w: "walkTo g start v d0" for v d0
  proof (cases "S ! v")
    case (Fin x)
    then show ?thesis using I(6)[OF v] by simp
  next
    case Infinity
    have "dist_le (S ! v) d0" using lb[OF w] .
    then have "d0 = Infinity" using Infinity by (simp add: dist_le_Infinity)
    then show ?thesis using w Infinity by simp
  qed (use I(5)[OF v] in simp_all)
  have "\<forall>v < ?n.
          ((\<exists>d. walkTo g start v d) \<longrightarrow>
             walkTo g start v (S ! v) \<and> (\<forall>d. walkTo g start v d \<longrightarrow> dist_le (S ! v) d))
        \<and> ((\<nexists>d. walkTo g start v d) \<longrightarrow>
             S ! v = Infinity \<and> dijkstra g start v = Some [Summary (PathLength Infinity)])
        \<and> (integerWeights g \<longrightarrow>
             (\<forall>d. pathTo g start v d \<and> (\<forall>d'. pathTo g start v d' \<longrightarrow> d \<le> d') \<and> d \<le> 2 ^ 53
                  \<longrightarrow> S ! v = Fin d))"
  proof (intro allI impI conjI)
    fix v assume v: "v < ?n" and "\<exists>d. walkTo g start v d"
    then obtain d0 where "walkTo g start v d0" by blast
    then show "walkTo g start v (S ! v)" using v by (rule reach[rotated])
  next
    fix v d assume "walkTo g start v d"
    then show "dist_le (S ! v) d" by (rule lb)
  next
    fix v assume v: "v < ?n" and un: "\<nexists>d. walkTo g start v d"
    have nf: "\<And>d. S ! v \<noteq> Fin d" using I(6)[OF v] un by blast
    then show inf: "S ! v = Infinity" using I(5)[OF v] by (cases "S ! v") auto
    have "P ! v = 0" using I(10)[OF v] nf by blast
    then have "pathLoop g P v [] = Some []"
      using v I(3) by (subst pathLoop.simps) simp
    then show "dijkstra g start v = Some [Summary (PathLength Infinity)]"
      using inf v I(1) by (simp add: dijkstra_def r distAt_def)
  next
    fix v d assume v: "v < ?n" and iw: "integerWeights g"
      and a: "pathTo g start v d \<and> (\<forall>d'. pathTo g start v d' \<longrightarrow> d \<le> d') \<and> d \<le> 2 ^ 53"
    then have p: "pathTo g start v d" and least: "\<And>d'. pathTo g start v d' \<Longrightarrow> d \<le> d'"
      and le: "d \<le> 2 ^ 53" by simp_all
    have w: "walkTo g start v (Fin d)" using exact_walk[OF assms(2) iw p] le by simp
    have up: "dist_le (S ! v) (Fin d)" using lb[OF w] .
    have "walkTo g start v (S ! v)" using v w by (rule reach)
    from walk_exact[OF assms(2) iw this] obtain d0 where d0: "pathTo g start v d0"
      and c: "S ! v = Fin d0 \<or> (2 ^ 53 < d0 \<and> dist_le (Fin (2 ^ 53)) (S ! v))" by blast
    from c show "S ! v = Fin d"
    proof
      assume e: "S ! v = Fin d0"
      then have "d0 \<le> d" using up by simp
      moreover have "d \<le> d0" using d0 by (rule least)
      ultimately show ?thesis using e by simp
    next
      assume "2 ^ 53 < d0 \<and> dist_le (Fin (2 ^ 53)) (S ! v)"
      then have lo: "dist_le (Fin (2 ^ 53)) (S ! v)" by simp
      then have "dist_le (Fin (2 ^ 53)) (Fin d)" using up by (rule dist_le_trans)
      then have "d = 2 ^ 53" using le by simp
      then show ?thesis using lo up by (simp add: dist_le_antisym)
    qed
  qed
  then show ?thesis using r I(1) by blast
qed

text \<open>
  Three stops in a row: an edge of weight \<open>2 ^ 53\<close> and an edge of weight 1.
\<close>

definition roundingGraph :: "string graph" where
  "roundingGraph = TransitGraph [routeEdge 0 1 (2 ^ 53), routeEdge 1 2 1] 3 [''s0'', ''s1'', ''s2'']"

lemma roundingGraph_weights:
  assumes "getWeight roundingGraph u v = Some w"
  shows "(u = 0 \<and> v = 1 \<and> w = 2 ^ 53) \<or> (u = 1 \<and> v = 0 \<and> w = 2 ^ 53)
         \<or> (u = 1 \<and> v = 2 \<and> w = 1) \<or> (u = 2 \<and> v = 1 \<and> w = 1)"
proof -
  have len: "length (G roundingGraph) = 3" by code_simp
  have "edgeExists roundingGraph u v" unfolding edgeExists_getWeight using assms by blast
  then have "u < 3" "v < 3" using edgeExists_bound[of roundingGraph u v] len by simp_all
  then have u: "u = 0 \<or> u = 1 \<or> u = 2" and v: "v = 0 \<or> v = 1 \<or> v = 2" by auto
  have t: "map (\<lambda>(u, v). getWeight roundingGraph u v)
             [(0, 0), (0, 1), (0, 2), (1, 0), (1, 1), (1, 2), (2, 0), (2, 1), (2, 2)]
           = [None, Some (2 ^ 53), None, Some (2 ^ 53), None, Some 1, None, Some 1, None]"
    by code_simp
  show ?thesis using u v assms t by auto
qed

lemma roundingGraph_exact:
  "pathTo roundingGraph 0 v d \<Longrightarrow>
     (v = 0 \<and> 0 \<le> d) \<or> (v = 1 \<and> 2 ^ 53 \<le> d) \<or> (v = 2 \<and> 2 ^ 53 + 1 \<le> d)"
proof (induction rule: pathTo.induct)
  case start
  then show ?case by simp
next
  case (step u d v w)
  from roundingGraph_weights[OF step.hyps(2)] step.IH show ?case by auto
qed

text \<open>
  C4, as stated with the true distance, fails where a sum is rounded: with an edge of weight
  \<open>2 ^ 53\<close> followed by an edge of weight 1, no weight is negative, the last node is at the
  distance \<open>2 ^ 53 + 1\<close> and no walk to it is shorter, and \<^verbatim>\<open>S\<close> holds \<open>2 ^ 53\<close> for it.
\<close>

theorem dijkstra_rounding_counterexample:
  "wf_graph roundingGraph \<and> nonNegative roundingGraph \<and> integerWeights roundingGraph
   \<and> dijkstraArrays roundingGraph 0
       = ([Fin 0, Fin (2 ^ 53), Fin (2 ^ 53)], [True, True, True], [0, 0, 1])
   \<and> pathTo roundingGraph 0 2 (2 ^ 53 + 1)
   \<and> \<not> (\<exists>d. pathTo roundingGraph 0 2 d \<and> d < 2 ^ 53 + 1)"
proof -
  have a: "wf_graph roundingGraph" by code_simp
  have b: "nonNegative roundingGraph" by code_simp
  have c: "integerWeights roundingGraph" by code_simp
  have e: "dijkstraArrays roundingGraph 0
       = ([Fin 0, Fin (2 ^ 53), Fin (2 ^ 53)], [True, True, True], [0, 0, 1])"
    by code_simp
  have w1: "getWeight roundingGraph 0 1 = Some (2 ^ 53)" by code_simp
  have w2: "getWeight roundingGraph 1 2 = Some 1" by code_simp
  have "pathTo roundingGraph 0 2 (0 + 2 ^ 53 + 1)"
    using pathTo.step[OF pathTo.step[OF pathTo.start w1] w2] .
  then have p: "pathTo roundingGraph 0 2 (2 ^ 53 + 1)" by simp
  have n: "\<not> (\<exists>d. pathTo roundingGraph 0 2 d \<and> d < 2 ^ 53 + 1)"
    using roundingGraph_exact[of 2] by force
  show ?thesis using a b c e p n by blast
qed

text \<open>
  C5, amended.  On a graph with no negative weight, for a start and a target of the graph: the
  main loop starts with \<^verbatim>\<open>P\<close> equal to 0 at every node; the path loop ends, after walking
  back from the target through \<open>k\<close> nonzero predecessors to the first node whose predecessor is
  0; the edges \<^verbatim>\<open>(P[i], i)\<close> it collected are reported to \<^verbatim>\<open>visit\<close> in reverse order of
  collection, and the summary with \<^verbatim>\<open>S[target]\<close> as path length follows.
\<close>

theorem dijkstra_path_reconstruction:
  assumes "nonNegative g" "start < glength g" "target < glength g"
  shows "\<exists>S D P k.
       dijkstraArrays g start =
         dijkstraLoop g (glength g)
           (distSet (replicate (glength g) Infinity) start (Fin 0),
            replicate (glength g) False, replicate (glength g) 0)
     \<and> dijkstraArrays g start = (S, D, P)
     \<and> steps P target k
     \<and> pathLoop g P target [] = Some (chain g P target k)
     \<and> dijkstra g start target =
         Some (map Visit (rev (chain g P target k)) @ [Summary (PathLength (S ! target))])"
proof -
  let ?n = "glength g"
  from dijkstraArrays_inv[OF assms(1,2)] obtain S D P where
    r: "dijkstraArrays g start = (S, D, P)" and inv: "dinv g start (S, D, P)" by blast
  note I = dinvD[OF inv]
  from final_steps[OF inv assms(3)] obtain k where k: "steps P target k" by blast
  have pred: "\<And>x. x < length P \<Longrightarrow> P ! x \<noteq> 0 \<Longrightarrow> P ! x < length P"
    using I(10) I(3) by simp
  have t: "target < length P" using assms(3) I(3) by simp
  from pathLoop_steps[of P target k g "[]", OF pred k t]
  have pl: "pathLoop g P target [] = Some (chain g P target k)" by simp
  have "dijkstra g start target =
         Some (map Visit (rev (chain g P target k)) @ [Summary (PathLength (S ! target))])"
    using assms(3) I(1) by (simp add: dijkstra_def r pl distAt_def)
  then show ?thesis using r k pl by (auto simp: dijkstraArrays_def)
qed

lemma lonelyStop_weights:
  assumes "getWeight lonelyStop u v = Some w"
  shows "(u = 0 \<and> v = 1) \<or> (u = 1 \<and> v = 0)"
proof -
  have len: "length (G lonelyStop) = 3" by code_simp
  have "edgeExists lonelyStop u v" unfolding edgeExists_getWeight using assms by blast
  then have "u < 3" "v < 3" using edgeExists_bound[of lonelyStop u v] len by simp_all
  then have u: "u = 0 \<or> u = 1 \<or> u = 2" and v: "v = 0 \<or> v = 1 \<or> v = 2" by auto
  have t: "map (\<lambda>(u, v). getWeight lonelyStop u v)
             [(0, 0), (0, 1), (0, 2), (1, 0), (1, 1), (1, 2), (2, 0), (2, 1), (2, 2)]
           = [None, Some 5, None, Some 5, None, None, None, None, None]"
    by code_simp
  show ?thesis using u v assms t by auto
qed

lemma lonelyStop_walks: "walkTo lonelyStop 0 v d \<Longrightarrow> v = 0 \<or> v = 1"
proof (induction rule: walkTo.induct)
  case start
  then show ?case by simp
next
  case (step u d v w)
  from lonelyStop_weights[OF step.hyps(2)] show ?case by auto
qed

theorem dijkstra_shortest_distances_witness:
  "wf_graph lonelyStop \<and> nonNegative lonelyStop \<and> integerWeights lonelyStop
   \<and> dijkstraArrays lonelyStop 0 = ([Fin 0, Fin 5, Infinity], [True, True, False], [0, 0, 0])
   \<and> walkTo lonelyStop 0 1 (Fin 5)
   \<and> pathTo lonelyStop 0 1 5
   \<and> dijkstra lonelyStop 0 2 = Some [Summary (PathLength Infinity)]"
proof -
  have a: "wf_graph lonelyStop" by code_simp
  have b: "nonNegative lonelyStop" by code_simp
  have i: "integerWeights lonelyStop" by code_simp
  have c: "(0::nat) < glength lonelyStop" by code_simp
  have e: "dijkstraArrays lonelyStop 0 = ([Fin 0, Fin 5, Infinity], [True, True, False], [0, 0, 0])"
    by code_simp
  have n: "(1::nat) < glength lonelyStop" "(2::nat) < glength lonelyStop" by code_simp+
  from dijkstra_shortest_distances[OF a b c] obtain S D P where
    r: "dijkstraArrays lonelyStop 0 = (S, D, P)"
    and q: "\<And>v. v < glength lonelyStop \<Longrightarrow>
          ((\<exists>d. walkTo lonelyStop 0 v d) \<longrightarrow>
             walkTo lonelyStop 0 v (S ! v) \<and> (\<forall>d. walkTo lonelyStop 0 v d \<longrightarrow> dist_le (S ! v) d))
        \<and> ((\<nexists>d. walkTo lonelyStop 0 v d) \<longrightarrow>
             S ! v = Infinity \<and> dijkstra lonelyStop 0 v = Some [Summary (PathLength Infinity)])"
    by blast
  have S: "S = [Fin 0, Fin 5, Infinity]" using r e by simp
  have w: "getWeight lonelyStop 0 1 = Some 5" by code_simp
  have p1: "pathTo lonelyStop 0 1 5"
    using pathTo.step[OF pathTo.start w] by simp
  have "\<exists>d. walkTo lonelyStop 0 1 d" using walkTo.step[OF walkTo.start w] by blast
  then have "walkTo lonelyStop 0 1 (S ! 1)" using q[OF n(1)] by blast
  then have w1: "walkTo lonelyStop 0 1 (Fin 5)" using S by simp
  have un: "\<nexists>d. walkTo lonelyStop 0 2 d" using lonelyStop_walks[of 2] by auto
  then have "dijkstra lonelyStop 0 2 = Some [Summary (PathLength Infinity)]"
    using q[OF n(2)] by blast
  then show ?thesis using a b i e w1 p1 by blast
qed

theorem dijkstra_path_reconstruction_witness:
  "nonNegative threeStops
   \<and> dijkstraArrays threeStops 2 = ([Fin 6, Fin 1, Fin 0], [True, True, True], [1, 2, 0])
   \<and> (\<exists>k. steps [1, 2, 0] 0 k
          \<and> dijkstra threeStops 2 0 =
              Some (map Visit (rev (chain threeStops [1, 2, 0] 0 k))
                    @ [Summary (PathLength (Fin 6))]))
   \<and> dijkstra threeStops 2 0 =
       Some [Visit (Some \<lparr>etype = Transfer, origin = 2, destination = 1, weight = 1\<rparr>),
             Visit (Some \<lparr>etype = Route, origin = 1, destination = 0, weight = 5\<rparr>),
             Summary (PathLength (Fin 6))]"
proof -
  have v: "dijkstra threeStops 2 0 =
       Some [Visit (Some \<lparr>etype = Transfer, origin = 2, destination = 1, weight = 1\<rparr>),
             Visit (Some \<lparr>etype = Route, origin = 1, destination = 0, weight = 5\<rparr>),
             Summary (PathLength (Fin 6))]" by code_simp
  have b: "nonNegative threeStops" by code_simp
  have c: "(2::nat) < glength threeStops" "(0::nat) < glength threeStops" by code_simp+
  have e: "dijkstraArrays threeStops 2 = ([Fin 6, Fin 1, Fin 0], [True, True, True], [1, 2, 0])"
    by code_simp
  from dijkstra_path_reconstruction[OF b c] obtain S D P k where
    r: "dijkstraArrays threeStops 2 = (S, D, P)" and k: "steps P 0 k"
    and d: "dijkstra threeStops 2 0 =
         Some (map Visit (rev (chain threeStops P 0 k)) @ [Summary (PathLength (S ! 0))])"
    by blast
  have SP: "S = [Fin 6, Fin 1, Fin 0]" "P = [1, 2, 0]" using r e by simp_all
  have "steps [1, 2, 0] 0 k
          \<and> dijkstra threeStops 2 0 =
              Some (map Visit (rev (chain threeStops [1, 2, 0] 0 k))
                    @ [Summary (PathLength (Fin 6))])"
    using k d unfolding SP by simp
  then show ?thesis using b e v by blast
qed

section \<open>Merging transfer nodes in a heap of arrays\<close>

text \<open>
  The arrays of the engine as the objects they are.  A heap holds the row arrays, the arrays
  of rows and the arrays of stops, each at its address; an array is shared by whoever holds its
  address, and a write to an array is seen through every reference to it.  A new array takes
  the next free address.
\<close>

type_synonym addr = nat

record 's heap =
  rowArrays :: "cell list list"
  graphArrays :: "addr list list"
  stopArrays :: "'s list list"

text \<open>
  Modelled from the spec: a graph object holds its node count and the references of its stop
  array and of its array of rows.  The engine assigns no field of a graph object.
\<close>

record graphRef =
  nodes :: nat
  stopsRef :: addr
  GRef :: addr

text \<open>The rows that an array of rows refers to, and the graph that a caller reads through a reference.\<close>

definition rowsAt :: "'s heap \<Rightarrow> addr \<Rightarrow> cell list list" where
  "rowsAt s a = map (\<lambda>r. rowArrays s ! r) (graphArrays s ! a)"

definition view :: "'s heap \<Rightarrow> graphRef \<Rightarrow> 's graph" where
  "view s g = \<lparr>numNodes = nodes g, stops = stopArrays s ! stopsRef g, G = rowsAt s (GRef g)\<rparr>"

text \<open>Every reference of the graph object is the address of an array of the heap.\<close>

definition validRef :: "'s heap \<Rightarrow> graphRef \<Rightarrow> bool" where
  "validRef s g =
     (GRef g < length (graphArrays s) \<and> stopsRef g < length (stopArrays s)
      \<and> list_all (\<lambda>r. r < length (rowArrays s)) (graphArrays s ! GRef g))"

text \<open>
  Modelled from the spec: the constructor \<^verbatim>\<open>new TransitGraph(edgeList, numNodes, stops)\<close> in the
  heap.  It allocates the rows of the relation and the array that holds them, and keeps the
  reference of the stop array that it is given.
\<close>

definition newTransitGraph :: "edge list \<Rightarrow> nat \<Rightarrow> addr \<Rightarrow> 's heap \<Rightarrow> graphRef \<times> 's heap" where
  "newTransitGraph edgeList n st s =
     (let M = foldl storeEdge (emptyMatrix n) edgeList
      in (\<lparr>nodes = n, stopsRef = st, GRef = length (graphArrays s)\<rparr>,
          s\<lparr>rowArrays := rowArrays s @ M,
            graphArrays := graphArrays s
               @ [[length (rowArrays s)..<length (rowArrays s) + length M]]\<rparr>))"

text \<open>A step of the engine either raises or returns, and leaves a heap in both cases.\<close>

definition thenH ::
  "('s heap \<Rightarrow> (error + 'a) \<times> 's heap) \<Rightarrow> ('a \<Rightarrow> 's heap \<Rightarrow> (error + 'b) \<times> 's heap)
   \<Rightarrow> 's heap \<Rightarrow> (error + 'b) \<times> 's heap" where
  "thenH m f s = (case m s of (Inl e, s1) \<Rightarrow> (Inl e, s1) | (Inr x, s1) \<Rightarrow> f x s1)"

definition liftE :: "error + 'a \<Rightarrow> 's heap \<Rightarrow> (error + 'a) \<times> 's heap" where
  "liftE r s = (r, s)"

text \<open>
  \<^verbatim>\<open>newGraph[r]\<close>, the reference of a row, \<open>None\<close> for \<^verbatim>\<open>undefined\<close>; the read \<^verbatim>\<open>row[i]\<close> and
  the write \<^verbatim>\<open>row[i] = v\<close> through such a reference, which raise a \<^verbatim>\<open>TypeError\<close> on
  \<^verbatim>\<open>undefined\<close>; and \<^verbatim>\<open>row.splice(i, 1)\<close>.
\<close>

definition rowRef :: "addr \<Rightarrow> nat \<Rightarrow> 's heap \<Rightarrow> addr option" where
  "rowRef newGraph r s =
     (if r < length (graphArrays s ! newGraph) then Some (graphArrays s ! newGraph ! r) else None)"

definition readCell :: "addr option \<Rightarrow> nat \<Rightarrow> 's heap \<Rightarrow> (error + cell) \<times> 's heap" where
  "readCell row i s =
     (case row of None \<Rightarrow> (Inl TypeError, s)
      | Some a \<Rightarrow> (Inr (cellGet (rowArrays s ! a) i), s))"

definition writeCell :: "addr option \<Rightarrow> nat \<Rightarrow> cell \<Rightarrow> 's heap \<Rightarrow> (error + unit) \<times> 's heap" where
  "writeCell row i v s =
     (case row of None \<Rightarrow> (Inl TypeError, s)
      | Some a \<Rightarrow> (Inr (), s\<lparr>rowArrays := (rowArrays s)[a := cellSet (rowArrays s ! a) i v]\<rparr>))"

definition spliceRow :: "addr option \<Rightarrow> int \<Rightarrow> 's heap \<Rightarrow> (error + unit) \<times> 's heap" where
  "spliceRow row i s =
     (case row of None \<Rightarrow> (Inl TypeError, s)
      | Some a \<Rightarrow> (Inr (), s\<lparr>rowArrays := (rowArrays s)[a := splice1 (rowArrays s ! a) i]\<rparr>))"

text \<open>\<^verbatim>\<open>newGraph.push(row)\<close> and \<^verbatim>\<open>newGraph.splice(i, 1)\<close> on an array of rows.\<close>

definition pushGraph :: "addr \<Rightarrow> addr \<Rightarrow> 's heap \<Rightarrow> 's heap" where
  "pushGraph newGraph row s =
     s\<lparr>graphArrays := (graphArrays s)[newGraph := graphArrays s ! newGraph @ [row]]\<rparr>"

definition spliceGraph :: "addr \<Rightarrow> int \<Rightarrow> 's heap \<Rightarrow> 's heap" where
  "spliceGraph newGraph i s =
     s\<lparr>graphArrays := (graphArrays s)[newGraph := splice1 (graphArrays s ! newGraph) i]\<rparr>"

text \<open>A new row array with the given cells: an array literal filled by \<^verbatim>\<open>push\<close>, or a \<^verbatim>\<open>slice()\<close>.\<close>

definition newRowArray :: "cell list \<Rightarrow> 's heap \<Rightarrow> addr \<times> 's heap" where
  "newRowArray cells s = (length (rowArrays s), s\<lparr>rowArrays := rowArrays s @ [cells]\<rparr>)"

text \<open>
  Lines 460-463: \<^verbatim>\<open>newGraph\<close> is a new array, and every row of \<^verbatim>\<open>graph.G\<close> is sliced into a
  new row that is pushed on it.
\<close>

fun copyRowsLoop :: "addr \<Rightarrow> addr list \<Rightarrow> 's heap \<Rightarrow> 's heap" where
  "copyRowsLoop newGraph [] s = s"
| "copyRowsLoop newGraph (rowOfNodes # rest) s =
     (case newRowArray (rowArrays s ! rowOfNodes) s of
        (row, s1) \<Rightarrow> copyRowsLoop newGraph rest (pushGraph newGraph row s1))"

definition copyRows :: "addr \<Rightarrow> 's heap \<Rightarrow> addr \<times> 's heap" where
  "copyRows gG s =
     (let newGraph = length (graphArrays s)
      in (newGraph,
          copyRowsLoop newGraph (graphArrays s ! gG) (s\<lparr>graphArrays := graphArrays s @ [[]]\<rparr>)))"

text \<open>Line 466: \<^verbatim>\<open>graph.stops.slice()\<close>.\<close>

definition sliceStops :: "addr \<Rightarrow> 's heap \<Rightarrow> addr \<times> 's heap" where
  "sliceStops st s =
     (length (stopArrays s), s\<lparr>stopArrays := stopArrays s @ [stopArrays s ! st]\<rparr>)"

text \<open>\<^verbatim>\<open>horizontalOverlap\<close>, lines 549-558, with the three rows that it holds by reference.\<close>

fun horizontalOverlapLoop ::
  "addr option \<Rightarrow> addr option \<Rightarrow> addr option \<Rightarrow> addr \<Rightarrow> nat \<Rightarrow> nat list \<Rightarrow> 's heap
   \<Rightarrow> (error + unit) \<times> 's heap" where
  "horizontalOverlapLoop loLows hiLows unionLows newGraph loIndex [] s = (Inr (), s)"
| "horizontalOverlapLoop loLows hiLows unionLows newGraph loIndex (i # ixs) s =
     thenH (readCell loLows i) (\<lambda>a.
     thenH (readCell hiLows i) (\<lambda>b.
     thenH (liftE (mergeEdges a b)) (\<lambda>m.
     thenH (writeCell unionLows i m) (\<lambda>_.
     thenH (\<lambda>s1. writeCell (rowRef newGraph loIndex s1) i Null s1) (\<lambda>_.
     horizontalOverlapLoop loLows hiLows unionLows newGraph loIndex ixs))))) s"

definition horizontalOverlapH ::
  "addr \<Rightarrow> nat \<Rightarrow> nat \<Rightarrow> nat \<Rightarrow> 's heap \<Rightarrow> (error + unit) \<times> 's heap" where
  "horizontalOverlapH newGraph loIndex hiIndex unionIndex s =
     horizontalOverlapLoop (rowRef newGraph loIndex s) (rowRef newGraph hiIndex s)
       (rowRef newGraph unionIndex s) newGraph loIndex [0..<loIndex] s"

text \<open>\<^verbatim>\<open>horizontalHiOvershoot\<close>, lines 559-569.\<close>

fun hiOvershootMergeLoop ::
  "addr option \<Rightarrow> addr option \<Rightarrow> nat list \<Rightarrow> 's heap \<Rightarrow> (error + unit) \<times> 's heap" where
  "hiOvershootMergeLoop hiLows unionLows [] s = (Inr (), s)"
| "hiOvershootMergeLoop hiLows unionLows (i # ixs) s =
     thenH (readCell hiLows i) (\<lambda>a.
     thenH (liftE (mergeEdges a Zero)) (\<lambda>m.
     thenH (writeCell unionLows i m) (\<lambda>_.
     hiOvershootMergeLoop hiLows unionLows ixs))) s"

fun hiOvershootClearLoop ::
  "addr \<Rightarrow> nat \<Rightarrow> nat list \<Rightarrow> 's heap \<Rightarrow> (error + unit) \<times> 's heap" where
  "hiOvershootClearLoop newGraph hiIndex [] s = (Inr (), s)"
| "hiOvershootClearLoop newGraph hiIndex (i # ixs) s =
     thenH (\<lambda>s1. writeCell (rowRef newGraph hiIndex s1) i Null s1) (\<lambda>_.
     hiOvershootClearLoop newGraph hiIndex ixs) s"

definition horizontalHiOvershootH ::
  "addr \<Rightarrow> nat \<Rightarrow> nat \<Rightarrow> nat \<Rightarrow> 's heap \<Rightarrow> (error + unit) \<times> 's heap" where
  "horizontalHiOvershootH newGraph loIndex hiIndex unionIndex s =
     thenH (hiOvershootMergeLoop (rowRef newGraph hiIndex s) (rowRef newGraph unionIndex s)
              [loIndex + 1..<hiIndex]) (\<lambda>_.
     hiOvershootClearLoop newGraph hiIndex [0..<hiIndex]) s"

text \<open>\<^verbatim>\<open>verticalOverlap\<close>, lines 570-580.\<close>

fun verticalOverlapLoop ::
  "addr option \<Rightarrow> addr \<Rightarrow> nat \<Rightarrow> nat \<Rightarrow> nat list \<Rightarrow> 's heap \<Rightarrow> (error + unit) \<times> 's heap" where
  "verticalOverlapLoop unionLows newGraph loIndex hiIndex [] s = (Inr (), s)"
| "verticalOverlapLoop unionLows newGraph loIndex hiIndex (i # ixs) s =
     (let subGraph = rowRef newGraph i s
      in thenH (readCell subGraph loIndex) (\<lambda>a.
         thenH (readCell subGraph hiIndex) (\<lambda>b.
         thenH (liftE (mergeEdges a b)) (\<lambda>m.
         thenH (writeCell unionLows i m) (\<lambda>_.
         thenH (writeCell subGraph loIndex Null) (\<lambda>_.
         thenH (writeCell subGraph hiIndex Null) (\<lambda>_.
         verticalOverlapLoop unionLows newGraph loIndex hiIndex ixs)))))) s)"

definition verticalOverlapH ::
  "addr \<Rightarrow> nat \<Rightarrow> nat \<Rightarrow> nat \<Rightarrow> 's heap \<Rightarrow> (error + unit) \<times> 's heap" where
  "verticalOverlapH newGraph loIndex hiIndex unionIndex s =
     verticalOverlapLoop (rowRef newGraph unionIndex s) newGraph loIndex hiIndex
       [hiIndex + 1..<unionIndex] s"

text \<open>\<^verbatim>\<open>verticalLoOvershoot\<close>, lines 581-590.\<close>

fun verticalLoOvershootLoop ::
  "addr option \<Rightarrow> addr \<Rightarrow> nat \<Rightarrow> nat list \<Rightarrow> 's heap \<Rightarrow> (error + unit) \<times> 's heap" where
  "verticalLoOvershootLoop unionLows newGraph loIndex [] s = (Inr (), s)"
| "verticalLoOvershootLoop unionLows newGraph loIndex (i # ixs) s =
     thenH (\<lambda>s1. readCell (rowRef newGraph i s1) loIndex s1) (\<lambda>overlap.
     thenH (readCell unionLows i) (\<lambda>b.
     thenH (liftE (mergeEdges overlap b)) (\<lambda>m.
     thenH (writeCell unionLows i m) (\<lambda>_.
     thenH (\<lambda>s1. writeCell (rowRef newGraph i s1) loIndex Null s1) (\<lambda>_.
     verticalLoOvershootLoop unionLows newGraph loIndex ixs))))) s"

definition verticalLoOvershootH ::
  "addr \<Rightarrow> nat \<Rightarrow> nat \<Rightarrow> nat \<Rightarrow> 's heap \<Rightarrow> (error + unit) \<times> 's heap" where
  "verticalLoOvershootH newGraph loIndex hiIndex unionIndex s =
     verticalLoOvershootLoop (rowRef newGraph unionIndex s) newGraph loIndex
       [loIndex + 1..<hiIndex] s"

text \<open>The loop of lines 542-546 over the rows still to do.\<close>

fun removeNullsLoop :: "addr \<Rightarrow> nat list \<Rightarrow> 's heap \<Rightarrow> (error + unit) \<times> 's heap" where
  "removeNullsLoop newGraph [] s = (Inr (), s)"
| "removeNullsLoop newGraph (i # ixs) s =
     (case rowRef newGraph i s of
        None \<Rightarrow> (Inl TypeError, s)
      | Some a \<Rightarrow>
          removeNullsLoop newGraph ixs
            (s\<lparr>rowArrays := (rowArrays s)[a := filter (\<lambda>c. c \<noteq> Null) (rowArrays s ! a)]\<rparr>))"

text \<open>Lines 512-515 of \<^verbatim>\<open>merge\<close>, on the stop array \<^verbatim>\<open>newStops\<close>.\<close>

definition mergeStopsH ::
  "('s \<Rightarrow> 's \<Rightarrow> 's) \<Rightarrow> addr \<Rightarrow> nat \<Rightarrow> nat \<Rightarrow> 's heap \<Rightarrow> (error + unit) \<times> 's heap" where
  "mergeStopsH mergeWith newStops loIndex hiIndex s =
     (case mergeStops mergeWith loIndex hiIndex (stopArrays s ! newStops) of
        Inl e \<Rightarrow> (Inl e, s)
      | Inr st \<Rightarrow> (Inr (), s\<lparr>stopArrays := (stopArrays s)[newStops := st]\<rparr>))"

text \<open>Lines 517-546 of \<^verbatim>\<open>merge\<close>, on the array of rows \<^verbatim>\<open>newGraph\<close>.\<close>

definition mergeRowsH :: "addr \<Rightarrow> nat \<Rightarrow> nat \<Rightarrow> 's heap \<Rightarrow> (error + unit) \<times> 's heap" where
  "mergeRowsH newGraph loIndex hiIndex s =
     (case newRowArray (replicate (length (graphArrays s ! newGraph) - 1) Zero) s of
        (newRow, s1) \<Rightarrow>
          (let s2 = pushGraph newGraph newRow s1;
               unionIndex = length (graphArrays s2 ! newGraph) - 1
           in thenH (horizontalOverlapH newGraph loIndex hiIndex unionIndex) (\<lambda>_.
              thenH (horizontalHiOvershootH newGraph loIndex hiIndex unionIndex) (\<lambda>_.
              thenH (verticalOverlapH newGraph loIndex hiIndex unionIndex) (\<lambda>_.
              thenH (verticalLoOvershootH newGraph loIndex hiIndex unionIndex) (\<lambda>_.
              thenH (\<lambda>s3. spliceRow (rowRef newGraph unionIndex s3) (int loIndex) s3) (\<lambda>_.
              thenH (\<lambda>s3. spliceRow (rowRef newGraph unionIndex s3) (int hiIndex - 1) s3) (\<lambda>_.
              thenH (\<lambda>s3. (Inr (), spliceGraph newGraph (int hiIndex - 1)
                                      (spliceGraph newGraph (int loIndex) s3))) (\<lambda>_ s4.
              removeNullsLoop newGraph [0..<length (graphArrays s4 ! newGraph) - 1] s4)))))))
              s2))"

text \<open>\<^verbatim>\<open>merge\<close>, lines 511-547, and \<^verbatim>\<open>mergeTop\<close>, lines 493-499.\<close>

definition mergeH ::
  "('s \<Rightarrow> 's \<Rightarrow> 's) \<Rightarrow> addr \<Rightarrow> addr \<Rightarrow> nat \<Rightarrow> nat \<Rightarrow> 's heap \<Rightarrow> (error + unit) \<times> 's heap" where
  "mergeH mergeWith newGraph newStops loIndex hiIndex =
     thenH (mergeStopsH mergeWith newStops loIndex hiIndex) (\<lambda>_.
     mergeRowsH newGraph loIndex hiIndex)"

definition mergeTopH ::
  "('s \<Rightarrow> 's \<Rightarrow> 's) \<Rightarrow> addr \<Rightarrow> addr \<Rightarrow> nat \<Rightarrow> nat \<Rightarrow> 's heap \<Rightarrow> (error + unit) \<times> 's heap" where
  "mergeTopH mergeWith newGraph newStops indexA indexB =
     (if indexA < indexB then mergeH mergeWith newGraph newStops indexA indexB
      else mergeH mergeWith newGraph newStops indexB indexA)"

text \<open>
  One turn of the \<^verbatim>\<open>while\<close> loop, lines 437-484, in the heap: the transfer graph, the
  groups, the two copies, the merge, the edge list and the new graph.
\<close>

definition mergeStepH ::
  "('s \<Rightarrow> 's \<Rightarrow> 's) \<Rightarrow> graphRef \<Rightarrow> 's heap \<Rightarrow> ((error + graphRef) \<times> 's heap) option" where
  "mergeStepH mergeWith g s =
     (case newTransitGraph (getTransferEdges (view s g)) (nodes g) (stopsRef g) s of
        (transferGraph, s1) \<Rightarrow>
     (case groupNodes (view s1 transferGraph) [0..<length (G (view s1 transferGraph))] ([], []) of
        None \<Rightarrow> None
      | Some (seenNodes, nodeGroupings) \<Rightarrow>
          Some (case copyRows (GRef g) s1 of (newGraph, s2) \<Rightarrow>
                case sliceStops (stopsRef g) s2 of (newStops, s3) \<Rightarrow>
                (case filter (\<lambda>e. length e > 1) nodeGroupings of
                   [] \<Rightarrow> (Inl TypeError, s3)
                 | firstGroup # _ \<Rightarrow>
                     thenH (mergeTopH mergeWith newGraph newStops (firstGroup ! 0) (firstGroup ! 1))
                       (\<lambda>_.
                     thenH (\<lambda>s4. (edgesOfRows (rowsAt s4 newGraph)
                                    [0..<length (graphArrays s4 ! newGraph)] [], s4))
                       (\<lambda>newEdgeList s5.
                     (case newTransitGraph newEdgeList (nodes g - 1) newStops s5 of
                        (graph, s6) \<Rightarrow> (Inr graph, s6)))) s3))))"

section \<open>Properties of merging in the heap\<close>

text \<open>
  A heap keeps an older one when every array of the older heap is in it at the same address
  with the same content.
\<close>

definition keeps :: "'a list \<Rightarrow> 'a list \<Rightarrow> bool" where
  "keeps old new = (take (length old) new = old)"

definition extends :: "'s heap \<Rightarrow> 's heap \<Rightarrow> bool" where
  "extends s s' =
     (keeps (rowArrays s) (rowArrays s') \<and> keeps (graphArrays s) (graphArrays s')
      \<and> keeps (stopArrays s) (stopArrays s'))"

lemma keeps_refl: "keeps xs xs"
  by (simp add: keeps_def)

lemma keeps_length:
  assumes "keeps xs ys"
  shows "length xs \<le> length ys"
proof -
  have "length (take (length xs) ys) = length xs" using assms by (simp add: keeps_def)
  then show ?thesis by simp
qed

lemma keeps_nth: "keeps xs ys \<Longrightarrow> a < length xs \<Longrightarrow> ys ! a = xs ! a"
  unfolding keeps_def by (metis nth_take)

lemma keeps_trans:
  assumes "keeps xs ys" and "keeps ys zs"
  shows "keeps xs zs"
proof -
  have l: "length xs \<le> length ys" using assms(1) by (rule keeps_length)
  have "take (length xs) zs = take (length xs) (take (length ys) zs)"
    using l by (simp add: min_def)
  also have "\<dots> = xs" using assms by (simp add: keeps_def)
  finally show ?thesis by (simp add: keeps_def)
qed

lemma keeps_append: "keeps xs ys \<Longrightarrow> keeps xs (ys @ zs)"
  using keeps_length[of xs ys] by (simp add: keeps_def)

lemma keeps_update: "keeps xs ys \<Longrightarrow> length xs \<le> a \<Longrightarrow> keeps xs (ys[a := v])"
  by (simp add: keeps_def)

lemma extends_refl: "extends s s"
  by (simp add: extends_def keeps_refl)

lemma extends_trans: "extends s s1 \<Longrightarrow> extends s1 s2 \<Longrightarrow> extends s s2"
  unfolding extends_def by (blast intro: keeps_trans)

lemma view_extends:
  assumes "validRef s g" and "extends s s'"
  shows "view s' g = view s g"
proof -
  have g: "GRef g < length (graphArrays s)" and st: "stopsRef g < length (stopArrays s)"
    and rs: "\<forall>r \<in> set (graphArrays s ! GRef g). r < length (rowArrays s)"
    using assms(1) by (simp_all add: validRef_def list_all_iff)
  have a: "graphArrays s' ! GRef g = graphArrays s ! GRef g"
    using assms(2) g by (simp add: extends_def keeps_nth)
  have b: "stopArrays s' ! stopsRef g = stopArrays s ! stopsRef g"
    using assms(2) st by (simp add: extends_def keeps_nth)
  have c: "map (\<lambda>r. rowArrays s' ! r) (graphArrays s ! GRef g)
           = map (\<lambda>r. rowArrays s ! r) (graphArrays s ! GRef g)"
    using assms(2) rs by (simp add: extends_def keeps_nth)
  show ?thesis by (simp add: view_def rowsAt_def a b c)
qed

lemma validRef_extends:
  assumes "validRef s g" and "extends s s'"
  shows "validRef s' g"
proof -
  have g: "GRef g < length (graphArrays s)" and st: "stopsRef g < length (stopArrays s)"
    and rs: "\<forall>r \<in> set (graphArrays s ! GRef g). r < length (rowArrays s)"
    using assms(1) by (simp_all add: validRef_def list_all_iff)
  have a: "graphArrays s' ! GRef g = graphArrays s ! GRef g"
    using assms(2) g by (simp add: extends_def keeps_nth)
  have l1: "length (graphArrays s) \<le> length (graphArrays s')"
    and l2: "length (stopArrays s) \<le> length (stopArrays s')"
    and l3: "length (rowArrays s) \<le> length (rowArrays s')"
    using assms(2) by (simp_all add: extends_def keeps_length)
  show ?thesis
    unfolding validRef_def list_all_iff a using g st rs l1 l2 l3 by fastforce
qed

text \<open>The working copies of one turn of the loop, as seen from the heap \<open>s0\<close> at its start.\<close>

definition working :: "'s heap \<Rightarrow> addr \<Rightarrow> addr \<Rightarrow> 's heap \<Rightarrow> bool" where
  "working s0 newGraph newStops s =
     (extends s0 s
      \<and> length (graphArrays s0) \<le> newGraph \<and> newGraph < length (graphArrays s)
      \<and> length (stopArrays s0) \<le> newStops \<and> newStops < length (stopArrays s)
      \<and> (\<forall>a \<in> set (graphArrays s ! newGraph). length (rowArrays s0) \<le> a))"

definition freshRow :: "'s heap \<Rightarrow> addr option \<Rightarrow> bool" where
  "freshRow s0 row = (case row of None \<Rightarrow> True | Some a \<Rightarrow> length (rowArrays s0) \<le> a)"

definition preserves :: "('s heap \<Rightarrow> bool) \<Rightarrow> ('s heap \<Rightarrow> 'r \<times> 's heap) \<Rightarrow> bool" where
  "preserves P m = (\<forall>s r s'. P s \<longrightarrow> m s = (r, s') \<longrightarrow> P s')"

lemma preservesD: "preserves P m \<Longrightarrow> P s \<Longrightarrow> m s = (r, s') \<Longrightarrow> P s'"
  unfolding preserves_def by blast

lemma preserves_thenH:
  assumes "preserves P m" and "\<And>x. preserves P (f x)"
  shows "preserves P (thenH m f)"
  unfolding preserves_def
proof (intro allI impI)
  fix s r s'
  assume p: "P s" and e: "thenH m f s = (r, s')"
  obtain r1 s1 where m: "m s = (r1, s1)" by (cases "m s")
  have p1: "P s1" using assms(1) p m by (rule preservesD)
  show "P s'"
  proof (cases r1)
    case (Inl e1)
    with e m have "s' = s1" by (simp add: thenH_def)
    with p1 show ?thesis by simp
  next
    case (Inr x)
    with e m have "f x s1 = (r, s')" by (simp add: thenH_def)
    with assms(2) p1 show ?thesis by (rule preservesD)
  qed
qed

lemma preserves_read:
  assumes "\<And>s0. P s0 \<Longrightarrow> preserves P (f s0)"
  shows "preserves P (\<lambda>s. f s s)"
  unfolding preserves_def using assms by (blast dest: preservesD)

lemma preserves_readCell: "preserves P (readCell row i)"
  by (auto simp: preserves_def readCell_def split: option.splits)

lemma preserves_liftE: "preserves P (liftE r)"
  by (simp add: preserves_def liftE_def)

lemma working_rowArrays_update:
  assumes "working s0 ng ns s" and "length (rowArrays s0) \<le> a"
  shows "working s0 ng ns (s\<lparr>rowArrays := (rowArrays s)[a := v]\<rparr>)"
  using assms by (simp add: working_def extends_def keeps_update)

lemma preserves_writeCell:
  assumes "freshRow s0 row"
  shows "preserves (working s0 ng ns) (writeCell row i v)"
  using assms
  by (auto simp: preserves_def writeCell_def freshRow_def working_rowArrays_update
           split: option.splits)

lemma preserves_spliceRow:
  assumes "freshRow s0 row"
  shows "preserves (working s0 ng ns) (spliceRow row i)"
  using assms
  by (auto simp: preserves_def spliceRow_def freshRow_def working_rowArrays_update
           split: option.splits)

lemma rowRef_fresh: "working s0 ng ns s \<Longrightarrow> freshRow s0 (rowRef ng r s)"
  by (simp add: working_def rowRef_def freshRow_def)

lemma preserves_writeCell_rowRef:
  "preserves (working s0 ng ns) (\<lambda>s1. writeCell (rowRef ng r s1) i v s1)"
  by (rule preserves_read) (rule preserves_writeCell, rule rowRef_fresh)

lemma preserves_spliceRow_rowRef:
  "preserves (working s0 ng ns) (\<lambda>s1. spliceRow (rowRef ng r s1) i s1)"
  by (rule preserves_read) (rule preserves_spliceRow, rule rowRef_fresh)

lemma preserves_readCell_rowRef:
  "preserves P (\<lambda>s1. readCell (rowRef ng r s1) i s1)"
  by (rule preserves_read) (rule preserves_readCell)

lemma preserves_horizontalOverlapLoop:
  assumes "freshRow s0 unionLows"
  shows "preserves (working s0 ng ns) (horizontalOverlapLoop loLows hiLows unionLows ng lo ixs)"
proof (induction ixs)
  case Nil
  show ?case by (simp add: preserves_def)
next
  case (Cons i ixs)
  have "preserves (working s0 ng ns)
     (thenH (readCell loLows i) (\<lambda>a.
      thenH (readCell hiLows i) (\<lambda>b.
      thenH (liftE (mergeEdges a b)) (\<lambda>m.
      thenH (writeCell unionLows i m) (\<lambda>_.
      thenH (\<lambda>s1. writeCell (rowRef ng lo s1) i Null s1) (\<lambda>_.
      horizontalOverlapLoop loLows hiLows unionLows ng lo ixs))))))"
    by (intro preserves_thenH preserves_readCell preserves_liftE preserves_writeCell
          preserves_writeCell_rowRef assms Cons.IH)
  then show ?case by (simp add: preserves_def)
qed

lemma preserves_horizontalOverlapH:
  "preserves (working s0 ng ns) (horizontalOverlapH ng lo hi ui)"
  unfolding horizontalOverlapH_def
  by (rule preserves_read) (rule preserves_horizontalOverlapLoop, rule rowRef_fresh)

lemma preserves_hiOvershootMergeLoop:
  assumes "freshRow s0 unionLows"
  shows "preserves (working s0 ng ns) (hiOvershootMergeLoop hiLows unionLows ixs)"
proof (induction ixs)
  case Nil
  show ?case by (simp add: preserves_def)
next
  case (Cons i ixs)
  have "preserves (working s0 ng ns)
     (thenH (readCell hiLows i) (\<lambda>a.
      thenH (liftE (mergeEdges a Zero)) (\<lambda>m.
      thenH (writeCell unionLows i m) (\<lambda>_.
      hiOvershootMergeLoop hiLows unionLows ixs))))"
    by (intro preserves_thenH preserves_readCell preserves_liftE preserves_writeCell
          assms Cons.IH)
  then show ?case by (simp add: preserves_def)
qed

lemma preserves_hiOvershootClearLoop:
  "preserves (working s0 ng ns) (hiOvershootClearLoop ng hi ixs)"
proof (induction ixs)
  case Nil
  show ?case by (simp add: preserves_def)
next
  case (Cons i ixs)
  have "preserves (working s0 ng ns)
     (thenH (\<lambda>s1. writeCell (rowRef ng hi s1) i Null s1) (\<lambda>_.
      hiOvershootClearLoop ng hi ixs))"
    by (intro preserves_thenH preserves_writeCell_rowRef Cons.IH)
  then show ?case by (simp add: preserves_def)
qed

lemma preserves_horizontalHiOvershootH:
  "preserves (working s0 ng ns) (horizontalHiOvershootH ng lo hi ui)"
  unfolding horizontalHiOvershootH_def
  by (rule preserves_read)
     (intro preserves_thenH preserves_hiOvershootMergeLoop preserves_hiOvershootClearLoop
        rowRef_fresh)

lemma preserves_verticalOverlapLoop:
  assumes "freshRow s0 unionLows"
  shows "preserves (working s0 ng ns) (verticalOverlapLoop unionLows ng lo hi ixs)"
proof (induction ixs)
  case Nil
  show ?case by (simp add: preserves_def)
next
  case (Cons i ixs)
  have "preserves (working s0 ng ns)
     (\<lambda>s. (thenH (readCell (rowRef ng i s) lo) (\<lambda>a.
         thenH (readCell (rowRef ng i s) hi) (\<lambda>b.
         thenH (liftE (mergeEdges a b)) (\<lambda>m.
         thenH (writeCell unionLows i m) (\<lambda>_.
         thenH (writeCell (rowRef ng i s) lo Null) (\<lambda>_.
         thenH (writeCell (rowRef ng i s) hi Null) (\<lambda>_.
         verticalOverlapLoop unionLows ng lo hi ixs))))))) s)"
    by (rule preserves_read)
       (intro preserves_thenH preserves_readCell preserves_liftE preserves_writeCell
          assms Cons.IH rowRef_fresh)
  then show ?case by (simp add: preserves_def Let_def)
qed

lemma preserves_verticalOverlapH:
  "preserves (working s0 ng ns) (verticalOverlapH ng lo hi ui)"
  unfolding verticalOverlapH_def
  by (rule preserves_read) (rule preserves_verticalOverlapLoop, rule rowRef_fresh)

lemma preserves_verticalLoOvershootLoop:
  assumes "freshRow s0 unionLows"
  shows "preserves (working s0 ng ns) (verticalLoOvershootLoop unionLows ng lo ixs)"
proof (induction ixs)
  case Nil
  show ?case by (simp add: preserves_def)
next
  case (Cons i ixs)
  have "preserves (working s0 ng ns)
     (thenH (\<lambda>s1. readCell (rowRef ng i s1) lo s1) (\<lambda>overlap.
      thenH (readCell unionLows i) (\<lambda>b.
      thenH (liftE (mergeEdges overlap b)) (\<lambda>m.
      thenH (writeCell unionLows i m) (\<lambda>_.
      thenH (\<lambda>s1. writeCell (rowRef ng i s1) lo Null s1) (\<lambda>_.
      verticalLoOvershootLoop unionLows ng lo ixs))))))"
    by (intro preserves_thenH preserves_readCell preserves_liftE preserves_writeCell
          preserves_writeCell_rowRef preserves_readCell_rowRef assms Cons.IH)
  then show ?case by (simp add: preserves_def)
qed

lemma preserves_verticalLoOvershootH:
  "preserves (working s0 ng ns) (verticalLoOvershootH ng lo hi ui)"
  unfolding verticalLoOvershootH_def
  by (rule preserves_read) (rule preserves_verticalLoOvershootLoop, rule rowRef_fresh)

lemma preserves_removeNullsLoop:
  "preserves (working s0 ng ns) (removeNullsLoop ng ixs)"
proof (induction ixs)
  case Nil
  show ?case by (simp add: preserves_def)
next
  case (Cons i ixs)
  show ?case
    unfolding preserves_def
  proof (intro allI impI)
    fix s r s'
    assume w: "working s0 ng ns s" and e: "removeNullsLoop ng (i # ixs) s = (r, s')"
    show "working s0 ng ns s'"
    proof (cases "rowRef ng i s")
      case None
      with e have "s' = s" by simp
      with w show ?thesis by simp
    next
      case (Some a)
      have "freshRow s0 (rowRef ng i s)" using w by (rule rowRef_fresh)
      with Some have f: "length (rowArrays s0) \<le> a" by (simp add: freshRow_def)
      from e Some have "removeNullsLoop ng ixs
          (s\<lparr>rowArrays := (rowArrays s)[a := filter (\<lambda>c. c \<noteq> Null) (rowArrays s ! a)]\<rparr>) = (r, s')"
        by simp
      with Cons.IH working_rowArrays_update[OF w f] show ?thesis by (rule preservesD)
    qed
  qed
qed

lemma set_splice1: "set (splice1 xs i) \<subseteq> set xs"
  unfolding splice1_def Let_def
  by (auto dest: in_set_takeD in_set_dropD)

lemma working_pushGraph:
  assumes "working s0 ng ns s" and "length (rowArrays s0) \<le> a"
  shows "working s0 ng ns (pushGraph ng a s)"
  using assms by (simp add: working_def pushGraph_def extends_def keeps_update)

lemma working_spliceGraph:
  assumes "working s0 ng ns s"
  shows "working s0 ng ns (spliceGraph ng i s)"
  using assms set_splice1[of "graphArrays s ! ng" i]
  by (auto simp: working_def spliceGraph_def extends_def keeps_update)

lemma working_newRowArray:
  assumes "working s0 ng ns s"
  shows "working s0 ng ns (snd (newRowArray cells s))
         \<and> length (rowArrays s0) \<le> fst (newRowArray cells s)"
  using assms keeps_length[of "rowArrays s0" "rowArrays s"]
  by (simp add: working_def newRowArray_def extends_def keeps_append)

lemma preserves_mergeStopsH:
  "preserves (working s0 ng ns) (mergeStopsH mw ns lo hi)"
  by (auto simp: preserves_def mergeStopsH_def working_def extends_def keeps_update
           split: sum.splits)

lemma preserves_removeNullsLoop_all:
  "preserves (working s0 ng ns)
     (\<lambda>s4. removeNullsLoop ng [0..<length (graphArrays s4 ! ng) - 1] s4)"
  by (rule preserves_read[where f = "\<lambda>s4. removeNullsLoop ng [0..<length (graphArrays s4 ! ng) - 1]"])
     (rule preserves_removeNullsLoop)

lemma preserves_mergeRowsH: "preserves (working s0 ng ns) (mergeRowsH ng lo hi)"
  unfolding preserves_def
proof (intro allI impI)
  fix s r s'
  assume w: "working s0 ng ns s" and e: "mergeRowsH ng lo hi s = (r, s')"
  define cells where "cells = replicate (length (graphArrays s ! ng) - 1) Zero"
  obtain newRow s1 where n: "newRowArray cells s = (newRow, s1)"
    by (cases "newRowArray cells s")
  have w1: "working s0 ng ns s1" and f: "length (rowArrays s0) \<le> newRow"
    using working_newRowArray[OF w, of cells] n by simp_all
  define s2 where "s2 = pushGraph ng newRow s1"
  have w2: "working s0 ng ns s2" unfolding s2_def using w1 f by (rule working_pushGraph)
  define ui where "ui = length (graphArrays s2 ! ng) - 1"
  have p: "preserves (working s0 ng ns)
     (thenH (horizontalOverlapH ng lo hi ui) (\<lambda>_.
      thenH (horizontalHiOvershootH ng lo hi ui) (\<lambda>_.
      thenH (verticalOverlapH ng lo hi ui) (\<lambda>_.
      thenH (verticalLoOvershootH ng lo hi ui) (\<lambda>_.
      thenH (\<lambda>s3. spliceRow (rowRef ng ui s3) (int lo) s3) (\<lambda>_.
      thenH (\<lambda>s3. spliceRow (rowRef ng ui s3) (int hi - 1) s3) (\<lambda>_.
      thenH (\<lambda>s3. (Inr (), spliceGraph ng (int hi - 1) (spliceGraph ng (int lo) s3))) (\<lambda>_ s4.
      removeNullsLoop ng [0..<length (graphArrays s4 ! ng) - 1] s4))))))))"
    apply (intro preserves_thenH preserves_horizontalOverlapH preserves_horizontalHiOvershootH
        preserves_verticalOverlapH preserves_verticalLoOvershootH preserves_spliceRow_rowRef)
     apply (simp add: preserves_def working_spliceGraph)
    apply (rule preserves_removeNullsLoop_all)
    done
  from e have "thenH (horizontalOverlapH ng lo hi ui) (\<lambda>_.
      thenH (horizontalHiOvershootH ng lo hi ui) (\<lambda>_.
      thenH (verticalOverlapH ng lo hi ui) (\<lambda>_.
      thenH (verticalLoOvershootH ng lo hi ui) (\<lambda>_.
      thenH (\<lambda>s3. spliceRow (rowRef ng ui s3) (int lo) s3) (\<lambda>_.
      thenH (\<lambda>s3. spliceRow (rowRef ng ui s3) (int hi - 1) s3) (\<lambda>_.
      thenH (\<lambda>s3. (Inr (), spliceGraph ng (int hi - 1) (spliceGraph ng (int lo) s3))) (\<lambda>_ s4.
      removeNullsLoop ng [0..<length (graphArrays s4 ! ng) - 1] s4))))))) s2 = (r, s')"
    unfolding mergeRowsH_def cells_def[symmetric] n prod.case Let_def s2_def[symmetric]
      ui_def[symmetric] .
  with p w2 show "working s0 ng ns s'" by (rule preservesD)
qed

lemma preserves_mergeTopH: "preserves (working s0 ng ns) (mergeTopH mw ng ns a b)"
  unfolding mergeTopH_def mergeH_def
  by (simp add: preserves_thenH preserves_mergeStopsH preserves_mergeRowsH)

lemma thenH_Inr:
  assumes "thenH m f s = (Inr y, s')"
  obtains x s1 where "m s = (Inr x, s1)" and "f x s1 = (Inr y, s')"
proof -
  obtain r1 s1 where m: "m s = (r1, s1)" by (cases "m s")
  show ?thesis
  proof (cases r1)
    case (Inl e)
    with assms m show ?thesis by (simp add: thenH_def)
  next
    case (Inr x)
    with assms m have "f x s1 = (Inr y, s')" by (simp add: thenH_def)
    with m Inr that show ?thesis by blast
  qed
qed

definition copying :: "'s heap \<Rightarrow> addr \<Rightarrow> 's heap \<Rightarrow> bool" where
  "copying s0 newGraph s =
     (extends s0 s
      \<and> length (graphArrays s0) \<le> newGraph \<and> newGraph < length (graphArrays s)
      \<and> (\<forall>a \<in> set (graphArrays s ! newGraph). length (rowArrays s0) \<le> a))"

lemma copyRowsLoop_copying:
  "copying s0 ng s \<Longrightarrow> copying s0 ng (copyRowsLoop ng rest s)"
proof (induction rest arbitrary: s)
  case Nil
  then show ?case by simp
next
  case (Cons r rest)
  have l: "length (rowArrays s0) \<le> length (rowArrays s)"
    using Cons.prems by (simp add: copying_def extends_def keeps_length)
  have "copying s0 ng (pushGraph ng (length (rowArrays s))
          (s\<lparr>rowArrays := rowArrays s @ [rowArrays s ! r]\<rparr>))"
    using Cons.prems l
    by (simp add: copying_def pushGraph_def extends_def keeps_update keeps_append)
  then have "copying s0 ng (copyRowsLoop ng rest (pushGraph ng (length (rowArrays s))
          (s\<lparr>rowArrays := rowArrays s @ [rowArrays s ! r]\<rparr>)))"
    by (rule Cons.IH)
  then show ?case by (simp add: newRowArray_def)
qed

lemma copyRowsLoop_stopArrays: "stopArrays (copyRowsLoop ng rest s) = stopArrays s"
  by (induction rest arbitrary: s) (simp_all add: newRowArray_def pushGraph_def)

lemma copyRows_copying:
  assumes "extends s0 s" and "copyRows gG s = (ng, s')"
  shows "copying s0 ng s'" and "stopArrays s' = stopArrays s"
proof -
  have ng: "ng = length (graphArrays s)"
    and s': "s' = copyRowsLoop ng (graphArrays s ! gG) (s\<lparr>graphArrays := graphArrays s @ [[]]\<rparr>)"
    using assms(2) by (auto simp: copyRows_def Let_def)
  have "copying s0 ng (s\<lparr>graphArrays := graphArrays s @ [[]]\<rparr>)"
    using assms(1) keeps_length[of "graphArrays s0" "graphArrays s"]
    by (simp add: copying_def ng extends_def keeps_append)
  then show "copying s0 ng s'" unfolding s' by (rule copyRowsLoop_copying)
  show "stopArrays s' = stopArrays s" unfolding s' by (simp add: copyRowsLoop_stopArrays)
qed

lemma sliceStops_working:
  assumes "copying s0 ng s" and "sliceStops st s = (ns, s')"
  shows "working s0 ng ns s'"
  using assms keeps_length[of "stopArrays s0" "stopArrays s"]
  by (auto simp: copying_def working_def sliceStops_def extends_def keeps_append)

lemma newTransitGraph_extends:
  assumes "extends s0 s" and "newTransitGraph es n st s = (g, s')"
  shows "extends s0 s'"
  using assms by (auto simp: newTransitGraph_def Let_def extends_def keeps_append)

lemma map_nth_append_upt: "map (\<lambda>r. (xs @ M) ! r) [length xs..<length xs + length M] = M"
  by (rule nth_equalityI) (simp_all add: nth_append)

lemma newTransitGraph_view:
  assumes "newTransitGraph es n st s = (g, s')" and "st < length (stopArrays s)"
  shows "view s' g = TransitGraph es n (stopArrays s ! st)"
  using assms
  by (auto simp: newTransitGraph_def Let_def view_def rowsAt_def TransitGraph_def
        map_nth_append_upt)

text \<open>A graph object whose arrays were all allocated after the heap \<open>s0\<close>.\<close>

definition brandNew :: "'s heap \<Rightarrow> 's heap \<Rightarrow> graphRef \<Rightarrow> bool" where
  "brandNew s0 s g =
     (length (graphArrays s0) \<le> GRef g \<and> length (stopArrays s0) \<le> stopsRef g
      \<and> list_all (\<lambda>a. length (rowArrays s0) \<le> a) (graphArrays s ! GRef g))"

lemma newTransitGraph_valid:
  assumes "newTransitGraph es n st s = (g, s')" and "st < length (stopArrays s)"
  shows "validRef s' g" and "nodes g = n" and "stopsRef g = st"
    and "GRef g = length (graphArrays s)"
    and "graphArrays s' ! GRef g
         = [length (rowArrays s)..<length (rowArrays s) + length (foldl storeEdge (emptyMatrix n) es)]"
  using assms
  by (auto simp: newTransitGraph_def Let_def validRef_def list_all_iff)

lemma preserves_newTransitGraph:
  "preserves (working s0 ng ns)
     (\<lambda>s5. case newTransitGraph es n st s5 of (graph, s6) \<Rightarrow> (Inr graph, s6))"
  unfolding preserves_def
  by (auto simp: newTransitGraph_def Let_def working_def extends_def keeps_append nth_append)

lemma preserves_edgesOfRows:
  "preserves P (\<lambda>s4. (edgesOfRows (rowsAt s4 ng) [0..<length (graphArrays s4 ! ng)] [], s4))"
  by (simp add: preserves_def)

lemma preserves_rest:
  "preserves (working s0 ng ns)
     (thenH (mergeTopH mw ng ns a b) (\<lambda>_.
      thenH (\<lambda>s4. (edgesOfRows (rowsAt s4 ng) [0..<length (graphArrays s4 ! ng)] [], s4))
        (\<lambda>newEdgeList s5.
           (case newTransitGraph newEdgeList n ns s5 of (graph, s6) \<Rightarrow> (Inr graph, s6)))))"
  by (intro preserves_thenH preserves_mergeTopH preserves_edgesOfRows preserves_newTransitGraph)

text \<open>What one turn of the loop is made of.\<close>

lemma mergeStepH_parts:
  assumes "mergeStepH mw g s = Some (r, s')"
  obtains tg s1 seen groups ng s2 ns s3 where
    "newTransitGraph (getTransferEdges (view s g)) (nodes g) (stopsRef g) s = (tg, s1)"
    and "groupNodes (view s1 tg) [0..<length (G (view s1 tg))] ([], []) = Some (seen, groups)"
    and "copyRows (GRef g) s1 = (ng, s2)"
    and "sliceStops (stopsRef g) s2 = (ns, s3)"
    and "(case filter (\<lambda>e. length e > 1) groups of
            [] \<Rightarrow> (Inl TypeError, s3)
          | firstGroup # _ \<Rightarrow>
              thenH (mergeTopH mw ng ns (firstGroup ! 0) (firstGroup ! 1)) (\<lambda>_.
              thenH (\<lambda>s4. (edgesOfRows (rowsAt s4 ng) [0..<length (graphArrays s4 ! ng)] [], s4))
                (\<lambda>newEdgeList s5.
                   (case newTransitGraph newEdgeList (nodes g - 1) ns s5 of
                      (graph, s6) \<Rightarrow> (Inr graph, s6)))) s3) = (r, s')"
proof -
  obtain tg s1 where a:
    "newTransitGraph (getTransferEdges (view s g)) (nodes g) (stopsRef g) s = (tg, s1)"
    by (cases "newTransitGraph (getTransferEdges (view s g)) (nodes g) (stopsRef g) s")
  obtain ng s2 where c: "copyRows (GRef g) s1 = (ng, s2)" by (cases "copyRows (GRef g) s1")
  obtain ns s3 where d: "sliceStops (stopsRef g) s2 = (ns, s3)"
    by (cases "sliceStops (stopsRef g) s2")
  from assms obtain seen groups where b:
    "groupNodes (view s1 tg) [0..<length (G (view s1 tg))] ([], []) = Some (seen, groups)"
    unfolding mergeStepH_def a prod.case by (auto split: option.splits)
  from assms have "(case filter (\<lambda>e. length e > 1) groups of
            [] \<Rightarrow> (Inl TypeError, s3)
          | firstGroup # _ \<Rightarrow>
              thenH (mergeTopH mw ng ns (firstGroup ! 0) (firstGroup ! 1)) (\<lambda>_.
              thenH (\<lambda>s4. (edgesOfRows (rowsAt s4 ng) [0..<length (graphArrays s4 ! ng)] [], s4))
                (\<lambda>newEdgeList s5.
                   (case newTransitGraph newEdgeList (nodes g - 1) ns s5 of
                      (graph, s6) \<Rightarrow> (Inr graph, s6)))) s3) = (r, s')"
    unfolding mergeStepH_def a prod.case b option.case c d by simp
  with a b c d that show ?thesis by blast
qed

lemma mergeStepH_working:
  assumes "mergeStepH mw g s = Some (r, s')"
  obtains ng ns where "working s ng ns s'"
proof -
  from assms obtain tg s1 seen groups ng s2 ns s3 where
    a: "newTransitGraph (getTransferEdges (view s g)) (nodes g) (stopsRef g) s = (tg, s1)"
    and c: "copyRows (GRef g) s1 = (ng, s2)"
    and d: "sliceStops (stopsRef g) s2 = (ns, s3)"
    and e: "(case filter (\<lambda>e. length e > 1) groups of
            [] \<Rightarrow> (Inl TypeError, s3)
          | firstGroup # _ \<Rightarrow>
              thenH (mergeTopH mw ng ns (firstGroup ! 0) (firstGroup ! 1)) (\<lambda>_.
              thenH (\<lambda>s4. (edgesOfRows (rowsAt s4 ng) [0..<length (graphArrays s4 ! ng)] [], s4))
                (\<lambda>newEdgeList s5.
                   (case newTransitGraph newEdgeList (nodes g - 1) ns s5 of
                      (graph, s6) \<Rightarrow> (Inr graph, s6)))) s3) = (r, s')"
    by (rule mergeStepH_parts)
  have "extends s s1" using extends_refl a by (rule newTransitGraph_extends)
  then have "copying s ng s2" using c by (rule copyRows_copying)
  then have w3: "working s ng ns s3" using d by (rule sliceStops_working)
  have "working s ng ns s'"
  proof (cases "filter (\<lambda>e. length e > 1) groups")
    case Nil
    with e w3 show ?thesis by simp
  next
    case (Cons firstGroup rest)
    with e have "thenH (mergeTopH mw ng ns (firstGroup ! 0) (firstGroup ! 1)) (\<lambda>_.
              thenH (\<lambda>s4. (edgesOfRows (rowsAt s4 ng) [0..<length (graphArrays s4 ! ng)] [], s4))
                (\<lambda>newEdgeList s5.
                   (case newTransitGraph newEdgeList (nodes g - 1) ns s5 of
                      (graph, s6) \<Rightarrow> (Inr graph, s6)))) s3 = (r, s')"
      by simp
    with preserves_rest w3 show ?thesis by (rule preservesD)
  qed
  then show ?thesis by (rule that)
qed

lemma mergeStepH_extends:
  assumes "mergeStepH mw g s = Some (r, s')"
  shows "extends s s'"
proof -
  from assms obtain ng ns where "working s ng ns s'" by (rule mergeStepH_working)
  then show ?thesis by (simp add: working_def)
qed

lemma foldl_storeEdge_length: "length (foldl storeEdge M es) = length M"
  by (induction es arbitrary: M) (simp_all add: storeEdge_def Let_def)

lemma mergeStepH_result:
  assumes "mergeStepH mw g s = Some (Inr g', s')"
  shows "validRef s' g'" and "brandNew s s' g'" and "nodes g' < nodes g"
proof -
  from assms obtain tg s1 seen groups ng s2 ns s3 where
    a: "newTransitGraph (getTransferEdges (view s g)) (nodes g) (stopsRef g) s = (tg, s1)"
    and b: "groupNodes (view s1 tg) [0..<length (G (view s1 tg))] ([], []) = Some (seen, groups)"
    and c: "copyRows (GRef g) s1 = (ng, s2)"
    and d: "sliceStops (stopsRef g) s2 = (ns, s3)"
    and e: "(case filter (\<lambda>e. length e > 1) groups of
            [] \<Rightarrow> (Inl TypeError, s3)
          | firstGroup # _ \<Rightarrow>
              thenH (mergeTopH mw ng ns (firstGroup ! 0) (firstGroup ! 1)) (\<lambda>_.
              thenH (\<lambda>s4. (edgesOfRows (rowsAt s4 ng) [0..<length (graphArrays s4 ! ng)] [], s4))
                (\<lambda>newEdgeList s5.
                   (case newTransitGraph newEdgeList (nodes g - 1) ns s5 of
                      (graph, s6) \<Rightarrow> (Inr graph, s6)))) s3) = (Inr g', s')"
    by (rule mergeStepH_parts)
  have "extends s s1" using extends_refl a by (rule newTransitGraph_extends)
  then have "copying s ng s2" using c by (rule copyRows_copying)
  then have w3: "working s ng ns s3" using d by (rule sliceStops_working)
  from e obtain firstGroup rest where f: "filter (\<lambda>e. length e > 1) groups = firstGroup # rest"
    by (cases "filter (\<lambda>e. length e > 1) groups") simp_all
  from e f have e': "thenH (mergeTopH mw ng ns (firstGroup ! 0) (firstGroup ! 1)) (\<lambda>_.
              thenH (\<lambda>s4. (edgesOfRows (rowsAt s4 ng) [0..<length (graphArrays s4 ! ng)] [], s4))
                (\<lambda>newEdgeList s5.
                   (case newTransitGraph newEdgeList (nodes g - 1) ns s5 of
                      (graph, s6) \<Rightarrow> (Inr graph, s6)))) s3 = (Inr g', s')"
    by simp
  from e' obtain u s4 where m: "mergeTopH mw ng ns (firstGroup ! 0) (firstGroup ! 1) s3 = (Inr u, s4)"
    and e2: "thenH (\<lambda>s4. (edgesOfRows (rowsAt s4 ng) [0..<length (graphArrays s4 ! ng)] [], s4))
                (\<lambda>newEdgeList s5.
                   (case newTransitGraph newEdgeList (nodes g - 1) ns s5 of
                      (graph, s6) \<Rightarrow> (Inr graph, s6))) s4 = (Inr g', s')"
    by (rule thenH_Inr)
  have w4: "working s ng ns s4" using preserves_mergeTopH w3 m by (rule preservesD)
  from e2 obtain es s5 where
    e3: "(edgesOfRows (rowsAt s4 ng) [0..<length (graphArrays s4 ! ng)] [], s4) = (Inr es, s5)"
    and e4: "(case newTransitGraph es (nodes g - 1) ns s5 of (graph, s6) \<Rightarrow> (Inr graph, s6))
             = (Inr g' :: error + graphRef, s')"
    by (rule thenH_Inr)
  from e3 have s5: "s5 = s4" by simp
  from e4 have n: "newTransitGraph es (nodes g - 1) ns s4 = (g', s')"
    unfolding s5 by (cases "newTransitGraph es (nodes g - 1) ns s4") simp
  have ns: "ns < length (stopArrays s4)" and ns0: "length (stopArrays s) \<le> ns"
    and x4: "extends s s4"
    using w4 by (simp_all add: working_def)
  show "validRef s' g'" using n ns by (rule newTransitGraph_valid)
  have st: "stopsRef g' = ns" and gr: "GRef g' = length (graphArrays s4)"
    and rw: "graphArrays s' ! GRef g'
       = [length (rowArrays s4)..<length (rowArrays s4)
            + length (foldl storeEdge (emptyMatrix (nodes g - 1)) es)]"
    and nd: "nodes g' = nodes g - 1"
    using newTransitGraph_valid[OF n ns] by simp_all
  have l1: "length (graphArrays s) \<le> length (graphArrays s4)"
    and l2: "length (rowArrays s) \<le> length (rowArrays s4)"
    using x4 by (simp_all add: extends_def keeps_length)
  show "brandNew s s' g'"
    unfolding brandNew_def rw list_all_iff using st gr ns0 l1 l2 by simp
  have "nodes g \<noteq> 0"
  proof
    assume z: "nodes g = 0"
    have "G (view s1 tg) = []"
      using a by (auto simp: newTransitGraph_def Let_def z emptyMatrix_def foldl_storeEdge_Nil
                    view_def rowsAt_def)
    with b have "groups = []" by simp
    with f show False by simp
  qed
  with nd show "nodes g' < nodes g" by simp
qed

text \<open>The \<^verbatim>\<open>while\<close> loop of lines 435-485 in the heap.\<close>

function mergeLoopH ::
  "('s \<Rightarrow> 's \<Rightarrow> 's) \<Rightarrow> graphRef \<Rightarrow> 's heap \<Rightarrow> ((error + graphRef) \<times> 's heap) option" where
  "mergeLoopH mergeWith g s =
     (if length (getTransferEdges (view s g)) > 0
      then (case mergeStepH mergeWith g s of
              None \<Rightarrow> None
            | Some (Inl e, s') \<Rightarrow> Some (Inl e, s')
            | Some (Inr g', s') \<Rightarrow> mergeLoopH mergeWith g' s')
      else Some (Inr g, s))"
  by pat_completeness auto
termination
proof (relation "measure (\<lambda>(mergeWith, g, s). nodes g)", goal_cases)
  case 1
  show ?case by simp
next
  case (2 mergeWith g s x2 x1 x2a b)
  then have "mergeStepH mergeWith g s = Some (Inr b, x2a)" by simp
  then have "nodes b < nodes g" by (rule mergeStepH_result(3))
  then show ?case by simp
qed

declare mergeLoopH.simps [simp del]

text \<open>
  \<^verbatim>\<open>mergeTransferNodes\<close>, lines 429-487, in the heap; the result \<open>None\<close> stands for
  \<^verbatim>\<open>undefined\<close>.
\<close>

definition mergeTransferNodesH ::
  "('s \<Rightarrow> 's \<Rightarrow> 's) \<Rightarrow> graphRef \<Rightarrow> 's heap \<Rightarrow> ((error + graphRef option) \<times> 's heap) option" where
  "mergeTransferNodesH mergeWith g s =
     (if length (getTransferEdges (view s g)) = 0 then Some (Inr None, s)
      else (case mergeLoopH mergeWith g s of
              None \<Rightarrow> None
            | Some (Inl e, s') \<Rightarrow> Some (Inl e, s')
            | Some (Inr g', s') \<Rightarrow> Some (Inr (Some g'), s')))"

text \<open>The graphs that the loop holds in turn, each with the heap in which it is built.\<close>

inductive iterations ::
  "('s \<Rightarrow> 's \<Rightarrow> 's) \<Rightarrow> graphRef \<Rightarrow> 's heap \<Rightarrow> graphRef \<Rightarrow> 's heap \<Rightarrow> bool"
  for mergeWith :: "'s \<Rightarrow> 's \<Rightarrow> 's" and g :: graphRef and s :: "'s heap" where
  start: "iterations mergeWith g s g s"
| turn: "iterations mergeWith g s g1 s1 \<Longrightarrow> length (getTransferEdges (view s1 g1)) > 0
         \<Longrightarrow> mergeStepH mergeWith g1 s1 = Some (Inr g2, s2)
         \<Longrightarrow> iterations mergeWith g s g2 s2"

lemma iterations_extends:
  assumes "iterations mw g s g1 s1" and "validRef s g"
  shows "extends s s1 \<and> validRef s1 g1"
  using assms
proof (induction rule: iterations.induct)
  case start
  then show ?case by (simp add: extends_refl)
next
  case (turn g1 s1 g2 s2)
  then have "extends s s1" by simp
  moreover have "extends s1 s2" using turn.hyps(3) by (rule mergeStepH_extends)
  ultimately have "extends s s2" by (rule extends_trans)
  moreover have "validRef s2 g2" using turn.hyps(3) by (rule mergeStepH_result)
  ultimately show ?case by simp
qed

lemma iterations_first:
  assumes "iterations mw g1 s1 g2 s2"
    and "length (getTransferEdges (view s g)) > 0" and "mergeStepH mw g s = Some (Inr g1, s1)"
  shows "iterations mw g s g2 s2"
  using assms
proof (induction rule: iterations.induct)
  case start
  show ?case using iterations.start start.prems by (rule iterations.turn)
next
  case (turn g2 s2 g3 s3)
  have "iterations mw g s g2 s2" using turn.prems by (rule turn.IH)
  then show ?case using turn.hyps(2,3) by (rule iterations.turn)
qed

lemma mergeLoopH_iterations:
  "mergeLoopH mw g s = Some (Inr g', s') \<Longrightarrow> iterations mw g s g' s'"
proof (induction mw g s rule: mergeLoopH.induct)
  case (1 mw g s)
  note eq = mergeLoopH.simps[of mw g s]
  show ?case
  proof (cases "length (getTransferEdges (view s g)) > 0")
    case False
    with "1.prems" eq have "g' = g" "s' = s" by simp_all
    then show ?thesis by (simp add: iterations.start)
  next
    case True
    with "1.prems" eq have
      "(case mergeStepH mw g s of
          None \<Rightarrow> None
        | Some (Inl e, s1) \<Rightarrow> Some (Inl e, s1)
        | Some (Inr g1, s1) \<Rightarrow> mergeLoopH mw g1 s1) = Some (Inr g', s')"
      by simp
    then obtain g1 s1 where
      st: "mergeStepH mw g s = Some (Inr g1, s1)" and r: "mergeLoopH mw g1 s1 = Some (Inr g', s')"
      by (auto split: option.splits sum.splits prod.splits)
    have "iterations mw g1 s1 g' s'" using True st refl refl r by (rule "1.IH")
    then show ?thesis using True st by (rule iterations_first)
  qed
qed

lemma mergeLoopH_extends:
  "mergeLoopH mw g s = Some (r, s') \<Longrightarrow> extends s s'"
proof (induction mw g s rule: mergeLoopH.induct)
  case (1 mw g s)
  note eq = mergeLoopH.simps[of mw g s]
  show ?case
  proof (cases "length (getTransferEdges (view s g)) > 0")
    case False
    with "1.prems" eq have "s' = s" by simp
    then show ?thesis by (simp add: extends_refl)
  next
    case True
    with "1.prems" eq have c:
      "(case mergeStepH mw g s of
          None \<Rightarrow> None
        | Some (Inl e, s1) \<Rightarrow> Some (Inl e, s1)
        | Some (Inr g1, s1) \<Rightarrow> mergeLoopH mw g1 s1) = Some (r, s')"
      by simp
    then obtain r1 s1 where st: "mergeStepH mw g s = Some (r1, s1)"
      by (auto split: option.splits)
    have x: "extends s s1" using st by (rule mergeStepH_extends)
    show ?thesis
    proof (cases r1)
      case (Inl e)
      with st c have "s' = s1" by simp
      with x show ?thesis by simp
    next
      case (Inr g1)
      with st c have "mergeLoopH mw g1 s1 = Some (r, s')" by simp
      with True st Inr have "extends s1 s'" using "1.IH" by blast
      with x show ?thesis by (rule extends_trans)
    qed
  qed
qed

lemma mergeTransferNodesH_leaves_input:
  assumes "validRef s g" and "mergeTransferNodesH mw g s = Some (r, s')"
  shows "view s' g = view s g"
proof -
  have "extends s s'"
  proof (cases "length (getTransferEdges (view s g)) = 0")
    case True
    with assms(2) have "s' = s" by (simp add: mergeTransferNodesH_def)
    then show ?thesis by (simp add: extends_refl)
  next
    case False
    with assms(2) obtain r1 where "mergeLoopH mw g s = Some (r1, s')"
      by (auto simp: mergeTransferNodesH_def split: option.splits sum.splits prod.splits)
    then show ?thesis by (rule mergeLoopH_extends)
  qed
  with assms(1) show ?thesis by (rule view_extends)
qed

text \<open>
  C9.  Every turn of the loop of \<^verbatim>\<open>mergeTransferNodes\<close> leaves every graph that the loop held
  before unchanged, whether the turn returns a graph or raises: every array of the heap of an
  earlier turn is in the heap after the turn at the same address with the same content, so
  that the adjacency structure and the stop sequence read through the reference of a
  superseded graph are the same; and the graph that a turn returns holds only arrays that
  were allocated in that turn.
\<close>

theorem merge_leaves_superseded_graphs:
  assumes "validRef s g"
    and "iterations mw g s g0 s0"
    and "iterations mw g0 s0 g1 s1"
    and "mergeStepH mw g1 s1 = Some (r, s2)"
  shows "extends s0 s2 \<and> view s2 g0 = view s0 g0
         \<and> (case r of Inl e \<Rightarrow> True | Inr g2 \<Rightarrow> brandNew s1 s2 g2)"
proof -
  have v0: "validRef s0 g0" using iterations_extends[OF assms(2,1)] by simp
  have "extends s0 s1" using iterations_extends[OF assms(3) v0] by simp
  moreover have "extends s1 s2" using assms(4) by (rule mergeStepH_extends)
  ultimately have x: "extends s0 s2" by (rule extends_trans)
  have "view s2 g0 = view s0 g0" using v0 x by (rule view_extends)
  moreover have "case r of Inl e \<Rightarrow> True | Inr g2 \<Rightarrow> brandNew s1 s2 g2"
  proof (cases r)
    case (Inl e)
    then show ?thesis by simp
  next
    case (Inr g2)
    with assms(4) have "brandNew s1 s2 g2" by (simp add: mergeStepH_result(2))
    with Inr show ?thesis by simp
  qed
  ultimately show ?thesis using x by simp
qed



text \<open>
  Four stops in a heap: transfer edges 0-1 and 2-3 and a route edge 1-2; and the graphs and
  heaps after the first and after the second turn of the loop.
\<close>

definition graphZero :: graphRef where
  "graphZero = \<lparr>nodes = 4, stopsRef = 0, GRef = 0\<rparr>"

definition heapZero :: "string heap" where
  "heapZero =
     \<lparr>rowArrays = [[], [Rel Transfer 1], [Zero, Rel Route 5], [Zero, Zero, Rel Transfer 1]],
      graphArrays = [[0, 1, 2, 3]],
      stopArrays = [[''s0'', ''s1'', ''s2'', ''s3'']]\<rparr>"

definition graphOne :: graphRef where
  "graphOne = \<lparr>nodes = 3, stopsRef = 1, GRef = 3\<rparr>"

definition heapOne :: "string heap" where
  "heapOne =
     \<lparr>rowArrays =
        [[], [Rel Transfer 1], [Zero, Rel Route 5], [Zero, Zero, Rel Transfer 1],
         [], [Rel Transfer 1], [Zero, Zero], [Zero, Zero, Rel Transfer 1],
         [], [Null], [], [Rel Transfer 1], [Rel Route (- 1), Zero],
         [], [Rel Transfer 1], [Rel Route (- 1), Zero]],
      graphArrays = [[0, 1, 2, 3], [4, 5, 6, 7], [10, 11, 12], [13, 14, 15]],
      stopArrays = [[''s0'', ''s1'', ''s2'', ''s3''], [''s2'', ''s3'', ''s0+s1'']]\<rparr>"

definition graphTwo :: graphRef where
  "graphTwo = \<lparr>nodes = 2, stopsRef = 2, GRef = 6\<rparr>"

definition heapTwo :: "string heap" where
  "heapTwo =
     \<lparr>rowArrays =
        [[], [Rel Transfer 1], [Zero, Rel Route 5], [Zero, Zero, Rel Transfer 1],
         [], [Rel Transfer 1], [Zero, Zero], [Zero, Zero, Rel Transfer 1],
         [], [Null], [], [Rel Transfer 1], [Rel Route (- 1), Zero],
         [], [Rel Transfer 1], [Rel Route (- 1), Zero],
         [], [Rel Transfer 1], [Zero, Zero],
         [], [Null], [], [Rel Route (- 1)],
         [], [Rel Route (- 1)]],
      graphArrays =
        [[0, 1, 2, 3], [4, 5, 6, 7], [10, 11, 12], [13, 14, 15],
         [16, 17, 18], [21, 22], [23, 24]],
      stopArrays =
        [[''s0'', ''s1'', ''s2'', ''s3''], [''s2'', ''s3'', ''s0+s1''],
         [''s0+s1'', ''s2+s3'']]\<rparr>"

lemma heap_run_example:
  "mergeTransferNodesH joinStops graphZero heapZero = Some (Inr (Some graphTwo), heapTwo)
   \<and> mergeTransferNodes joinStops (view heapZero graphZero)
       = Some (Inr (Merged (view heapTwo graphTwo)))"
  by code_simp

theorem merge_leaves_superseded_graphs_witness:
  "validRef heapZero graphZero
   \<and> iterations joinStops graphZero heapZero graphOne heapOne
   \<and> mergeStepH joinStops graphOne heapOne = Some (Inr graphTwo, heapTwo)
   \<and> extends heapOne heapTwo
   \<and> view heapTwo graphOne = view heapOne graphOne
   \<and> view heapOne graphOne
       = \<lparr>numNodes = 3, stops = [''s2'', ''s3'', ''s0+s1''],
          G = [[], [Rel Transfer 1], [Rel Route (- 1), Zero]]\<rparr>
   \<and> brandNew heapOne heapTwo graphTwo
   \<and> view heapTwo graphZero = view heapZero graphZero"
proof -
  have a: "validRef heapZero graphZero" by code_simp
  have t1: "length (getTransferEdges (view heapZero graphZero)) > 0" by code_simp
  have s1: "mergeStepH joinStops graphZero heapZero = Some (Inr graphOne, heapOne)"
    by code_simp
  have i1: "iterations joinStops graphZero heapZero graphOne heapOne"
    using iterations.start t1 s1 by (rule iterations.turn)
  have s2: "mergeStepH joinStops graphOne heapOne = Some (Inr graphTwo, heapTwo)"
    by code_simp
  have v: "view heapOne graphOne
       = \<lparr>numNodes = 3, stops = [''s2'', ''s3'', ''s0+s1''],
          G = [[], [Rel Transfer 1], [Rel Route (- 1), Zero]]\<rparr>"
    by code_simp
  have one: "extends heapOne heapTwo \<and> view heapTwo graphOne = view heapOne graphOne
             \<and> brandNew heapOne heapTwo graphTwo"
    using merge_leaves_superseded_graphs[OF a i1 iterations.start s2] by simp
  have zero: "view heapTwo graphZero = view heapZero graphZero"
    using merge_leaves_superseded_graphs[OF a iterations.start i1 s2] by simp
  show ?thesis using a i1 s2 one v zero by simp
qed

text \<open>Two stops joined by one route edge, in a heap.\<close>

definition twoStopsRef :: graphRef where
  "twoStopsRef = \<lparr>nodes = 2, stopsRef = 0, GRef = 0\<rparr>"

definition twoStopsHeap :: "string heap" where
  "twoStopsHeap =
     \<lparr>rowArrays = [[], [Rel Route 5]], graphArrays = [[0, 1]],
      stopArrays = [[''s0'', ''s1'']]\<rparr>"

text \<open>
  C8.  On a graph without transfer edges \<^verbatim>\<open>mergeTransferNodes\<close> returns \<^verbatim>\<open>undefined\<close>: it does
  not raise and returns no graph, neither the input graph nor a copy of it.  The heap after
  the call is the heap before it: no array is written and none is allocated.
\<close>

theorem no_transfer_edges_returns_undefined:
  "getTransferEdges (view s g) = []
   \<Longrightarrow> mergeTransferNodesH mergeWith g s = Some (Inr None, s)
       \<and> mergeTransferNodes mergeWith (view s g) = Some (Inr NothingToMerge)"
  by (simp add: mergeTransferNodesH_def mergeTransferNodes_def)

theorem no_transfer_edges_returns_undefined_witness:
  "getTransferEdges (view twoStopsHeap twoStopsRef) = []
   \<and> view twoStopsHeap twoStopsRef = twoStops
   \<and> mergeTransferNodesH joinStops twoStopsRef twoStopsHeap = Some (Inr None, twoStopsHeap)
   \<and> mergeTransferNodes joinStops twoStops = Some (Inr NothingToMerge)"
proof -
  have a: "getTransferEdges (view twoStopsHeap twoStopsRef) = []" by code_simp
  have b: "view twoStopsHeap twoStopsRef = twoStops" by code_simp
  show ?thesis
    using no_transfer_edges_returns_undefined[OF a, of joinStops] a b by simp
qed

end
